(* ===== verification/TNG_Prelude.thy ===== *)
theory TNG_Prelude
  imports Main "HOL-Library.Word" "HOL-Library.List_Lexorder"
begin

text \<open>
  Shared vocabulary of the development: the machine integers of the Rust sources, the checked,
  saturating and widening arithmetic the sources call on them, big-endian byte conversions, slices,
  the binary searches and chunks of the Rust slice library, and the chaining of results.

  Conventions. \<open>u8\<close>, \<open>u16\<close>, \<open>u32\<close> and \<open>u64\<close> are words, so \<open>+\<close>, \<open>-\<close> and \<open>*\<close> wrap as the release
  profile of the workspace does. A \<open>usize\<close> that indexes or measures memory is a \<open>nat\<close>; where the
  source guards it with a checked operation, the bound \<^term>\<open>2 ^ 64\<close> is written out.
  A \<open>Result\<close> is a sum with the error on the left.
\<close>

unbundle bit_operations_syntax

type_synonym u8 = "8 word"
type_synonym u16 = "16 word"
type_synonym u32 = "32 word"
type_synonym u64 = "64 word"
type_synonym bytes = "8 word list"

named_theorems unat_simps \<open>reading word operations as arithmetic on natural numbers\<close>
named_theorems codec_simps \<open>byte layout of the encoders and parsers\<close>

subsection \<open>Results\<close>

definition ok_or :: "'e \<Rightarrow> 'a option \<Rightarrow> 'e + 'a" where
  "ok_or e x = (case x of None \<Rightarrow> Inl e | Some a \<Rightarrow> Inr a)"

lemma ok_or_simps [simp]:
  "ok_or e None = Inl e"
  "ok_or e (Some a) = Inr a"
  by (simp_all add: ok_or_def)

lemma ok_or_eq_Inr [simp]: "ok_or e x = Inr a \<longleftrightarrow> x = Some a"
  by (cases x) simp_all

lemma ok_or_eq_Inl [simp]: "ok_or e x = Inl e' \<longleftrightarrow> x = None \<and> e' = e"
  by (cases x) auto

definition is_ok :: "'e + 'a \<Rightarrow> bool" where
  "is_ok r = (case r of Inl _ \<Rightarrow> False | Inr _ \<Rightarrow> True)"

lemma is_ok_simps [simp]:
  "\<not> is_ok (Inl e)"
  "is_ok (Inr a)"
  by (simp_all add: is_ok_def)

lemma is_ok_iff: "is_ok r \<longleftrightarrow> (\<exists>a. r = Inr a)"
  by (cases r) simp_all

subsection \<open>Checked and saturating arithmetic\<close>

definition checked_add :: "'a::len word \<Rightarrow> 'a word \<Rightarrow> 'a word option" where
  "checked_add a b = (if unat a + unat b < 2 ^ LENGTH('a) then Some (a + b) else None)"

definition checked_mul :: "'a::len word \<Rightarrow> 'a word \<Rightarrow> 'a word option" where
  "checked_mul a b = (if unat a * unat b < 2 ^ LENGTH('a) then Some (a * b) else None)"

definition saturating_add :: "'a::len word \<Rightarrow> 'a word \<Rightarrow> 'a word" where
  "saturating_add a b = (if unat a + unat b < 2 ^ LENGTH('a) then a + b else - 1)"

definition saturating_sub :: "'a::len word \<Rightarrow> 'a word \<Rightarrow> 'a word" where
  "saturating_sub a b = (if a < b then 0 else a - b)"

definition div_ceil :: "'a::len word \<Rightarrow> 'a word \<Rightarrow> 'a word" where
  "div_ceil a b = (if a mod b > 0 then a div b + 1 else a div b)"

definition is_multiple_of :: "'a::len word \<Rightarrow> 'a word \<Rightarrow> bool" where
  "is_multiple_of a b = (if b = 0 then a = 0 else a mod b = 0)"

text \<open>\<open>u32::try_from(x)\<close> on a \<open>u64\<close>, and the widening \<open>u64::from\<close>.\<close>

definition u32_try_from :: "u64 \<Rightarrow> u32 option" where
  "u32_try_from x = (if unat x < 2 ^ 32 then Some (ucast x) else None)"

definition u64_from :: "u32 \<Rightarrow> u64" where
  "u64_from x = ucast x"

lemma checked_add_Some_iff:
  "checked_add a (b :: 'a::len word) = Some c
     \<longleftrightarrow> unat c = unat a + unat b"
proof
  assume "checked_add a b = Some c"
  then show "unat c = unat a + unat b"
    by (auto simp: checked_add_def unat_word_ariths split: if_splits)
next
  assume *: "unat c = unat a + unat b"
  moreover have "unat c < 2 ^ LENGTH('a)" by (rule unsigned_less)
  ultimately have "unat (a + b) = unat c" by (simp add: unat_word_ariths)
  then have "a + b = c" by (simp add: word_unat_eq_iff)
  with * \<open>unat c < _\<close> show "checked_add a b = Some c" by (simp add: checked_add_def)
qed

lemma checked_mul_Some_iff:
  "checked_mul a (b :: 'a::len word) = Some c
     \<longleftrightarrow> unat c = unat a * unat b"
proof
  assume "checked_mul a b = Some c"
  then show "unat c = unat a * unat b"
    by (auto simp: checked_mul_def unat_word_ariths split: if_splits)
next
  assume *: "unat c = unat a * unat b"
  moreover have "unat c < 2 ^ LENGTH('a)" by (rule unsigned_less)
  ultimately have "unat (a * b) = unat c" by (simp add: unat_word_ariths)
  then have "a * b = c" by (simp add: word_unat_eq_iff)
  with * \<open>unat c < _\<close> show "checked_mul a b = Some c" by (simp add: checked_mul_def)
qed

lemma checked_add_None_iff:
  "checked_add a (b :: 'a::len word) = None \<longleftrightarrow> 2 ^ LENGTH('a) \<le> unat a + unat b"
  by (auto simp: checked_add_def)

lemma checked_mul_None_iff:
  "checked_mul a (b :: 'a::len word) = None \<longleftrightarrow> 2 ^ LENGTH('a) \<le> unat a * unat b"
  by (auto simp: checked_mul_def)

lemma unat_saturating_add [unat_simps]:
  "unat (saturating_add a (b :: 'a::len word)) = min (unat a + unat b) (2 ^ LENGTH('a) - 1)"
  by (auto simp: saturating_add_def unat_word_ariths unsigned_minus_1_eq_mask mask_eq_exp_minus_1)

lemma unat_sub_le: "b \<le> a \<Longrightarrow> unat (a - b) = unat a - unat (b :: 'a::len word)"
  by (rule unat_sub)

lemma unat_saturating_sub [unat_simps]:
  "unat (saturating_sub a (b :: 'a::len word)) = unat a - unat b"
  by (auto simp: saturating_sub_def unat_sub_le not_less word_less_nat_alt word_le_nat_alt)

lemma unat_u64_from [unat_simps]: "unat (u64_from x) = unat x"
  unfolding u64_from_def by (simp add: unsigned_ucast_eq take_bit_nat_eq_self unsigned_less [THEN less_le_trans])

lemma u64_from_inject [simp]: "u64_from x = u64_from y \<longleftrightarrow> x = y"
  by (metis unat_u64_from word_unat_eq_iff)

lemma u32_try_from_Some_iff: "u32_try_from x = Some y \<longleftrightarrow> unat x = unat y"
proof
  assume "u32_try_from x = Some y"
  then have "unat x < 2 ^ 32" and "y = ucast x" by (auto simp: u32_try_from_def split: if_splits)
  then show "unat x = unat y" by (simp add: unsigned_ucast_eq take_bit_nat_eq_self)
next
  assume *: "unat x = unat y"
  have "unat y < 2 ^ 32" using unsigned_less [of y, where ?'a = nat] by simp
  moreover have "ucast x = y"
    using * \<open>unat y < _\<close> by (simp add: word_unat_eq_iff unsigned_ucast_eq take_bit_nat_eq_self)
  ultimately show "u32_try_from x = Some y" using * by (simp add: u32_try_from_def)
qed

lemma u32_try_from_None_iff: "u32_try_from x = None \<longleftrightarrow> 2 ^ 32 \<le> unat x"
  by (auto simp: u32_try_from_def)

lemma unat_div_ceil [unat_simps]:
  assumes "b \<noteq> (0 :: 'a::len word)"
  shows "unat (div_ceil a b) = (unat a + unat b - 1) div unat b"
proof -
  have b: "0 < unat b" using assms by (simp add: unat_gt_0)
  show ?thesis
  proof (cases "a mod b > 0")
    case True
    then have r: "0 < unat a mod unat b" by (simp add: word_less_nat_alt unat_mod)
    have q: "unat a = unat a div unat b * unat b + unat a mod unat b" by simp
    have "1 < unat b" using r by (cases "unat b = 1") (use b in auto)
    moreover have a: "0 < unat a" using r by (cases "unat a = 0") auto
    ultimately have "unat a div unat b < unat a" by simp
    moreover have "unat a < 2 ^ LENGTH('a)" by (rule unsigned_less)
    ultimately have s: "Suc (unat a div unat b) < 2 ^ LENGTH('a)" by linarith
    then have "unat (a div b + 1) = unat a div unat b + 1"
      by (simp add: unat_word_ariths unat_div)
    moreover have "(unat a + unat b - 1) div unat b = unat a div unat b + 1"
    proof -
      have "unat a + unat b - 1 = (unat a div unat b + 1) * unat b + (unat a mod unat b - 1)"
        using q r a b by (simp add: algebra_simps)
      moreover have "(unat a mod unat b - 1) div unat b = 0"
        using b by (simp add: less_imp_diff_less)
      ultimately show ?thesis using b by (metis add.right_neutral div_mult_self3 less_numeral_extra(3))
    qed
    ultimately show ?thesis using True by (simp add: div_ceil_def)
  next
    case False
    then have r: "unat a mod unat b = 0" by (simp add: word_less_nat_alt unat_mod)
    then have "unat a + unat b - 1 = unat a div unat b * unat b + (unat b - 1)"
      using b by (metis Nat.add_diff_assoc Suc_leI One_nat_def add.right_neutral div_mult_mod_eq)
    moreover have "(unat b - 1) div unat b = 0" using b by simp
    ultimately have "(unat a + unat b - 1) div unat b = unat a div unat b"
      using b by (metis add.right_neutral div_mult_self3 less_numeral_extra(3))
    then show ?thesis using False by (simp add: div_ceil_def unat_div)
  qed
qed

lemma is_multiple_of_iff [unat_simps]:
  "is_multiple_of a (b :: 'a::len word) \<longleftrightarrow> unat b dvd unat a"
proof (cases "b = 0")
  case True
  then show ?thesis by (simp add: is_multiple_of_def unat_eq_zero)
next
  case False
  have "a mod b = 0 \<longleftrightarrow> unat a mod unat b = 0"
    by (metis unat_eq_zero unat_mod)
  with False show ?thesis by (simp add: is_multiple_of_def mod_eq_0_iff_dvd)
qed

lemmas word_nat_order = word_less_nat_alt word_le_nat_alt word_unat_eq_iff

subsection \<open>Big-endian bytes\<close>

definition u16_to_be_bytes :: "u16 \<Rightarrow> bytes" where
  "u16_to_be_bytes w = [ucast (drop_bit 8 w), ucast w]"

definition u32_to_be_bytes :: "u32 \<Rightarrow> bytes" where
  "u32_to_be_bytes w =
     [ucast (drop_bit 24 w), ucast (drop_bit 16 w), ucast (drop_bit 8 w), ucast w]"

definition u16_from_be_bytes :: "bytes \<Rightarrow> u16" where
  "u16_from_be_bytes bs = push_bit 8 (ucast (bs ! 0)) OR ucast (bs ! 1)"

definition u32_from_be_bytes :: "bytes \<Rightarrow> u32" where
  "u32_from_be_bytes bs =
     push_bit 24 (ucast (bs ! 0)) OR push_bit 16 (ucast (bs ! 1)) OR
     push_bit 8 (ucast (bs ! 2)) OR ucast (bs ! 3)"

lemma bit_u8_beyond: "8 \<le> n \<Longrightarrow> \<not> bit (w :: u8) n"
  using bit_imp_le_length [of w n] by auto

lemmas bit_byte_simps = bit_or_iff bit_push_bit_iff bit_ucast_iff bit_drop_bit_eq bit_u8_beyond

lemma length_be_bytes [simp, codec_simps]:
  "length (u16_to_be_bytes w) = 2"
  "length (u32_to_be_bytes v) = 4"
  by (simp_all add: u16_to_be_bytes_def u32_to_be_bytes_def)

lemma u16_from_to_be_bytes [simp, codec_simps]: "u16_from_be_bytes (u16_to_be_bytes w) = w"
proof (rule bit_eqI)
  fix n assume "possible_bit TYPE(u16) n"
  then consider "n < 8" | "8 \<le> n \<and> n < 16" by fastforce
  then show "bit (u16_from_be_bytes (u16_to_be_bytes w)) n = bit w n"
    by cases (auto simp: u16_from_be_bytes_def u16_to_be_bytes_def bit_byte_simps)
qed

lemma u32_from_to_be_bytes [simp, codec_simps]: "u32_from_be_bytes (u32_to_be_bytes w) = w"
proof (rule bit_eqI)
  fix n assume "possible_bit TYPE(u32) n"
  then consider "n < 8" | "8 \<le> n \<and> n < 16" | "16 \<le> n \<and> n < 24" | "24 \<le> n \<and> n < 32"
    by fastforce
  then show "bit (u32_from_be_bytes (u32_to_be_bytes w)) n = bit w n"
    by cases (auto simp: u32_from_be_bytes_def u32_to_be_bytes_def bit_byte_simps)
qed

lemma u16_to_from_be_bytes [codec_simps]:
  assumes "length bs = 2"
  shows "u16_to_be_bytes (u16_from_be_bytes bs) = bs"
proof -
  from assms obtain a b where "bs = [a, b]"
    by (auto simp: numeral_eq_Suc length_Suc_conv)
  then show ?thesis
    by (auto intro!: bit_eqI simp: u16_to_be_bytes_def u16_from_be_bytes_def bit_byte_simps)
qed

lemma u32_to_from_be_bytes [codec_simps]:
  assumes "length bs = 4"
  shows "u32_to_be_bytes (u32_from_be_bytes bs) = bs"
proof -
  from assms obtain a b c d where "bs = [a, b, c, d]"
    by (auto simp: numeral_eq_Suc length_Suc_conv)
  then show ?thesis
    by (auto intro!: bit_eqI simp: u32_to_be_bytes_def u32_from_be_bytes_def bit_byte_simps)
qed

subsection \<open>Slices\<close>

text \<open>\<open>subslice bs i j\<close> is \<open>&bs[i..j]\<close> for \<open>i \<le> j \<le> bs.len()\<close>.\<close>

definition subslice :: "'a list \<Rightarrow> nat \<Rightarrow> nat \<Rightarrow> 'a list" where
  "subslice xs i j = take (j - i) (drop i xs)"

lemma length_subslice [simp]: "length (subslice xs i j) = min (j - i) (length xs - i)"
  by (simp add: subslice_def)

lemma subslice_append:
  "i \<le> j \<Longrightarrow> j \<le> k \<Longrightarrow> subslice xs i j @ subslice xs j k = subslice xs i k"
proof -
  assume "i \<le> j" and "j \<le> k"
  then have "subslice xs i k = take ((j - i) + (k - j)) (drop i xs)" by (simp add: subslice_def)
  also have "\<dots> = take (j - i) (drop i xs) @ take (k - j) (drop (j - i) (drop i xs))"
    by (rule take_add)
  finally show ?thesis using \<open>i \<le> j\<close> by (simp add: subslice_def)
qed

lemma take_subslice: "i \<le> j \<Longrightarrow> take i xs @ subslice xs i j = take j xs"
  using subslice_append [of 0 i j xs] by (simp add: subslice_def)

text \<open>\<open>copy_from_slice\<close> into \<open>buf[i..i + bs.len()]\<close>.\<close>

definition copy_at :: "nat \<Rightarrow> bytes \<Rightarrow> bytes \<Rightarrow> bytes" where
  "copy_at i bs buf = take i buf @ bs @ drop (i + length bs) buf"

lemma subslice_empty [simp]: "j \<le> i \<Longrightarrow> subslice xs i j = []"
  by (simp add: subslice_def)

subsection \<open>Binary search of the slice library\<close>

text \<open>
  \<open>core::slice::binary_search_by\<close>: the comparison is asked at an index, the search halves
  \<open>size\<close> while it is larger than one and keeps \<open>base\<close> on the left of the answer.
\<close>

datatype ordering = Less | Equal | Greater

function bsearch_loop :: "(nat \<Rightarrow> ordering) \<Rightarrow> nat \<Rightarrow> nat \<Rightarrow> nat" where
  "bsearch_loop cmp base len =
     (if 1 < len then
        let half = len div 2; mid = base + half
        in bsearch_loop cmp (if cmp mid = Greater then base else mid) (len - half)
      else base)"
  by pat_completeness auto
termination
  by (relation "measure (\<lambda>(cmp, base, len). len)") auto

declare bsearch_loop.simps [simp del]

definition binary_search_by :: "('a \<Rightarrow> ordering) \<Rightarrow> 'a list \<Rightarrow> nat + nat" where
  "binary_search_by f xs =
     (if xs = [] then Inl 0
      else let base = bsearch_loop (\<lambda>i. f (xs ! i)) 0 (length xs)
           in case f (xs ! base) of
                Equal \<Rightarrow> Inr base
              | Less \<Rightarrow> Inl (base + 1)
              | Greater \<Rightarrow> Inl base)"

definition cmp_to :: "'a::linorder \<Rightarrow> 'a \<Rightarrow> ordering" where
  "cmp_to x y = (if y < x then Less else if y = x then Equal else Greater)"

definition binary_search :: "'a::linorder list \<Rightarrow> 'a \<Rightarrow> nat + nat" where
  "binary_search xs x = binary_search_by (cmp_to x) xs"

definition partition_point :: "('a \<Rightarrow> bool) \<Rightarrow> 'a list \<Rightarrow> nat" where
  "partition_point p xs =
     (case binary_search_by (\<lambda>x. if p x then Less else Greater) xs of Inl i \<Rightarrow> i | Inr i \<Rightarrow> i)"

lemma cmp_to_iff [simp]:
  "cmp_to x y = Greater \<longleftrightarrow> x < y"
  "cmp_to x y = Equal \<longleftrightarrow> y = x"
  "cmp_to x y = Less \<longleftrightarrow> y < x"
  by (auto simp: cmp_to_def)

text \<open>
  The loop invariant: everything from \<open>base + len\<close> on compares \<open>Greater\<close>, and \<open>base\<close> itself
  does not unless it is where the search began.
\<close>

definition bsearch_inv :: "(nat \<Rightarrow> ordering) \<Rightarrow> nat \<Rightarrow> nat \<Rightarrow> nat \<Rightarrow> bool" where
  "bsearch_inv cmp n base len \<longleftrightarrow>
     0 < len \<and> base + len \<le> n \<and> (base = 0 \<or> cmp base \<noteq> Greater) \<and>
     (\<forall>i. base + len \<le> i \<longrightarrow> i < n \<longrightarrow> cmp i = Greater)"

lemma bsearch_inv_step:
  assumes mono: "\<And>i j. i \<le> j \<Longrightarrow> j < n \<Longrightarrow> cmp i = Greater \<Longrightarrow> cmp j = Greater"
    and inv: "bsearch_inv cmp n base len" and "1 < len"
  shows "bsearch_inv cmp n (if cmp (base + len div 2) = Greater then base else base + len div 2)
           (len - len div 2)"
proof -
  let ?h = "len div 2"
  from \<open>1 < len\<close> have h: "?h < len" "0 < ?h" "?h \<le> len - ?h" by auto
  show ?thesis
  proof (cases "cmp (base + ?h) = Greater")
    case True
    have "cmp i = Greater" if "base + (len - ?h) \<le> i" "i < n" for i
      using that h(3) by (intro mono [OF _ _ True]) auto
    with True inv h show ?thesis by (auto simp: bsearch_inv_def)
  next
    case False
    with inv h show ?thesis by (auto simp: bsearch_inv_def)
  qed
qed

lemma bsearch_loop_inv:
  assumes mono: "\<And>i j. i \<le> j \<Longrightarrow> j < n \<Longrightarrow> cmp i = Greater \<Longrightarrow> cmp j = Greater"
    and "bsearch_inv cmp n base len"
  shows "bsearch_inv cmp n (bsearch_loop cmp base len) 1"
  using assms
proof (induction cmp base len rule: bsearch_loop.induct)
  case (1 cmp base len)
  show ?case
  proof (cases "1 < len")
    case True
    from bsearch_inv_step [OF "1.prems" True] "1.IH" [OF True refl refl "1.prems"(1)] True
    show ?thesis by (simp add: bsearch_loop.simps [of cmp base len] Let_def)
  next
    case False
    with "1.prems"(2) have "len = 1" by (auto simp: bsearch_inv_def)
    with "1.prems"(2) show ?thesis by (simp add: bsearch_loop.simps)
  qed
qed

lemma binary_search_by_loop:
  assumes "xs \<noteq> []"
    and "\<And>i j. i \<le> j \<Longrightarrow> j < length xs \<Longrightarrow> f (xs ! i) = Greater \<Longrightarrow> f (xs ! j) = Greater"
  shows "bsearch_inv (\<lambda>i. f (xs ! i)) (length xs) (bsearch_loop (\<lambda>i. f (xs ! i)) 0 (length xs)) 1"
  using assms by (intro bsearch_loop_inv) (auto simp: bsearch_inv_def)

lemma partition_point_eqI:
  assumes "k \<le> length xs"
    and "\<And>i. i < k \<Longrightarrow> p (xs ! i)" and "\<And>i. k \<le> i \<Longrightarrow> i < length xs \<Longrightarrow> \<not> p (xs ! i)"
  shows "partition_point p xs = k"
proof (cases "xs = []")
  case True
  with assms show ?thesis by (simp add: partition_point_def binary_search_by_def)
next
  case False
  let ?f = "\<lambda>x. if p x then Less else Greater"
  let ?b = "bsearch_loop (\<lambda>i. ?f (xs ! i)) 0 (length xs)"
  have mono: "\<not> p (xs ! j)" if "i \<le> j" "j < length xs" "\<not> p (xs ! i)" for i j
  proof (rule assms(3))
    show "k \<le> j" using assms(2) [of i] that by (cases "i < k") auto
  qed (use that in auto)
  have "bsearch_inv (\<lambda>i. ?f (xs ! i)) (length xs) ?b 1"
    using False mono by (intro binary_search_by_loop) (auto split: if_splits)
  then have b: "?b < length xs" "?b = 0 \<or> p (xs ! ?b)" "\<And>i. ?b < i \<Longrightarrow> i < length xs \<Longrightarrow> \<not> p (xs ! i)"
    by (auto simp: bsearch_inv_def split: if_splits)
  have "?b < k \<longleftrightarrow> p (xs ! ?b)"
    using assms(2,3) b(1) by (auto simp: not_less [symmetric])
  moreover have "k \<le> ?b + 1"
  proof (rule ccontr)
    assume "\<not> k \<le> ?b + 1"
    then have "?b + 1 < k" by (simp only: not_le)
    with assms(1) b(3) [of "?b + 1"] assms(2) [of "?b + 1"] show False by linarith
  qed
  ultimately have "k = (if p (xs ! ?b) then ?b + 1 else ?b)" using b(2) by auto
  then show ?thesis using False by (auto simp: partition_point_def binary_search_by_def Let_def)
qed

lemma partition_point_takeWhile:
  assumes "\<And>i j. i \<le> j \<Longrightarrow> j < length xs \<Longrightarrow> p (xs ! j) \<Longrightarrow> p (xs ! i)"
  shows "partition_point p xs = length (takeWhile p xs)"
proof (rule partition_point_eqI)
  show "length (takeWhile p xs) \<le> length xs" by (rule length_takeWhile_le)
  show "p (xs ! i)" if "i < length (takeWhile p xs)" for i
    using that by (metis nth_mem set_takeWhileD takeWhile_nth)
  show "\<not> p (xs ! i)" if "length (takeWhile p xs) \<le> i" "i < length xs" for i
    using assms [OF that] nth_length_takeWhile [of p xs] that by auto
qed

lemma binary_search_found_iff:
  assumes "sorted xs"
  shows "is_ok (binary_search xs x) \<longleftrightarrow> x \<in> set xs"
proof (cases "xs = []")
  case True
  then show ?thesis by (simp add: binary_search_def binary_search_by_def)
next
  case False
  let ?b = "bsearch_loop (\<lambda>i. cmp_to x (xs ! i)) 0 (length xs)"
  have "bsearch_inv (\<lambda>i. cmp_to x (xs ! i)) (length xs) ?b 1"
    using False assms
    by (intro binary_search_by_loop)
       (auto dest: sorted_nth_mono [OF assms])
  then have b: "?b < length xs" "?b = 0 \<or> xs ! ?b \<le> x"
    and above: "\<And>i. ?b < i \<Longrightarrow> i < length xs \<Longrightarrow> x < xs ! i"
    by (auto simp: bsearch_inv_def not_less)
  have "x \<in> set xs \<longleftrightarrow> xs ! ?b = x"
  proof
    assume "x \<in> set xs"
    then obtain i where i: "i < length xs" "xs ! i = x" by (auto simp: in_set_conv_nth)
    with above [of i] have "i \<le> ?b" by (cases "?b < i") auto
    then have "x \<le> xs ! ?b" using sorted_nth_mono [OF assms _ b(1)] i by auto
    moreover have "xs ! ?b \<le> x" using b(2) i \<open>i \<le> ?b\<close> by auto
    ultimately show "xs ! ?b = x" by simp
  next
    assume "xs ! ?b = x"
    with nth_mem [OF b(1)] show "x \<in> set xs" by simp
  qed
  then show ?thesis using False
    by (auto simp: binary_search_def binary_search_by_def Let_def split: ordering.splits)
qed

subsection \<open>Chunks\<close>

text \<open>\<open>as_chunks\<close>: the whole chunks of the slice; the remainder is not used.\<close>

function as_chunks :: "nat \<Rightarrow> 'a list \<Rightarrow> 'a list list" where
  "as_chunks n xs = (if n = 0 \<or> length xs < n then [] else take n xs # as_chunks n (drop n xs))"
  by pat_completeness auto
termination
  by (relation "measure (length \<circ> snd)") auto

declare as_chunks.simps [simp del]

lemma as_chunks_nth:
  assumes "0 < n"
  shows "length (as_chunks n xs) = length xs div n"
    "i < length xs div n \<Longrightarrow> as_chunks n xs ! i = take n (drop (i * n) xs)"
  using assms
proof (induction n xs arbitrary: i rule: as_chunks.induct)
  case (1 n xs)
  {
    case 1
    then show ?case using "1.IH"(1) by (subst as_chunks.simps) (auto simp: le_div_geq not_less)
  next
    case 2
    then show ?case using "1.IH"(2) [of "i - 1"]
      by (subst as_chunks.simps) (cases i, auto simp: le_div_geq not_less add.commute)
  }
qed

lemma as_chunks_concat:
  assumes "0 < n" "list_all (\<lambda>x. length x = n) xs"
  shows "as_chunks n (concat xs) = xs"
  using assms(2)
proof (induction xs)
  case (Cons x xs)
  then show ?case using assms(1) by (subst as_chunks.simps) simp
qed (use assms(1) in \<open>simp add: as_chunks.simps\<close>)

subsection \<open>The question mark operator\<close>

definition and_then :: "'e + 'a \<Rightarrow> ('a \<Rightarrow> 'e + 'b) \<Rightarrow> 'e + 'b" where
  "and_then r f = (case r of Inl e \<Rightarrow> Inl e | Inr a \<Rightarrow> f a)"

lemma and_then_simps [simp]:
  "and_then (Inl e) f = Inl e"
  "and_then (Inr a) f = f a"
  by (simp_all add: and_then_def)

lemma and_then_Inr: "and_then r f = Inr b \<longleftrightarrow> (\<exists>a. r = Inr a \<and> f a = Inr b)"
  by (cases r) simp_all

end
