(* ===== verification/TNG_Text.thy ===== *)
theory TNG_Text
  imports TNG_Prelude
begin

text \<open>
  Text as the Rust standard library handles it: ASCII bytes, the decimal form \<open>to_string\<close> prints,
  \<open>str::parse\<close> on \<open>usize\<close> and \<open>i64\<close>, and the validity check of \<open>str::from_utf8\<close>.
\<close>

subsection \<open>ASCII\<close>

definition ascii :: "string \<Rightarrow> bytes" where
  "ascii s = map (\<lambda>c. of_nat (of_char c)) s"

definition is_ascii_digit :: "u8 \<Rightarrow> bool" where
  "is_ascii_digit b \<longleftrightarrow> 0x30 \<le> b \<and> b \<le> 0x39"

definition digit_val :: "u8 \<Rightarrow> nat" where
  "digit_val b = unat (b - 0x30)"

definition digit_chr :: "nat \<Rightarrow> u8" where
  "digit_chr d = 0x30 + of_nat d"

lemma digit_chr:
  assumes "d < 10"
  shows "is_ascii_digit (digit_chr d)" "digit_val (digit_chr d) = d"
proof -
  from assms have "d \<in> {0,1,2,3,4,5,6,7,8,9}" by auto
  then show "is_ascii_digit (digit_chr d)" "digit_val (digit_chr d) = d"
    by (auto simp: is_ascii_digit_def digit_chr_def digit_val_def)
qed

lemma digit_val:
  assumes "is_ascii_digit b"
  shows "digit_val b < 10" "digit_chr (digit_val b) = b"
proof -
  from assms have b: "unat (b - 0x30) = unat b - 48" "unat b \<le> 57"
    by (auto simp: is_ascii_digit_def unat_sub word_le_nat_alt)
  then show "digit_val b < 10" by (simp add: digit_val_def)
  show "digit_chr (digit_val b) = b" by (simp add: digit_val_def digit_chr_def)
qed

subsection \<open>Decimal numbers\<close>

fun dec_nat :: "nat \<Rightarrow> bytes" where
  "dec_nat n = (if n < 10 then [digit_chr n] else dec_nat (n div 10) @ [digit_chr (n mod 10)])"

declare dec_nat.simps [simp del]

definition dec_int :: "int \<Rightarrow> bytes" where
  "dec_int i = (if i < 0 then 0x2D # dec_nat (nat (- i)) else dec_nat (nat i))"

text \<open>A number in decimal inside a formatted message.\<close>

definition fmt_dec :: "nat \<Rightarrow> string" where
  "fmt_dec n = map (\<lambda>b. char_of (unat b)) (dec_nat n)"

datatype int_error = Empty | InvalidDigit | PosOverflow | NegOverflow

fun parse_digits :: "int_error \<Rightarrow> nat \<Rightarrow> nat \<Rightarrow> bytes \<Rightarrow> int_error + nat" where
  "parse_digits ovf mx acc [] = Inr acc"
| "parse_digits ovf mx acc (c # cs) =
     (if \<not> is_ascii_digit c then Inl InvalidDigit
      else if acc * 10 + digit_val c > mx then Inl ovf
      else parse_digits ovf mx (acc * 10 + digit_val c) cs)"

definition parse_usize :: "bytes \<Rightarrow> int_error + nat" where
  "parse_usize s =
     (case s of
        [] \<Rightarrow> Inl Empty
      | c # cs \<Rightarrow>
          if cs = [] \<and> (c = 0x2B \<or> c = 0x2D) then Inl InvalidDigit
          else if c = 0x2B then parse_digits PosOverflow (2 ^ 64 - 1) 0 cs
          else parse_digits PosOverflow (2 ^ 64 - 1) 0 s)"

definition parse_i64 :: "bytes \<Rightarrow> int_error + int" where
  "parse_i64 s =
     (case s of
        [] \<Rightarrow> Inl Empty
      | c # cs \<Rightarrow>
          if cs = [] \<and> (c = 0x2B \<or> c = 0x2D) then Inl InvalidDigit
          else if c = 0x2D then map_sum id (\<lambda>n. - int n) (parse_digits NegOverflow (2 ^ 63) 0 cs)
          else map_sum id int
                 (parse_digits PosOverflow (2 ^ 63 - 1) 0 (if c = 0x2B then cs else s)))"

text \<open>The value of a digit string, and the canonical strings: no leading zero.\<close>

definition digits_val :: "nat \<Rightarrow> bytes \<Rightarrow> nat" where
  "digits_val acc s = foldl (\<lambda>a c. a * 10 + digit_val c) acc s"

lemma digits_val_simps [simp]:
  "digits_val acc [] = acc"
  "digits_val acc (c # cs) = digits_val (acc * 10 + digit_val c) cs"
  "digits_val acc (xs @ ys) = digits_val (digits_val acc xs) ys"
  by (simp_all add: digits_val_def)

lemma digits_val_ge: "acc \<le> digits_val acc s"
proof (induction s arbitrary: acc)
  case (Cons c cs)
  have "acc \<le> acc * 10 + digit_val c" by simp
  also have "\<dots> \<le> digits_val (acc * 10 + digit_val c) cs" by (rule Cons.IH)
  finally show ?case by simp
qed simp

lemma parse_digits_Inr_iff:
  "parse_digits ovf mx acc s = Inr n \<longleftrightarrow>
     list_all is_ascii_digit s \<and> (s = [] \<or> digits_val acc s \<le> mx) \<and> n = digits_val acc s"
proof (induction s arbitrary: acc)
  case Nil
  then show ?case by auto
next
  case (Cons c cs)
  have "acc * 10 + digit_val c \<le> digits_val (acc * 10 + digit_val c) cs" by (rule digits_val_ge)
  then show ?case by (auto simp: Cons.IH)
qed

lemma parse_digits_InrD:
  assumes "parse_digits ovf mx acc s = Inr n" and "s \<noteq> []"
  shows "n = digits_val acc s" "n \<le> mx" "list_all is_ascii_digit s"
  using assms by (auto simp add: parse_digits_Inr_iff)

lemma dec_nat_digits: "list_all is_ascii_digit (dec_nat n)"
  by (induction n rule: dec_nat.induct) (subst dec_nat.simps, auto simp: digit_chr)

lemma dec_nat_nonempty [simp]: "dec_nat n \<noteq> []"
  by (subst dec_nat.simps) simp

lemma digits_val_dec_nat: "digits_val 0 (dec_nat n) = n"
proof (induction n rule: dec_nat.induct)
  case (1 n)
  then show ?case by (subst dec_nat.simps) (auto simp: digit_chr)
qed

definition canonical_dec :: "bytes \<Rightarrow> bool" where
  "canonical_dec s \<longleftrightarrow> s \<noteq> [] \<and> list_all is_ascii_digit s \<and> (1 < length s \<longrightarrow> hd s \<noteq> 0x30)"

lemma dec_nat_hd: "0 < n \<Longrightarrow> hd (dec_nat n) \<noteq> 0x30"
proof (induction n rule: dec_nat.induct)
  case (1 n)
  show ?case
  proof (cases "n < 10")
    case True
    then have "digit_val (digit_chr n) = n" by (rule digit_chr)
    with 1 True show ?thesis by (subst dec_nat.simps) (auto simp: digit_val_def)
  next
    case False
    with 1 show ?thesis by (subst dec_nat.simps) auto
  qed
qed

lemma canonical_dec_nat: "canonical_dec (dec_nat n)"
proof (cases "n = 0")
  case True
  then show ?thesis by (subst dec_nat.simps) (simp add: canonical_dec_def digit_chr_def is_ascii_digit_def)
next
  case False
  then show ?thesis by (simp add: canonical_dec_def dec_nat_digits dec_nat_hd)
qed

lemma dec_nat_digits_val: "canonical_dec s \<Longrightarrow> dec_nat (digits_val 0 s) = s"
proof (induction s rule: rev_induct)
  case Nil
  then show ?case by (simp add: canonical_dec_def)
next
  case (snoc c s)
  from snoc.prems have c: "is_ascii_digit c" by (simp add: canonical_dec_def)
  show ?case
  proof (cases "s = []")
    case True
    with c show ?thesis by (subst dec_nat.simps) (simp add: digit_val)
  next
    case False
    with snoc.prems have s: "canonical_dec s" and hd: "hd s \<noteq> 0x30"
      by (auto simp: canonical_dec_def)
    let ?v = "digits_val 0 s"
    from snoc.IH [OF s] have IH: "dec_nat ?v = s" .
    have "?v \<noteq> 0"
    proof
      assume "?v = 0"
      with IH have "s = [digit_chr 0]" by (subst (asm) dec_nat.simps) simp
      with hd show False by (simp add: digit_chr_def)
    qed
    with digit_val [OF c] IH show ?thesis
      by (subst dec_nat.simps) (auto simp: digit_val)
  qed
qed


lemma parse_usize_dec_nat: "n < 2 ^ 64 \<Longrightarrow> parse_usize (dec_nat n) = Inr n"
proof -
  assume n: "n < 2 ^ 64"
  obtain c cs where c: "dec_nat n = c # cs" by (cases "dec_nat n") auto
  with dec_nat_digits [of n] have "is_ascii_digit c" by simp
  then have "c \<noteq> 0x2B" "c \<noteq> 0x2D" by (auto simp: is_ascii_digit_def)
  moreover have "parse_digits PosOverflow (2 ^ 64 - 1) 0 (dec_nat n) = Inr n"
    using n by (auto simp: parse_digits_Inr_iff dec_nat_digits digits_val_dec_nat)
  ultimately show ?thesis using c by (simp add: parse_usize_def)
qed

lemma parse_usize_canonical:
  assumes "parse_usize s = Inr n" and "list_all is_ascii_digit s" and "1 < length s \<longrightarrow> hd s \<noteq> 0x30"
  shows "s = dec_nat n" "n < 2 ^ 64"
proof -
  from assms(1) obtain c cs where s: "s = c # cs" by (cases s) (auto simp: parse_usize_def)
  with assms(2) have "c \<noteq> 0x2B" "c \<noteq> 0x2D" by (auto simp: is_ascii_digit_def)
  with s assms(1) have "parse_digits PosOverflow (2 ^ 64 - 1) 0 s = Inr n"
    by (auto simp: parse_usize_def split: if_splits)
  moreover have "s \<noteq> []" using s by simp
  ultimately have n: "n = digits_val 0 s" "n \<le> 2 ^ 64 - 1" by (rule parse_digits_InrD)+
  have "canonical_dec s" using s assms(2,3) by (simp add: canonical_dec_def)
  with n(1) show "s = dec_nat n" by (simp only: dec_nat_digits_val)
  from n(2) show "n < 2 ^ 64" by simp
qed

definition i64_range :: "int \<Rightarrow> bool" where
  "i64_range i \<longleftrightarrow> - (2 ^ 63) \<le> i \<and> i < 2 ^ 63"

lemma parse_i64_dec_int:
  assumes "i64_range i"
  shows "parse_i64 (dec_int i) = Inr i"
proof (cases "i < 0")
  case True
  have "parse_digits NegOverflow (2 ^ 63) 0 (dec_nat (nat (- i))) = Inr (nat (- i))"
    using assms True by (auto simp: parse_digits_Inr_iff dec_nat_digits digits_val_dec_nat i64_range_def)
  with True show ?thesis by (auto simp: dec_int_def parse_i64_def)
next
  case False
  obtain c cs where c: "dec_nat (nat i) = c # cs" by (cases "dec_nat (nat i)") auto
  with dec_nat_digits [of "nat i"] have "is_ascii_digit c" by simp
  then have "c \<noteq> 0x2B" "c \<noteq> 0x2D" by (auto simp: is_ascii_digit_def)
  moreover have "parse_digits PosOverflow (2 ^ 63 - 1) 0 (dec_nat (nat i)) = Inr (nat i)"
    using assms False by (auto simp: parse_digits_Inr_iff dec_nat_digits digits_val_dec_nat i64_range_def)
  ultimately show ?thesis using c False by (simp add: dec_int_def parse_i64_def)
qed

text \<open>The integer tokens bencode accepts: no plus sign, no minus zero, no leading zero.\<close>

definition canonical_int_token :: "bytes \<Rightarrow> bool" where
  "canonical_int_token s \<longleftrightarrow>
     s \<noteq> [0x2D, 0x30] \<and> take 1 s \<noteq> [0x2B] \<and>
     \<not> (1 < length s \<and> take 1 s = [0x30]) \<and> \<not> (2 < length s \<and> take 2 s = [0x2D, 0x30])"

lemma parse_i64_canonical:
  assumes "parse_i64 s = Inr i" and "canonical_int_token s"
  shows "s = dec_int i" "i64_range i"
proof -
  from assms(1) obtain c cs where s: "s = c # cs" by (cases s) (auto simp: parse_i64_def)
  with assms(2) have c: "c \<noteq> 0x2B" by (simp add: canonical_int_token_def)
  have "s = dec_int i \<and> i64_range i"
  proof (cases "c = 0x2D")
    case True
    with s assms(1) obtain n where n: "parse_digits NegOverflow (2 ^ 63) 0 cs = Inr n" "i = - int n"
      and "cs \<noteq> []"
      by (auto simp: parse_i64_def map_sum_def split: if_splits sum.splits)
    note v = parse_digits_InrD [OF n(1) \<open>cs \<noteq> []\<close>]
    have "canonical_dec cs" using v(3) \<open>cs \<noteq> []\<close> assms(2) s True
      by (cases cs; cases "tl cs") (auto simp: canonical_dec_def canonical_int_token_def)
    then have cs: "cs = dec_nat n" using v(1) by (simp add: dec_nat_digits_val)
    have "n \<noteq> 0"
    proof
      assume "n = 0"
      with cs have "cs = [0x30]" by (simp add: dec_nat.simps [of 0] digit_chr_def)
      with assms(2) s True show False by (simp add: canonical_int_token_def)
    qed
    with n(2) cs s True v(2) show ?thesis by (simp add: dec_int_def i64_range_def)
  next
    case False
    with s c assms(1) obtain n where n: "parse_digits PosOverflow (2 ^ 63 - 1) 0 s = Inr n" "i = int n"
      by (auto simp: parse_i64_def map_sum_def split: if_splits sum.splits)
    have "s \<noteq> []" using s by simp
    note v = parse_digits_InrD [OF n(1) this]
    have "canonical_dec s" using v(3) s assms(2)
      by (auto simp: canonical_dec_def canonical_int_token_def)
    then have "s = dec_nat n" using v(1) by (simp add: dec_nat_digits_val)
    with n(2) v(2) show ?thesis by (simp add: dec_int_def i64_range_def)
  qed
  then show "s = dec_int i" "i64_range i" by simp_all
qed

lemma canonical_int_token_dec_int: "canonical_int_token (dec_int i)"
proof (cases "i < 0")
  case True
  then have "hd (dec_nat (nat (- i))) \<noteq> 0x30" by (intro dec_nat_hd) simp
  moreover obtain c cs where c: "dec_nat (nat (- i)) = c # cs" by (cases "dec_nat (nat (- i))") auto
  ultimately show ?thesis using True by (auto simp: dec_int_def canonical_int_token_def)
next
  case False
  obtain c cs where c: "dec_nat (nat i) = c # cs" by (cases "dec_nat (nat i)") auto
  with dec_nat_digits [of "nat i"] have "is_ascii_digit c" by simp
  then have "c \<noteq> 0x2B" "c \<noteq> 0x2D" by (auto simp: is_ascii_digit_def)
  with c canonical_dec_nat [of "nat i"] False show ?thesis
    by (auto simp: dec_int_def canonical_int_token_def canonical_dec_def)
qed

lemma dec_nat_length_bound: "n < 10 ^ k \<Longrightarrow> 0 < k \<Longrightarrow> length (dec_nat n) \<le> k"
proof (induction n arbitrary: k rule: dec_nat.induct)
  case (1 n)
  show ?case
  proof (cases "n < 10")
    case True
    with 1 show ?thesis by (subst dec_nat.simps) simp
  next
    case False
    with 1 obtain j where j: "k = Suc j" "0 < j" by (cases k; cases "k - 1") auto
    with 1 False have "n div 10 < 10 ^ j" by (simp add: less_mult_imp_div_less)
    with 1 False j have "length (dec_nat (n div 10)) \<le> j" by simp
    with False j show ?thesis by (subst dec_nat.simps) simp
  qed
qed

subsection \<open>UTF-8\<close>

definition utf8_cont :: "u8 \<Rightarrow> bool" where
  "utf8_cont b \<longleftrightarrow> 0x80 \<le> b \<and> b \<le> 0xBF"

fun utf8_valid :: "bytes \<Rightarrow> bool" where
  "utf8_valid [] = True"
| "utf8_valid (b # bs) =
     (if b < 0x80 then utf8_valid bs
      else if 0xC2 \<le> b \<and> b \<le> 0xDF then
        (case bs of c # cs \<Rightarrow> utf8_cont c \<and> utf8_valid cs | [] \<Rightarrow> False)
      else if 0xE0 \<le> b \<and> b \<le> 0xEF then
        (case bs of
           c # d # cs \<Rightarrow>
             (if b = 0xE0 then 0xA0 \<le> c \<and> c \<le> 0xBF
              else if b = 0xED then 0x80 \<le> c \<and> c \<le> 0x9F
              else utf8_cont c) \<and> utf8_cont d \<and> utf8_valid cs
         | _ \<Rightarrow> False)
      else if 0xF0 \<le> b \<and> b \<le> 0xF4 then
        (case bs of
           c # d # e # cs \<Rightarrow>
             (if b = 0xF0 then 0x90 \<le> c \<and> c \<le> 0xBF
              else if b = 0xF4 then 0x80 \<le> c \<and> c \<le> 0x8F
              else utf8_cont c) \<and> utf8_cont d \<and> utf8_cont e \<and> utf8_valid cs
         | _ \<Rightarrow> False)
      else False)"

lemma utf8_valid_ascii: "list_all (\<lambda>b. b < 0x80) bs \<Longrightarrow> utf8_valid bs"
  by (induction bs) auto

lemma digit_lt_80: "is_ascii_digit b \<Longrightarrow> b < 0x80"
  by (auto simp: is_ascii_digit_def word_le_nat_alt word_less_nat_alt)

lemma utf8_valid_digits: "list_all is_ascii_digit bs \<Longrightarrow> utf8_valid bs"
  by (rule utf8_valid_ascii) (auto simp: list_all_iff digit_lt_80)

lemma utf8_valid_dec_int: "utf8_valid (dec_int i)"
  using utf8_valid_digits [OF dec_nat_digits] by (simp add: dec_int_def)

end
