(* ===== verification/Bencode.thy ===== *)
theory Bencode
  imports TNG_Text
begin

text \<open>
  The bencode codec of \<open>crates/rt-bencode\<close>: the borrowed value type, the recursive-descent decoder
  with its depth, string, node and allocation limits, and the encoder. The state of the decoder is
  the record \<open>decoder\<close>, threaded through every operation; a \<open>Result\<close> is a sum. The closure that
  admits memory and the allocator behind \<open>Vec::try_reserve_exact\<close> are not in the repository: they
  are the record \<open>alloc_env\<close>, an argument of the definitions that call them.
\<close>

subsection \<open>Errors, values, decoder state\<close>

datatype bencode_error =
    UnexpectedEof
  | InvalidInteger string
  | InvalidStringLength string
  | StringTooLong nat nat
  | DepthExceeded nat
  | NodeLimitExceeded nat nat
  | AllocationBudgetExceeded nat
  | AllocationFailed
  | UnsortedDictKeys
  | UnexpectedByte u8 nat
  | TrailingData

datatype bvalue =
    BBytes bytes
  | BInt int
  | BList "bvalue list"
  | BDict "(bytes \<times> bvalue) list"

definition as_bytes :: "bvalue \<Rightarrow> bytes option" where
  "as_bytes v = (case v of BBytes b \<Rightarrow> Some b | _ \<Rightarrow> None)"

definition as_int :: "bvalue \<Rightarrow> int option" where
  "as_int v = (case v of BInt i \<Rightarrow> Some i | _ \<Rightarrow> None)"

definition as_str :: "bvalue \<Rightarrow> bytes option" where
  "as_str v = Option.bind (as_bytes v) (\<lambda>b. if utf8_valid b then Some b else None)"

definition bget :: "bvalue \<Rightarrow> bytes \<Rightarrow> bvalue option" where
  "bget v key =
     (case v of
        BDict pairs \<Rightarrow> map_option snd (find (\<lambda>(k, _). k = key) pairs)
      | _ \<Rightarrow> None)"

record decoder =
  input :: bytes
  pos :: nat
  max_depth :: nat
  max_string :: nat
  max_nodes :: nat
  nodes :: nat
  strict_dict_keys :: bool

record 'r alloc_env =
  reserve_fn :: "nat \<Rightarrow> 'r \<Rightarrow> bool \<times> 'r"
  try_reserve_exact :: "nat \<Rightarrow> nat \<Rightarrow> nat option"
  size_value :: nat
  size_pair :: nat

definition usize_max :: nat where
  "usize_max = 2 ^ 64 - 1"

definition DEFAULT_MAX_DEPTH :: nat where
  "DEFAULT_MAX_DEPTH = 64"

definition DEFAULT_MAX_STRING :: nat where
  "DEFAULT_MAX_STRING = 16 * 1024 * 1024"

definition DEFAULT_MAX_NODES :: nat where
  "DEFAULT_MAX_NODES = 1000000"

definition MAX_INTEGER_TOKEN_BYTES :: nat where
  "MAX_INTEGER_TOKEN_BYTES = 20"

definition MAX_LENGTH_PREFIX_DIGITS :: nat where
  "MAX_LENGTH_PREFIX_DIGITS = 64"

definition decoder_new :: "bytes \<Rightarrow> decoder" where
  "decoder_new inp =
     \<lparr>input = inp, pos = 0, max_depth = DEFAULT_MAX_DEPTH, max_string = DEFAULT_MAX_STRING,
      max_nodes = DEFAULT_MAX_NODES, nodes = 0, strict_dict_keys = True\<rparr>"

definition with_max_depth :: "nat \<Rightarrow> decoder \<Rightarrow> decoder" where
  "with_max_depth n d = d\<lparr>max_depth := n\<rparr>"

definition with_max_string :: "nat \<Rightarrow> decoder \<Rightarrow> decoder" where
  "with_max_string n d = d\<lparr>max_string := n\<rparr>"

definition with_max_nodes :: "nat \<Rightarrow> decoder \<Rightarrow> decoder" where
  "with_max_nodes n d = d\<lparr>max_nodes := n\<rparr>"

definition with_strict_dict_keys :: "bool \<Rightarrow> decoder \<Rightarrow> decoder" where
  "with_strict_dict_keys b d = d\<lparr>strict_dict_keys := b\<rparr>"

subsection \<open>Reading bytes\<close>

definition peek :: "decoder \<Rightarrow> bencode_error + u8" where
  "peek d = (if pos d < length (input d) then Inr (input d ! pos d) else Inl UnexpectedEof)"

definition consume :: "decoder \<Rightarrow> bencode_error + (u8 \<times> decoder)" where
  "consume d =
     (case peek d of Inl e \<Rightarrow> Inl e | Inr b \<Rightarrow> Inr (b, d\<lparr>pos := pos d + 1\<rparr>))"

definition expect :: "u8 \<Rightarrow> decoder \<Rightarrow> bencode_error + decoder" where
  "expect expected d =
     (case consume d of
        Inl e \<Rightarrow> Inl e
      | Inr (b, d') \<Rightarrow> if b \<noteq> expected then Inl (UnexpectedByte b (pos d' - 1)) else Inr d')"

lemma expect_Inr_iff:
  "expect b d = Inr d' \<longleftrightarrow>
     pos d < length (input d) \<and> input d ! pos d = b \<and> d' = d\<lparr>pos := pos d + 1\<rparr>"
  by (auto simp: expect_def consume_def peek_def)

subsection \<open>Integers\<close>

function scan_int_token :: "nat \<Rightarrow> decoder \<Rightarrow> bencode_error + decoder" where
  "scan_int_token start d =
     (case peek d of
        Inl e \<Rightarrow> Inl e
      | Inr b \<Rightarrow>
          if b = 0x65 then Inr d
          else if pos d - start \<ge> MAX_INTEGER_TOKEN_BYTES
            then Inl (InvalidInteger ''integer token exceeds i64 width'')
          else let d' = d\<lparr>pos := pos d + 1\<rparr> in
            if pos d' \<ge> length (input d') then Inl UnexpectedEof
            else scan_int_token start d')"
  by pat_completeness auto
termination
  by (relation "measure (\<lambda>(start, d). length (input d) - pos d)") (auto simp: peek_def split: if_splits)

declare scan_int_token.simps [simp del]

definition decode_int :: "decoder \<Rightarrow> bencode_error + (bvalue \<times> decoder)" where
  "decode_int d0 =
     (case expect 0x69 d0 of Inl e \<Rightarrow> Inl e | Inr d1 \<Rightarrow>
      (case scan_int_token (pos d1) d1 of Inl e \<Rightarrow> Inl e | Inr d2 \<Rightarrow>
       let s = subslice (input d2) (pos d1) (pos d2) in
       (case expect 0x65 d2 of Inl e \<Rightarrow> Inl e | Inr d3 \<Rightarrow>
        if \<not> utf8_valid s then Inl (InvalidInteger ''non-ASCII integer token'')
        else if s = [0x2D, 0x30] then Inl (InvalidInteger ''-0'')
        else if take 1 s = [0x2B] then Inl (InvalidInteger ''leading plus'')
        else if length s > 1 \<and> take 1 s = [0x30] then Inl (InvalidInteger ''leading zero'')
        else if length s > 2 \<and> take 2 s = [0x2D, 0x30] then Inl (InvalidInteger ''leading zero'')
        else case parse_i64 s of
               Inl _ \<Rightarrow> Inl (InvalidInteger ''integer outside i64 range'')
             | Inr n \<Rightarrow> Inr (BInt n, d3))))"

subsection \<open>Byte strings\<close>

definition hex_digit :: "nat \<Rightarrow> char" where
  "hex_digit n = char_of (if n < 10 then 48 + n else 87 + n)"

text \<open>The format \<open>{b:#04x}\<close>.\<close>

definition fmt_hex :: "u8 \<Rightarrow> string" where
  "fmt_hex b = [CHR ''0'', CHR ''x'', hex_digit (unat b div 16), hex_digit (unat b mod 16)]"

definition int_error_msg :: "int_error \<Rightarrow> string" where
  "int_error_msg e =
     (case e of
        Empty \<Rightarrow> ''cannot parse integer from empty string''
      | InvalidDigit \<Rightarrow> ''invalid digit found in string''
      | PosOverflow \<Rightarrow> ''number too large to fit in target type''
      | NegOverflow \<Rightarrow> ''number too small to fit in target type'')"

function scan_length :: "nat \<Rightarrow> decoder \<Rightarrow> bencode_error + decoder" where
  "scan_length start d =
     (case peek d of
        Inl e \<Rightarrow> Inl e
      | Inr b \<Rightarrow>
          if b = 0x3A then Inr d
          else if pos d - start \<ge> MAX_LENGTH_PREFIX_DIGITS
            then Inl (InvalidStringLength ''length prefix exceeds usize width'')
          else if \<not> is_ascii_digit b
            then Inl (InvalidStringLength (''non-digit '' @ fmt_hex b @ '' at '' @ fmt_dec (pos d)))
          else let d' = d\<lparr>pos := pos d + 1\<rparr> in
            if pos d' \<ge> length (input d') then Inl UnexpectedEof
            else scan_length start d')"
  by pat_completeness auto
termination
  by (relation "measure (\<lambda>(start, d). length (input d) - pos d)") (auto simp: peek_def split: if_splits)

declare scan_length.simps [simp del]

definition decode_length :: "decoder \<Rightarrow> bencode_error + (nat \<times> decoder)" where
  "decode_length d0 =
     (case scan_length (pos d0) d0 of Inl e \<Rightarrow> Inl e | Inr d1 \<Rightarrow>
      let s = subslice (input d1) (pos d0) (pos d1) in
      if \<not> utf8_valid s then Inl (InvalidStringLength ''utf8'')
      else if length s > 1 \<and> take 1 s = [0x30] then Inl (InvalidStringLength ''leading zero'')
      else case parse_usize s of
             Inl e \<Rightarrow> Inl (InvalidStringLength (int_error_msg e))
           | Inr n \<Rightarrow>
               (case expect 0x3A d1 of Inl e \<Rightarrow> Inl e | Inr d2 \<Rightarrow> Inr (n, d2)))"

definition decode_bytes :: "decoder \<Rightarrow> bencode_error + (bytes \<times> decoder)" where
  "decode_bytes d0 =
     (case decode_length d0 of Inl e \<Rightarrow> Inl e | Inr (len, d1) \<Rightarrow>
      if len > max_string d1 then Inl (StringTooLong len (max_string d1))
      else if pos d1 + len > usize_max then Inl UnexpectedEof
      else let fin = pos d1 + len in
        if fin > length (input d1) then Inl UnexpectedEof
        else Inr (subslice (input d1) (pos d1) fin, d1\<lparr>pos := fin\<rparr>))"

subsection \<open>Admission of vector growth\<close>

definition reserve_vec_growth ::
    "'r alloc_env \<Rightarrow> nat \<Rightarrow> nat \<Rightarrow> nat \<Rightarrow> 'r \<Rightarrow> bencode_error + (nat \<times> 'r)" where
  "reserve_vec_growth env size_of len capacity r =
     (if len < capacity then Inr (capacity, r)
      else if len + 1 > usize_max then Inl AllocationFailed
      else let new_capacity = max (min (capacity * 2) usize_max) (len + 1) in
      if new_capacity * size_of > usize_max then Inl AllocationFailed
      else let target_bytes = new_capacity * size_of;
               (admitted, r') = (if target_bytes > 0 then reserve_fn env target_bytes r else (True, r)) in
      if \<not> admitted then Inl (AllocationBudgetExceeded target_bytes)
      else if new_capacity < len then Inl AllocationFailed
      else case try_reserve_exact env len (new_capacity - len) of
             None \<Rightarrow> Inl AllocationFailed
           | Some capacity' \<Rightarrow>
               if capacity' < new_capacity then Inl AllocationFailed else Inr (capacity', r'))"

subsection \<open>The recursive decoder\<close>

text \<open>
  \<open>decode_list_loop\<close> and \<open>decode_dict_loop\<close> are the \<open>while\<close> loops of \<open>decode_list\<close> and
  \<open>decode_dict\<close>: they carry the vector built so far and its capacity.
\<close>

function decode_value ::
    "'r alloc_env \<Rightarrow> nat \<Rightarrow> decoder \<Rightarrow> 'r \<Rightarrow> bencode_error + (bvalue \<times> decoder \<times> 'r)"
  and decode_list ::
    "'r alloc_env \<Rightarrow> nat \<Rightarrow> decoder \<Rightarrow> 'r \<Rightarrow> bencode_error + (bvalue \<times> decoder \<times> 'r)"
  and decode_list_loop ::
    "'r alloc_env \<Rightarrow> nat \<Rightarrow> bvalue list \<Rightarrow> nat \<Rightarrow> decoder \<Rightarrow> 'r
       \<Rightarrow> bencode_error + (bvalue list \<times> decoder \<times> 'r)"
  and decode_dict ::
    "'r alloc_env \<Rightarrow> nat \<Rightarrow> decoder \<Rightarrow> 'r \<Rightarrow> bencode_error + (bvalue \<times> decoder \<times> 'r)"
  and decode_dict_loop ::
    "'r alloc_env \<Rightarrow> nat \<Rightarrow> bytes option \<Rightarrow> (bytes \<times> bvalue) list \<Rightarrow> nat \<Rightarrow> decoder \<Rightarrow> 'r
       \<Rightarrow> bencode_error + ((bytes \<times> bvalue) list \<times> decoder \<times> 'r)"
where
  "decode_value env depth d r =
     (if depth > max_depth d then Inl (DepthExceeded (max_depth d))
      else if nodes d + 1 > usize_max then Inl (NodeLimitExceeded usize_max (max_nodes d))
      else let d1 = d\<lparr>nodes := nodes d + 1\<rparr> in
      if nodes d1 > max_nodes d1 then Inl (NodeLimitExceeded (nodes d1) (max_nodes d1))
      else case peek d1 of Inl e \<Rightarrow> Inl e | Inr b \<Rightarrow>
        if b = 0x69 then
          (case decode_int d1 of Inl e \<Rightarrow> Inl e | Inr (v, d2) \<Rightarrow> Inr (v, d2, r))
        else if b = 0x6C then decode_list env depth d1 r
        else if b = 0x64 then decode_dict env depth d1 r
        else if 0x30 \<le> b \<and> b \<le> 0x39 then
          (case decode_bytes d1 of Inl e \<Rightarrow> Inl e | Inr (s, d2) \<Rightarrow> Inr (BBytes s, d2, r))
        else Inl (UnexpectedByte b (pos d1)))"
| "decode_list env depth d r =
     (case expect 0x6C d of Inl e \<Rightarrow> Inl e | Inr d1 \<Rightarrow>
      (case decode_list_loop env depth [] 0 d1 r of Inl e \<Rightarrow> Inl e | Inr (items, d2, r2) \<Rightarrow>
       (case expect 0x65 d2 of Inl e \<Rightarrow> Inl e | Inr d3 \<Rightarrow> Inr (BList items, d3, r2))))"
| "decode_list_loop env depth items capacity d r =
     (case peek d of Inl e \<Rightarrow> Inl e | Inr b \<Rightarrow>
      if b = 0x65 then Inr (items, d, r)
      else (case reserve_vec_growth env (size_value env) (length items) capacity r of
              Inl e \<Rightarrow> Inl e
            | Inr (capacity1, r1) \<Rightarrow>
       (case decode_value env (depth + 1) d r1 of Inl e \<Rightarrow> Inl e | Inr (item, d2, r2) \<Rightarrow>
        decode_list_loop env depth (items @ [item]) capacity1 d2 r2)))"
| "decode_dict env depth d r =
     (case expect 0x64 d of Inl e \<Rightarrow> Inl e | Inr d1 \<Rightarrow>
      (case decode_dict_loop env depth None [] 0 d1 r of Inl e \<Rightarrow> Inl e | Inr (pairs, d2, r2) \<Rightarrow>
       (case expect 0x65 d2 of Inl e \<Rightarrow> Inl e | Inr d3 \<Rightarrow> Inr (BDict pairs, d3, r2))))"
| "decode_dict_loop env depth last_key pairs capacity d r =
     (case peek d of Inl e \<Rightarrow> Inl e | Inr b \<Rightarrow>
      if b = 0x65 then Inr (pairs, d, r)
      else (case decode_bytes d of Inl e \<Rightarrow> Inl e | Inr (key, d1) \<Rightarrow>
       if strict_dict_keys d1 \<and> (case last_key of None \<Rightarrow> False | Some prev \<Rightarrow> key \<le> prev)
       then Inl UnsortedDictKeys
       else (case reserve_vec_growth env (size_pair env) (length pairs) capacity r of
               Inl e \<Rightarrow> Inl e
             | Inr (capacity1, r1) \<Rightarrow>
        (case decode_value env (depth + 1) d1 r1 of Inl e \<Rightarrow> Inl e | Inr (val, d2, r2) \<Rightarrow>
         decode_dict_loop env depth (Some key) (pairs @ [(key, val)]) capacity1 d2 r2))))"
  by pat_completeness auto


subsection \<open>The encoder\<close>

lemma size_in_dict: "(k, v) \<in> set ps \<Longrightarrow> size v < Suc (size_list (size_prod (\<lambda>x. 0) size) ps)"
  by (induction ps) auto

lemma size_in_list: "v \<in> set vs \<Longrightarrow> size v < Suc (size_list size vs)"
  by (induction vs) auto

function encode_into :: "bvalue \<Rightarrow> bytes \<Rightarrow> bytes" where
  "encode_into (BInt n) buf = buf @ [0x69] @ dec_int n @ [0x65]"
| "encode_into (BBytes b) buf = buf @ dec_nat (length b) @ [0x3A] @ b"
| "encode_into (BList items) buf =
     fold (\<lambda>item buf. encode_into item buf) items (buf @ [0x6C]) @ [0x65]"
| "encode_into (BDict pairs) buf =
     fold (\<lambda>(k, v) buf. encode_into v (buf @ dec_nat (length k) @ [0x3A] @ k)) pairs (buf @ [0x64])
       @ [0x65]"
  by pat_completeness auto
termination
  by (relation "measure (\<lambda>(v, buf). size v)") (auto simp: size_in_dict size_in_list)

definition encode :: "bvalue \<Rightarrow> bytes" where
  "encode v = encode_into v []"

subsection \<open>Progress and termination\<close>

text \<open>
  Every reader only moves \<open>pos\<close> (and \<open>decode_value\<close> the node counter) and never past the input.
\<close>

definition advances :: "decoder \<Rightarrow> decoder \<Rightarrow> bool" where
  "advances d d' \<longleftrightarrow> d' = d\<lparr>pos := pos d', nodes := nodes d'\<rparr> \<and> pos d \<le> pos d' \<and> nodes d \<le> nodes d'"

lemma advances_refl [simp]: "advances d d"
  by (simp add: advances_def)

lemma advances_trans: "advances a b \<Longrightarrow> advances b c \<Longrightarrow> advances a c"
  by (cases a; cases b; cases c) (auto simp: advances_def)

lemma advances_same:
  "advances d d' \<Longrightarrow> input d' = input d"
  "advances d d' \<Longrightarrow> max_depth d' = max_depth d"
  "advances d d' \<Longrightarrow> max_string d' = max_string d"
  "advances d d' \<Longrightarrow> max_nodes d' = max_nodes d"
  "advances d d' \<Longrightarrow> strict_dict_keys d' = strict_dict_keys d"
  by (cases d; cases d'; simp add: advances_def)+

lemma advances_pos: "advances d d' \<Longrightarrow> pos d \<le> pos d'"
  by (simp add: advances_def)

lemma advances_upd [simp]:
  "advances d (d\<lparr>pos := p\<rparr>) \<longleftrightarrow> pos d \<le> p"
  "advances d (d\<lparr>nodes := n\<rparr>) \<longleftrightarrow> nodes d \<le> n"
  by (auto simp: advances_def)

lemma advances_nodesD: "advances (d\<lparr>nodes := Suc (nodes d)\<rparr>) d' \<Longrightarrow> advances d d'"
  by (cases d; cases d') (auto simp: advances_def)

lemma scan_int_token_Inr:
  "scan_int_token st d = Inr d' \<Longrightarrow>
     \<exists>tok rest. d' = d\<lparr>pos := pos d + length tok\<rparr> \<and> drop (pos d) (input d) = tok @ 0x65 # rest"
proof (induction st d rule: scan_int_token.induct)
  case (1 st d)
  show ?case
  proof (cases "input d ! pos d = 0x65")
    case True
    with 1(2) have "pos d < length (input d)" "d' = d"
      by (auto simp: scan_int_token.simps [of st d] peek_def split: if_splits)
    with True have "d' = d\<lparr>pos := pos d + length []\<rparr>"
      "drop (pos d) (input d) = [] @ 0x65 # drop (Suc (pos d)) (input d)"
      by (simp_all add: Cons_nth_drop_Suc [symmetric])
    then show ?thesis by blast
  next
    case False
    with 1(2) have *: "pos d < length (input d)" "scan_int_token st (d\<lparr>pos := pos d + 1\<rparr>) = Inr d'"
      and "peek d = Inr (input d ! pos d)" "\<not> MAX_INTEGER_TOKEN_BYTES \<le> pos d - st"
      "\<not> length (input d) \<le> pos d + 1"
      by (auto simp: scan_int_token.simps [of st d] peek_def Let_def split: if_splits)
    with False 1(1) [OF _ False] obtain tok rest where
      "d' = d\<lparr>pos := pos d + 1 + length tok\<rparr>" "drop (pos d + 1) (input d) = tok @ 0x65 # rest"
      by (auto simp: Let_def)
    with * have "d' = d\<lparr>pos := pos d + length (input d ! pos d # tok)\<rparr>"
      "drop (pos d) (input d) = (input d ! pos d # tok) @ 0x65 # rest"
      by (simp_all add: Cons_nth_drop_Suc [symmetric])
    then show ?thesis by blast
  qed
qed

lemma scan_length_Inr:
  "scan_length st d = Inr d' \<Longrightarrow>
     \<exists>tok rest. d' = d\<lparr>pos := pos d + length tok\<rparr> \<and> drop (pos d) (input d) = tok @ 0x3A # rest
       \<and> list_all is_ascii_digit tok"
proof (induction st d rule: scan_length.induct)
  case (1 st d)
  show ?case
  proof (cases "input d ! pos d = 0x3A")
    case True
    with 1(2) have "pos d < length (input d)" "d' = d"
      by (auto simp: scan_length.simps [of st d] peek_def split: if_splits)
    with True have "d' = d\<lparr>pos := pos d + length []\<rparr>"
      "drop (pos d) (input d) = [] @ 0x3A # drop (Suc (pos d)) (input d)"
      by (simp_all add: Cons_nth_drop_Suc [symmetric])
    moreover have "list_all is_ascii_digit []" by simp
    ultimately show ?thesis by blast
  next
    case False
    with 1(2) have *: "pos d < length (input d)" "scan_length st (d\<lparr>pos := pos d + 1\<rparr>) = Inr d'"
      "is_ascii_digit (input d ! pos d)"
      and "peek d = Inr (input d ! pos d)" "\<not> MAX_LENGTH_PREFIX_DIGITS \<le> pos d - st"
      "\<not> length (input d) \<le> pos d + 1"
      by (auto simp: scan_length.simps [of st d] peek_def Let_def split: if_splits)
    with False 1(1) [OF _ False] obtain tok rest where
      "d' = d\<lparr>pos := pos d + 1 + length tok\<rparr>" "drop (pos d + 1) (input d) = tok @ 0x3A # rest"
      "list_all is_ascii_digit tok"
      by (auto simp: Let_def)
    with * have "d' = d\<lparr>pos := pos d + length (input d ! pos d # tok)\<rparr>"
      "drop (pos d) (input d) = (input d ! pos d # tok) @ 0x3A # rest"
      "list_all is_ascii_digit (input d ! pos d # tok)"
      by (simp_all add: Cons_nth_drop_Suc [symmetric])
    then show ?thesis by blast
  qed
qed


text \<open>\<open>reads d bs d'\<close>: the bytes \<open>bs\<close> stand at the position of \<open>d\<close>, and \<open>d'\<close> is behind them.\<close>

definition reads :: "decoder \<Rightarrow> bytes \<Rightarrow> decoder \<Rightarrow> bool" where
  "reads d bs d' \<longleftrightarrow>
     (\<exists>rest. drop (pos d) (input d) = bs @ rest) \<and> pos d' = pos d + length bs \<and> advances d d'"

lemma reads_trans: "reads a x b \<Longrightarrow> reads b y c \<Longrightarrow> reads a (x @ y) c"
proof -
  assume ab: "reads a x b" and bc: "reads b y c"
  from ab obtain r where r: "drop (pos a) (input a) = x @ r" "pos b = pos a + length x" "advances a b"
    by (auto simp: reads_def)
  from bc obtain s where s: "drop (pos b) (input b) = y @ s" "pos c = pos b + length y" "advances b c"
    by (auto simp: reads_def)
  have "drop (pos a + length x) (input a) = drop (length x) (drop (pos a) (input a))"
    by (simp add: add.commute)
  also have "\<dots> = r" by (simp add: r(1))
  finally have "r = y @ s" using r(2) s(1) by (simp add: advances_same(1) [OF r(3)])
  with r s show "reads a (x @ y) c" by (auto simp: reads_def intro: advances_trans)
qed

lemma reads_Nil [simp]: "reads d [] d"
  by (simp add: reads_def)

lemma reads_nodes: "reads (d\<lparr>nodes := Suc (nodes d)\<rparr>) bs d' \<Longrightarrow> reads d bs d'"
  by (auto simp: reads_def dest: advances_nodesD)

lemma reads_advances: "reads d bs d' \<Longrightarrow> advances d d'"
  by (simp add: reads_def)

lemma reads_pos_le: "reads d bs d' \<Longrightarrow> pos d \<le> length (input d) \<Longrightarrow> pos d' \<le> length (input d')"
proof -
  assume "reads d bs d'" and "pos d \<le> length (input d)"
  then obtain r where "drop (pos d) (input d) = bs @ r" "pos d' = pos d + length bs" "input d' = input d"
    by (auto simp: reads_def dest: advances_same(1))
  moreover from this have "length (input d) - pos d = length bs + length r"
    by (metis length_append length_drop)
  ultimately show ?thesis using \<open>pos d \<le> length (input d)\<close> by simp
qed

lemma reads_subslice: "reads d bs d' \<Longrightarrow> subslice (input d) (pos d) (pos d') = bs"
  by (auto simp: reads_def subslice_def)

lemma expect_reads: "expect b d = Inr d' \<Longrightarrow> reads d [b] d' \<and> nodes d' = nodes d"
  by (auto simp: expect_Inr_iff reads_def Cons_nth_drop_Suc [symmetric])

lemma scan_int_token_reads:
  "scan_int_token st d = Inr d' \<Longrightarrow> reads d (subslice (input d') (pos d) (pos d')) d' \<and> nodes d' = nodes d"
proof -
  assume "scan_int_token st d = Inr d'"
  then obtain tok rest where d: "d' = d\<lparr>pos := pos d + length tok\<rparr>" "drop (pos d) (input d) = tok @ 0x65 # rest"
    using scan_int_token_Inr by blast
  then have "subslice (input d') (pos d) (pos d') = tok" by (simp add: subslice_def)
  with d show ?thesis by (simp add: reads_def)
qed

lemma scan_length_reads:
  "scan_length st d = Inr d' \<Longrightarrow> reads d (subslice (input d') (pos d) (pos d')) d' \<and> nodes d' = nodes d
     \<and> list_all is_ascii_digit (subslice (input d') (pos d) (pos d'))"
proof -
  assume "scan_length st d = Inr d'"
  then obtain tok rest where d: "d' = d\<lparr>pos := pos d + length tok\<rparr>" "drop (pos d) (input d) = tok @ 0x3A # rest"
    "list_all is_ascii_digit tok"
    using scan_length_Inr by blast
  then have "subslice (input d') (pos d) (pos d') = tok" by (simp add: subslice_def)
  with d show ?thesis by (simp add: reads_def)
qed

definition bytes_enc :: "bytes \<Rightarrow> bytes" where
  "bytes_enc s = dec_nat (length s) @ 0x3A # s"

definition int_enc :: "int \<Rightarrow> bytes" where
  "int_enc n = 0x69 # dec_int n @ [0x65]"

lemma decode_int_Inr:
  assumes "decode_int d = Inr (v, d')"
  obtains n where "v = BInt n" "i64_range n" "reads d (int_enc n) d'" "nodes d' = nodes d"
proof -
  from assms obtain d1 d2 where d: "expect 0x69 d = Inr d1" "scan_int_token (pos d1) d1 = Inr d2"
      "expect 0x65 d2 = Inr d'"
    by (auto simp: decode_int_def Let_def split: sum.splits if_splits)
  let ?s = "subslice (input d2) (pos d1) (pos d2)"
  from assms d obtain n where n: "parse_i64 ?s = Inr n" "v = BInt n" and tok: "canonical_int_token ?s"
    by (auto simp: decode_int_def Let_def canonical_int_token_def split: sum.splits if_splits)
  have s: "?s = dec_int n" and "i64_range n" using parse_i64_canonical [OF n(1) tok] by simp_all
  note r = expect_reads [OF d(1)] scan_int_token_reads [OF d(2)] expect_reads [OF d(3)]
  then have "reads d ([0x69] @ ?s @ [0x65]) d'"
    by (intro reads_trans [of d _ d1] reads_trans [of d1 _ d2]) simp_all
  then have "reads d ([0x69] @ dec_int n @ [0x65]) d'" by (simp only: s)
  moreover have "nodes d' = nodes d" using r by simp
  ultimately show ?thesis using that n(2) \<open>i64_range n\<close> by (simp add: int_enc_def)
qed

lemma decode_length_Inr:
  assumes "decode_length d = Inr (n, d')"
  shows "reads d (dec_nat n @ [0x3A]) d'" "nodes d' = nodes d"
proof -
  from assms obtain d1 where d: "scan_length (pos d) d = Inr d1" "expect 0x3A d1 = Inr d'"
    by (auto simp: decode_length_def Let_def split: sum.splits if_splits)
  let ?s = "subslice (input d1) (pos d) (pos d1)"
  note r = scan_length_reads [OF d(1)] expect_reads [OF d(2)]
  from assms d have "parse_usize ?s = Inr n" "1 < length ?s \<longrightarrow> take 1 ?s \<noteq> [0x30]"
    by (auto simp: decode_length_def Let_def split: sum.splits if_splits)
  moreover have "1 < length ?s \<longrightarrow> hd ?s \<noteq> 0x30"
    using calculation(2) by (cases ?s) auto
  ultimately have s: "?s = dec_nat n" using r(1) by (intro parse_usize_canonical(1)) simp_all
  have "reads d (?s @ [0x3A]) d'" using r by (intro reads_trans [of d _ d1]) simp_all
  then show "reads d (dec_nat n @ [0x3A]) d'" by (simp only: s)
  from r show "nodes d' = nodes d" by simp
qed

lemma decode_bytes_Inr:
  assumes "decode_bytes d = Inr (s, d')"
  shows "reads d (bytes_enc s) d'" "nodes d' = nodes d" "length s \<le> max_string d"
proof -
  from assms obtain n d1 where d: "decode_length d = Inr (n, d1)" "n \<le> max_string d1"
      "pos d1 + n \<le> length (input d1)" "s = subslice (input d1) (pos d1) (pos d1 + n)"
      "d' = d1\<lparr>pos := pos d1 + n\<rparr>"
    by (auto simp: decode_bytes_def Let_def not_less split: sum.splits if_splits)
  have n: "n = length s" using d by simp
  have "reads d1 s d'"
  proof -
    have "s = take n (drop (pos d1) (input d1))" using d(4) by (simp add: subslice_def)
    then have "drop (pos d1) (input d1) = s @ drop n (drop (pos d1) (input d1))"
      by (simp only: append_take_drop_id)
    then have "\<exists>rest. drop (pos d1) (input d1) = s @ rest" ..
    then show ?thesis using d(5) n by (simp add: reads_def)
  qed
  then have "reads d ((dec_nat n @ [0x3A]) @ s) d'"
    using decode_length_Inr(1) [OF d(1)] by (rule reads_trans [rotated])
  then show "reads d (bytes_enc s) d'" by (simp add: bytes_enc_def n)
  show "nodes d' = nodes d" using d(5) decode_length_Inr(2) [OF d(1)] by simp
  show "length s \<le> max_string d"
    using d(2) n advances_same(3) [OF reads_advances [OF decode_length_Inr(1) [OF d(1)]]] by simp
qed


subsection \<open>What the decoder accepts\<close>

text \<open>
  The specification: the byte form of a value, the number of its nodes, and the values the limits
  of a decoder admit.
\<close>

function benc :: "bvalue \<Rightarrow> bytes" where
  "benc (BBytes s) = bytes_enc s"
| "benc (BInt n) = int_enc n"
| "benc (BList vs) = 0x6C # concat (map benc vs) @ [0x65]"
| "benc (BDict ps) = 0x64 # concat (map (\<lambda>(k, v). bytes_enc k @ benc v) ps) @ [0x65]"
  by pat_completeness auto
termination
  by (relation "measure size") (auto simp: size_in_dict size_in_list)

function node_count :: "bvalue \<Rightarrow> nat" where
  "node_count (BBytes s) = 1"
| "node_count (BInt n) = 1"
| "node_count (BList vs) = 1 + sum_list (map node_count vs)"
| "node_count (BDict ps) = 1 + sum_list (map (\<lambda>(k, v). node_count v) ps)"
  by pat_completeness auto
termination
  by (relation "measure size") (auto simp: size_in_dict size_in_list)

function fits :: "nat \<Rightarrow> nat \<Rightarrow> bool \<Rightarrow> nat \<Rightarrow> bvalue \<Rightarrow> bool" where
  "fits md ms strict depth (BBytes s) \<longleftrightarrow> depth \<le> md \<and> length s \<le> ms"
| "fits md ms strict depth (BInt n) \<longleftrightarrow> depth \<le> md \<and> i64_range n"
| "fits md ms strict depth (BList vs) \<longleftrightarrow> depth \<le> md \<and> list_all (fits md ms strict (depth + 1)) vs"
| "fits md ms strict depth (BDict ps) \<longleftrightarrow>
     depth \<le> md \<and> (strict \<longrightarrow> sorted_wrt (<) (map fst ps)) \<and>
     list_all (\<lambda>(k, v). length k \<le> ms \<and> fits md ms strict (depth + 1) v) ps"
  by pat_completeness auto
termination
  by (relation "measure (\<lambda>(md, ms, strict, depth, v). size v)") (auto simp: size_in_dict size_in_list)

abbreviation fits_in :: "decoder \<Rightarrow> nat \<Rightarrow> bvalue \<Rightarrow> bool" where
  "fits_in d \<equiv> fits (max_depth d) (max_string d) (strict_dict_keys d)"


text \<open>
  What a successful call has done, for a value, the items of a list and the entries of a
  dictionary (\<open>lk\<close> is the key before them).
\<close>

definition got_value :: "decoder \<Rightarrow> nat \<Rightarrow> bvalue \<Rightarrow> decoder \<Rightarrow> bool" where
  "got_value d depth v d' \<longleftrightarrow>
     reads d (benc v) d' \<and> nodes d' = nodes d + node_count v \<and> nodes d' \<le> max_nodes d \<and>
     fits_in d depth v"

definition got_items :: "decoder \<Rightarrow> nat \<Rightarrow> bvalue list \<Rightarrow> decoder \<Rightarrow> bool" where
  "got_items d depth vs d' \<longleftrightarrow>
     reads d (concat (map benc vs)) d' \<and> nodes d' = nodes d + sum_list (map node_count vs) \<and>
     (nodes d \<le> max_nodes d \<longrightarrow> nodes d' \<le> max_nodes d) \<and> list_all (fits_in d (depth + 1)) vs"

definition got_pairs ::
    "decoder \<Rightarrow> nat \<Rightarrow> bytes option \<Rightarrow> (bytes \<times> bvalue) list \<Rightarrow> decoder \<Rightarrow> bool" where
  "got_pairs d depth lk ps d' \<longleftrightarrow>
     reads d (concat (map (\<lambda>(k, v). bytes_enc k @ benc v) ps)) d' \<and>
     nodes d' = nodes d + sum_list (map (\<lambda>(k, v). node_count v) ps) \<and>
     (nodes d \<le> max_nodes d \<longrightarrow> nodes d' \<le> max_nodes d) \<and>
     (strict_dict_keys d \<longrightarrow> sorted_wrt (<) ((case lk of None \<Rightarrow> [] | Some k \<Rightarrow> [k]) @ map fst ps)) \<and>
     list_all (\<lambda>(k, v). length k \<le> max_string d \<and> fits_in d (depth + 1) v) ps"

lemma got_items_Nil: "got_items d depth [] d"
  by (simp add: got_items_def)

lemma got_items_Cons:
  assumes v: "got_value d (depth + 1) v d1" and vs: "got_items d1 depth vs d2"
  shows "got_items d depth (v # vs) d2"
proof -
  have a: "advances d d1" using v by (auto simp: got_value_def dest: reads_advances)
  have "reads d (benc v @ concat (map benc vs)) d2"
    using v vs by (auto simp: got_value_def got_items_def intro: reads_trans)
  then show ?thesis
    using v vs by (simp add: got_value_def got_items_def advances_same(2-5) [OF a])
qed

lemma got_pairs_Nil: "got_pairs d depth lk [] d"
  by (simp add: got_pairs_def split: option.split)

lemma got_pairs_Cons:
  assumes k: "decode_bytes d = Inr (k, d1)" and v: "got_value d1 (depth + 1) v d2"
    and ps: "got_pairs d2 depth (Some k) ps d3"
    and ord: "strict_dict_keys d \<longrightarrow> (case lk of None \<Rightarrow> True | Some prev \<Rightarrow> prev < k)"
  shows "got_pairs d depth lk ((k, v) # ps) d3"
proof -
  note kr = decode_bytes_Inr [OF k]
  have a: "advances d d1" and b: "advances d1 d2"
    using kr v by (auto simp: got_value_def dest: reads_advances)
  have "reads d ((bytes_enc k @ benc v) @ concat (map (\<lambda>(k, v). bytes_enc k @ benc v) ps)) d3"
    using kr(1) v ps by (auto simp: got_value_def got_pairs_def intro!: reads_trans)
  moreover have "strict_dict_keys d \<longrightarrow>
      sorted_wrt (<) ((case lk of None \<Rightarrow> [] | Some k \<Rightarrow> [k]) @ k # map fst ps)"
    using ps ord by (cases lk)
      (auto simp: got_pairs_def advances_same(5) [OF a] advances_same(5) [OF b] intro: less_trans)
  ultimately show ?thesis
    using v ps kr(2,3)
    by (simp add: got_value_def got_pairs_def advances_same(2-5) [OF a] advances_same(2-5) [OF b])
qed

lemma benc_nonempty [simp]: "benc v \<noteq> []"
  by (cases v) (simp_all add: bytes_enc_def int_enc_def)

lemma got_value_progress: "got_value d depth v d' \<Longrightarrow> pos d < pos d'"
  by (simp add: got_value_def reads_def)

lemma got_value_input: "got_value d depth v d' \<Longrightarrow> input d' = input d"
  by (auto simp: got_value_def dest: reads_advances advances_same(1))

text \<open>The same for the two container readers, which are entered with the node counted.\<close>

definition got_list :: "decoder \<Rightarrow> nat \<Rightarrow> bvalue \<Rightarrow> decoder \<Rightarrow> bool" where
  "got_list d depth v d' \<longleftrightarrow> (\<exists>vs d1 d2. v = BList vs \<and> expect 0x6C d = Inr d1 \<and>
     got_items d1 depth vs d2 \<and> expect 0x65 d2 = Inr d')"

definition got_dict :: "decoder \<Rightarrow> nat \<Rightarrow> bvalue \<Rightarrow> decoder \<Rightarrow> bool" where
  "got_dict d depth v d' \<longleftrightarrow> (\<exists>ps d1 d2. v = BDict ps \<and> expect 0x64 d = Inr d1 \<and>
     got_pairs d1 depth None ps d2 \<and> expect 0x65 d2 = Inr d')"

lemma got_list_value:
  assumes l: "got_list (d\<lparr>nodes := Suc (nodes d)\<rparr>) depth v d'" (is "got_list ?d _ _ _")
    and "depth \<le> max_depth d" "Suc (nodes d) \<le> max_nodes d"
  shows "got_value d depth v d'"
proof -
  from l obtain vs d1 d2 where v: "v = BList vs" and e: "expect 0x6C ?d = Inr d1"
    and i: "got_items d1 depth vs d2" and f: "expect 0x65 d2 = Inr d'"
    by (auto simp: got_list_def)
  note er = expect_reads [OF e] expect_reads [OF f]
  have a: "advances ?d d1" using er by (auto dest: reads_advances)
  have "reads ?d ([0x6C] @ concat (map benc vs) @ [0x65]) d'"
    using er i by (intro reads_trans [of ?d _ d1] reads_trans [of d1 _ d2]) (simp_all add: got_items_def)
  then have "reads d (benc v) d'" using v by (simp add: reads_nodes)
  then show ?thesis using v i er assms(2,3) advances_same(2-5) [OF a]
    by (simp add: got_value_def got_items_def)
qed

lemma got_dict_value:
  assumes l: "got_dict (d\<lparr>nodes := Suc (nodes d)\<rparr>) depth v d'" (is "got_dict ?d _ _ _")
    and "depth \<le> max_depth d" "Suc (nodes d) \<le> max_nodes d"
  shows "got_value d depth v d'"
proof -
  from l obtain ps d1 d2 where v: "v = BDict ps" and e: "expect 0x64 ?d = Inr d1"
    and i: "got_pairs d1 depth None ps d2" and f: "expect 0x65 d2 = Inr d'"
    by (auto simp: got_dict_def)
  note er = expect_reads [OF e] expect_reads [OF f]
  have a: "advances ?d d1" using er by (auto dest: reads_advances)
  have "reads ?d ([0x64] @ concat (map (\<lambda>(k, v). bytes_enc k @ benc v) ps) @ [0x65]) d'"
    using er i by (intro reads_trans [of ?d _ d1] reads_trans [of d1 _ d2]) (simp_all add: got_pairs_def)
  then have "reads d (benc v) d'" using v by (simp add: reads_nodes)
  then show ?thesis using v i er assms(2,3) advances_same(2-5) [OF a]
    by (simp add: got_value_def got_pairs_def)
qed


lemma decode_partial:
  "decode_value_decode_list_decode_list_loop_decode_dict_decode_dict_loop_dom (Inl (Inl (env, depth, d, r)))
     \<Longrightarrow> decode_value env depth d r = Inr (v, d', r') \<Longrightarrow> got_value d depth v d'"
  "decode_value_decode_list_decode_list_loop_decode_dict_decode_dict_loop_dom (Inl (Inr (env, depth, d, r)))
     \<Longrightarrow> decode_list env depth d r = Inr (v, d', r') \<Longrightarrow> got_list d depth v d'"
  "decode_value_decode_list_decode_list_loop_decode_dict_decode_dict_loop_dom
       (Inr (Inl (env, depth, items, capacity, d, r)))
     \<Longrightarrow> decode_list_loop env depth items capacity d r = Inr (vs, d', r')
     \<Longrightarrow> \<exists>ws. vs = items @ ws \<and> got_items d depth ws d'"
  "decode_value_decode_list_decode_list_loop_decode_dict_decode_dict_loop_dom
       (Inr (Inr (Inl (env, depth, d, r))))
     \<Longrightarrow> decode_dict env depth d r = Inr (v, d', r') \<Longrightarrow> got_dict d depth v d'"
  "decode_value_decode_list_decode_list_loop_decode_dict_decode_dict_loop_dom
       (Inr (Inr (Inr (env, depth, lk, pairs, capacity, d, r))))
     \<Longrightarrow> decode_dict_loop env depth lk pairs capacity d r = Inr (ps, d', r')
     \<Longrightarrow> \<exists>qs. ps = pairs @ qs \<and> got_pairs d depth lk qs d'"
proof (induction env depth d r and env depth d r and env depth items capacity d r and env depth d r
    and env depth lk pairs capacity d r arbitrary: v d' r' and v d' r' and vs d' r' and v d' r' and ps d' r'
    rule: decode_value_decode_list_decode_list_loop_decode_dict_decode_dict_loop.pinduct)
  case (1 env depth d r)
  note IH = 1(2,3)
  let ?d = "d\<lparr>nodes := Suc (nodes d)\<rparr>"
  from 1(4) have lim: "depth \<le> max_depth d" "Suc (nodes d) \<le> max_nodes d"
    by (auto simp: decode_value.psimps [OF 1(1)] Let_def split: if_splits)
  from 1(4) have us: "nodes d + 1 \<le> usize_max"
    by (auto simp: decode_value.psimps [OF 1(1)] Let_def split: if_splits)
  from 1(4) obtain b where b: "peek ?d = Inr b"
    by (auto simp: decode_value.psimps [OF 1(1)] Let_def split: if_splits sum.splits)
  consider "decode_int ?d = Inr (v, d')" | "b = 0x6C" "decode_list env depth ?d r = Inr (v, d', r')"
    | "b = 0x64" "decode_dict env depth ?d r = Inr (v, d', r')"
    | s where "decode_bytes ?d = Inr (s, d')" "v = BBytes s"
    using 1(4) b by (auto simp: decode_value.psimps [OF 1(1)] Let_def split: if_splits sum.splits)
  then show ?case
  proof cases
    case 1
    then obtain n where "v = BInt n" "i64_range n" "reads ?d (int_enc n) d'" "nodes d' = nodes ?d"
      by (rule decode_int_Inr)
    then show ?thesis using lim by (simp add: got_value_def reads_nodes)
  next
    case 2
    then have "got_list ?d depth v d'" using IH(1) lim us b by simp
    then show ?thesis using lim by (rule got_list_value)
  next
    case 3
    then have "got_dict ?d depth v d'" using IH(2) lim us b by simp
    then show ?thesis using lim by (rule got_dict_value)
  next
    case 4
    then show ?thesis using lim decode_bytes_Inr [OF 4(1)] by (simp add: got_value_def reads_nodes)
  qed
next
  case (2 env depth d r)
  from 2(3) obtain vs d1 d2 r2 where l: "expect 0x6C d = Inr d1" "v = BList vs" "expect 0x65 d2 = Inr d'"
      "decode_list_loop env depth [] 0 d1 r = Inr (vs, d2, r2)"
    by (auto simp: decode_list.psimps [OF 2(1)] split: sum.splits)
  with 2(2) [OF l(1,4)] show ?case by (auto simp: got_list_def)
next
  case (3 env depth items capacity d r)
  from 3(4) obtain b where b: "peek d = Inr b"
    by (auto simp: decode_list_loop.psimps [OF 3(1)] split: sum.splits)
  show ?case
  proof (cases "b = 0x65")
    case True
    with 3(4) b have "vs = items \<and> d' = d" by (simp add: decode_list_loop.psimps [OF 3(1)])
    then show ?thesis using got_items_Nil by auto
  next
    case False
    with 3(4) b obtain c1 r1 item d2 r2 where
      s: "reserve_vec_growth env (size_value env) (length items) capacity r = Inr (c1, r1)"
        "decode_value env (depth + 1) d r1 = Inr (item, d2, r2)"
      and l: "decode_list_loop env depth (items @ [item]) c1 d2 r2 = Inr (vs, d', r')"
      by (auto simp: decode_list_loop.psimps [OF 3(1)] split: sum.splits)
    from 3(2) [OF b False s(1) refl s(2)] have "got_value d (depth + 1) item d2" .
    moreover from 3(3) [OF b False s(1) refl s(2) refl refl l]
    obtain ws where "vs = (items @ [item]) @ ws" "got_items d2 depth ws d'" by blast
    ultimately show ?thesis by (auto intro: got_items_Cons)
  qed
next
  case (4 env depth d r)
  from 4(3) obtain ps d1 d2 r2 where l: "expect 0x64 d = Inr d1" "v = BDict ps" "expect 0x65 d2 = Inr d'"
      "decode_dict_loop env depth None [] 0 d1 r = Inr (ps, d2, r2)"
    by (auto simp: decode_dict.psimps [OF 4(1)] split: sum.splits)
  with 4(2) [OF l(1,4)] show ?case by (auto simp: got_dict_def)
next
  case (5 env depth lk pairs capacity d r)
  from 5(4) obtain b where b: "peek d = Inr b"
    by (auto simp: decode_dict_loop.psimps [OF 5(1)] split: sum.splits)
  show ?case
  proof (cases "b = 0x65")
    case True
    with 5(4) b have "ps = pairs \<and> d' = d" by (simp add: decode_dict_loop.psimps [OF 5(1)])
    then show ?thesis using got_pairs_Nil by auto
  next
    case False
    with 5(4) b obtain k d1 c1 r1 val d2 r2 where k: "decode_bytes d = Inr (k, d1)"
      and ord: "\<not> (strict_dict_keys d1 \<and> (case lk of None \<Rightarrow> False | Some prev \<Rightarrow> k \<le> prev))"
      and s: "reserve_vec_growth env (size_pair env) (length pairs) capacity r = Inr (c1, r1)"
        "decode_value env (depth + 1) d1 r1 = Inr (val, d2, r2)"
      and l: "decode_dict_loop env depth (Some k) (pairs @ [(k, val)]) c1 d2 r2 = Inr (ps, d', r')"
      by (auto simp: decode_dict_loop.psimps [OF 5(1)] split: sum.splits if_splits)
    from 5(2) [OF b False k refl ord s(1) refl s(2)] have "got_value d1 (depth + 1) val d2" .
    moreover from 5(3) [OF b False k refl ord s(1) refl s(2) refl refl l]
    obtain qs where "ps = (pairs @ [(k, val)]) @ qs" "got_pairs d2 depth (Some k) qs d'" by blast
    moreover have "strict_dict_keys d \<longrightarrow> (case lk of None \<Rightarrow> True | Some prev \<Rightarrow> prev < k)"
      using ord advances_same(5) [OF reads_advances [OF decode_bytes_Inr(1) [OF k]]]
      by (auto split: option.splits)
    ultimately show ?thesis using k by (auto intro: got_pairs_Cons)
  qed
qed

text \<open>The loops stop because every round reads at least one byte of what is left of the input.\<close>

definition left_over :: "decoder \<Rightarrow> nat" where
  "left_over d = length (input d) - pos d"

lemma left_over_less:
  "peek d = Inr b \<Longrightarrow> pos d < pos d' \<Longrightarrow> input d' = input d \<Longrightarrow> left_over d' < left_over d"
  by (auto simp: left_over_def peek_def split: if_splits)

lemma left_over_expect: "expect b d = Inr d' \<Longrightarrow> left_over d' < left_over d"
  by (auto simp: expect_Inr_iff left_over_def)

lemma left_over_bytes: "peek d = Inr b \<Longrightarrow> decode_bytes d = Inr (k, d') \<Longrightarrow> left_over d' < left_over d"
  by (drule decode_bytes_Inr(1), erule left_over_less)
    (auto simp: reads_def bytes_enc_def dest: advances_same(1))

lemma left_over_value:
  "peek d = Inr b \<Longrightarrow> got_value d depth v d' \<Longrightarrow> left_over d' < left_over d"
  by (rule left_over_less) (auto dest: got_value_progress got_value_input)

lemma left_over_value_le: "got_value d depth v d' \<Longrightarrow> left_over d' \<le> left_over d"
  using got_value_progress [of d depth v d'] got_value_input [of d depth v d'] by (simp add: left_over_def)

lemma left_over_entry:
  "peek d = Inr b \<Longrightarrow> decode_bytes d = Inr (k, d1) \<Longrightarrow> got_value d1 depth v d2 \<Longrightarrow> left_over d2 < left_over d"
  using left_over_bytes [of d b k d1] left_over_value_le [of d1 depth v d2] by simp

lemma left_over_nodes [simp]: "left_over (d\<lparr>nodes := n\<rparr>) = left_over d"
  by (simp add: left_over_def)

lemma decode_terminates:
  "All decode_value_decode_list_decode_list_loop_decode_dict_decode_dict_loop_dom"
proof (rule "decode_value_decode_list_decode_list_loop_decode_dict_decode_dict_loop.termination" [of "measures
    [case_sum (case_sum (\<lambda>(env, depth, d, r). left_over d) (\<lambda>(env, depth, d, r). left_over d))
       (case_sum (\<lambda>(env, depth, items, capacity, d, r). left_over d)
         (case_sum (\<lambda>(env, depth, d, r). left_over d) (\<lambda>(env, depth, lk, pairs, capacity, d, r). left_over d))),
     case_sum (case_sum (\<lambda>_. 2) (\<lambda>_. 1)) (case_sum (\<lambda>_. 3) (case_sum (\<lambda>_. 1) (\<lambda>_. 3)))]"])
qed (auto dest: left_over_expect left_over_bytes left_over_value left_over_entry decode_partial(1))

termination decode_value
  by (rule decode_terminates)


lemmas decode_rules =
  decode_value.simps decode_list.simps decode_list_loop.simps decode_dict.simps decode_dict_loop.simps

declare decode_rules [simp del]

lemma decode_value_got: "decode_value env depth d r = Inr (v, d', r') \<Longrightarrow> got_value d depth v d'"
  by (rule decode_partial(1)) (simp_all add: decode_terminates [rule_format])

subsection \<open>Entry points\<close>

definition decode_with_span_and_allocation_reservation ::
    "'r alloc_env \<Rightarrow> decoder \<Rightarrow> 'r \<Rightarrow> bencode_error + ((bvalue \<times> nat \<times> nat) \<times> 'r)" where
  "decode_with_span_and_allocation_reservation env d r =
     (let start = pos d in
      case decode_value env 0 d r of Inl e \<Rightarrow> Inl e | Inr (v, d', r') \<Rightarrow>
      if pos d' \<noteq> length (input d') then Inl TrailingData else Inr ((v, start, pos d'), r'))"

definition decoder_decode_with_allocation_reservation ::
    "'r alloc_env \<Rightarrow> decoder \<Rightarrow> 'r \<Rightarrow> bencode_error + (bvalue \<times> 'r)" where
  "decoder_decode_with_allocation_reservation env d r =
     (case decode_value env 0 d r of Inl e \<Rightarrow> Inl e | Inr (v, d', r') \<Rightarrow>
      if pos d' \<noteq> length (input d') then Inl TrailingData else Inr (v, r'))"

text \<open>\<open>always env\<close> is the environment of the callers that pass \<open>|_| true\<close> as the admission closure.\<close>

definition always :: "'q alloc_env \<Rightarrow> unit alloc_env" where
  "always env = \<lparr>reserve_fn = (\<lambda>_ _. (True, ())), try_reserve_exact = try_reserve_exact env,
     size_value = size_value env, size_pair = size_pair env\<rparr>"

definition decoder_decode :: "'q alloc_env \<Rightarrow> decoder \<Rightarrow> bencode_error + bvalue" where
  "decoder_decode env d =
     (case decoder_decode_with_allocation_reservation (always env) d () of
        Inl e \<Rightarrow> Inl e | Inr (v, _) \<Rightarrow> Inr v)"

definition decode_with_span :: "'q alloc_env \<Rightarrow> decoder \<Rightarrow> bencode_error + (bvalue \<times> nat \<times> nat)" where
  "decode_with_span env d =
     (case decode_with_span_and_allocation_reservation (always env) d () of
        Inl e \<Rightarrow> Inl e | Inr (vs, _) \<Rightarrow> Inr vs)"

definition decode :: "'q alloc_env \<Rightarrow> bytes \<Rightarrow> bencode_error + bvalue" where
  "decode env inp = decoder_decode env (decoder_new inp)"

definition decode_with_allocation_reservation ::
    "'r alloc_env \<Rightarrow> bytes \<Rightarrow> 'r \<Rightarrow> bencode_error + (bvalue \<times> 'r)" where
  "decode_with_allocation_reservation env inp r =
     decoder_decode_with_allocation_reservation env (decoder_new inp) r"

subsection \<open>The encoder writes the specified bytes\<close>

lemma fold_encode_list:
  "(\<And>v b. v \<in> set vs \<Longrightarrow> f v b = b @ benc v) \<Longrightarrow> fold f vs buf = buf @ concat (map benc vs)"
  by (induction vs arbitrary: buf) simp_all

lemma fold_encode_dict:
  "(\<And>k v b. (k, v) \<in> set ps \<Longrightarrow> f (k, v) b = b @ bytes_enc k @ benc v)
     \<Longrightarrow> fold f ps buf = buf @ concat (map (\<lambda>(k, v). bytes_enc k @ benc v) ps)"
  by (induction ps arbitrary: buf) auto

lemma encode_into_benc: "encode_into v buf = buf @ benc v"
proof (induction v buf rule: encode_into.induct)
  case (3 items buf)
  then show ?case by (simp add: fold_encode_list [of items])
next
  case (4 pairs buf)
  then have "fold (\<lambda>(k, v) buf. encode_into v (buf @ dec_nat (length k) @ [0x3A] @ k)) pairs (buf @ [0x64])
      = (buf @ [0x64]) @ concat (map (\<lambda>(k, v). bytes_enc k @ benc v) pairs)"
    by (intro fold_encode_dict) (auto simp: bytes_enc_def)
  then show ?case by simp
qed (simp_all add: bytes_enc_def int_enc_def)

lemma encode_benc: "encode v = benc v"
  by (simp add: encode_def encode_into_benc)

subsection \<open>Soundness\<close>

lemma decoder_decode_got:
  assumes "decoder_decode_with_allocation_reservation env d r = Inr (v, r')"
  shows "\<exists>d'. got_value d 0 v d' \<and> pos d' = length (input d)"
proof -
  from assms obtain d' r1 where "decode_value env 0 d r = Inr (v, d', r1)" "pos d' = length (input d')"
    by (auto simp: decoder_decode_with_allocation_reservation_def split: sum.splits if_splits)
  then show ?thesis using decode_value_got [of env 0 d r v d' r1] got_value_input [of d 0 v d'] by auto
qed

lemma decoder_decode_sound:
  assumes "decoder_decode_with_allocation_reservation env d r = Inr (v, r')" "pos d = 0" "nodes d = 0"
  shows "encode v = input d" "node_count v \<le> max_nodes d" "fits_in d 0 v"
proof -
  from decoder_decode_got [OF assms(1)] obtain d' where
    g: "got_value d 0 v d'" "pos d' = length (input d)" by blast
  then have "subslice (input d) 0 (length (input d)) = benc v"
    using assms(2) by (auto simp: got_value_def dest: reads_subslice)
  then show "encode v = input d" by (simp add: encode_benc subslice_def)
  from g assms(3) show "node_count v \<le> max_nodes d" "fits_in d 0 v" by (simp_all add: got_value_def)
qed

end
