(* ===== verification/Bencode_Laws.thy ===== *)
theory Bencode_Laws
  imports Bencode
begin

text \<open>
  The laws of the codec of \<open>Bencode\<close>: completeness of the decoder under an allocator that grants
  what is asked, the byte walk that finds the span of the info dictionary, and the properties.
\<close>

subsection \<open>Completeness: every admissible value is read back\<close>

lemma drop_Cons_D: "drop p xs = b # ys \<Longrightarrow> p < length xs \<and> xs ! p = b \<and> drop (Suc p) xs = ys"
  using Cons_nth_drop_Suc [of p xs] by (cases "p < length xs") auto

lemma drop_append_D: "drop p xs = ys @ zs \<Longrightarrow> drop (p + length ys) xs = zs"
  using drop_drop [of "length ys" p xs] by (simp add: add.commute)

lemma drop_append_length: "drop p xs = ys @ zs \<Longrightarrow> ys \<noteq> [] \<Longrightarrow> p + length ys \<le> length xs"
  using length_drop [of p xs] by (cases ys) auto

lemma scan_int_token_run:
  "drop (pos d) (input d) = tok @ 0x65 # rest \<Longrightarrow> 0x65 \<notin> set tok \<Longrightarrow> start \<le> pos d
     \<Longrightarrow> pos d - start + length tok \<le> MAX_INTEGER_TOKEN_BYTES
     \<Longrightarrow> scan_int_token start d = Inr (d\<lparr>pos := pos d + length tok\<rparr>)"
proof (induction tok arbitrary: d)
  case Nil
  then show ?case
    using drop_Cons_D [of "pos d" "input d" "0x65"] by (subst scan_int_token.simps) (simp add: peek_def)
next
  case (Cons b tok)
  let ?d = "d\<lparr>pos := pos d + 1\<rparr>"
  note D = drop_Cons_D [of "pos d" "input d" b "tok @ 0x65 # rest"]
  have "drop (pos ?d) (input ?d) = tok @ 0x65 # rest" using Cons.prems(1) D by simp
  moreover from this have "Suc (pos d) < length (input d)"
    using drop_append_length [of "Suc (pos d)" "input d" "tok @ [0x65]" rest] by simp
  ultimately show ?case
    using Cons.prems D Cons.IH [of ?d] by (subst scan_int_token.simps) (auto simp: peek_def Let_def)
qed

lemma scan_length_run:
  "drop (pos d) (input d) = tok @ 0x3A # rest \<Longrightarrow> list_all is_ascii_digit tok \<Longrightarrow> start \<le> pos d
     \<Longrightarrow> pos d - start + length tok \<le> MAX_LENGTH_PREFIX_DIGITS
     \<Longrightarrow> scan_length start d = Inr (d\<lparr>pos := pos d + length tok\<rparr>)"
proof (induction tok arbitrary: d)
  case Nil
  then show ?case
    using drop_Cons_D [of "pos d" "input d" "0x3A"] by (subst scan_length.simps) (simp add: peek_def)
next
  case (Cons b tok)
  let ?d = "d\<lparr>pos := pos d + 1\<rparr>"
  note D = drop_Cons_D [of "pos d" "input d" b "tok @ 0x3A # rest"]
  have "drop (pos ?d) (input ?d) = tok @ 0x3A # rest" using Cons.prems(1) D by simp
  moreover from this have "Suc (pos d) < length (input d)"
    using drop_append_length [of "Suc (pos d)" "input d" "tok @ [0x3A]" rest] by simp
  moreover have "b \<noteq> 0x3A" using Cons.prems(2) by (auto simp: is_ascii_digit_def)
  ultimately show ?case
    using Cons.prems D Cons.IH [of ?d] by (subst scan_length.simps) (auto simp: peek_def Let_def)
qed


lemma dec_int_no_e: "0x65 \<notin> set (dec_int n)"
proof -
  have "0x65 \<notin> set (dec_nat m)" for m
    using dec_nat_digits [of m] by (auto simp: list_all_iff is_ascii_digit_def)
  then show ?thesis by (simp add: dec_int_def)
qed

lemma dec_int_length: "i64_range n \<Longrightarrow> length (dec_int n) \<le> 20"
  using dec_nat_length_bound [of "nat (- n)" 19] dec_nat_length_bound [of "nat n" 19]
  by (auto simp: i64_range_def dec_int_def nat_less_iff)

lemma dec_nat_length_usize: "n \<le> usize_max \<Longrightarrow> length (dec_nat n) \<le> 64"
  using dec_nat_length_bound [of n 20] by (simp add: usize_max_def)

lemma expect_run:
  "drop (pos d) (input d) = b # rest \<Longrightarrow> expect b d = Inr (d\<lparr>pos := Suc (pos d)\<rparr>)"
  by (drule drop_Cons_D) (simp add: expect_Inr_iff)

lemma decode_int_run:
  assumes "drop (pos d) (input d) = int_enc n @ rest" "i64_range n"
  shows "decode_int d = Inr (BInt n, d\<lparr>pos := pos d + length (int_enc n)\<rparr>)"
proof -
  let ?d1 = "d\<lparr>pos := Suc (pos d)\<rparr>" and ?p = "Suc (pos d) + length (dec_int n)"
  from assms(1) have e: "expect 0x69 d = Inr ?d1" by (simp add: int_enc_def expect_run)
  have at1: "drop (pos ?d1) (input ?d1) = dec_int n @ 0x65 # rest"
    using assms(1) drop_append_D [of "pos d" "input d" "[0x69]"] by (simp add: int_enc_def)
  then have s: "scan_int_token (pos ?d1) ?d1 = Inr (?d1\<lparr>pos := ?p\<rparr>)"
    using scan_int_token_run [OF at1 dec_int_no_e, of "pos ?d1"] dec_int_length [OF assms(2)]
    by (simp add: MAX_INTEGER_TOKEN_BYTES_def)
  have f: "expect 0x65 (?d1\<lparr>pos := ?p\<rparr>) = Inr (?d1\<lparr>pos := Suc ?p\<rparr>)"
    using drop_append_D [OF at1] by (subst expect_run [of _ _ rest]) simp_all
  have t: "subslice (input d) (Suc (pos d)) ?p = dec_int n"
    using at1 by (simp add: subslice_def)
  show ?thesis
    using e s f t canonical_int_token_dec_int [of n] utf8_valid_dec_int [of n] parse_i64_dec_int [OF assms(2)]
    by (auto simp: decode_int_def Let_def int_enc_def canonical_int_token_def)
qed

lemma decode_length_run:
  assumes "drop (pos d) (input d) = dec_nat n @ 0x3A # rest" "n \<le> usize_max"
  shows "decode_length d = Inr (n, d\<lparr>pos := Suc (pos d + length (dec_nat n))\<rparr>)"
proof -
  let ?d1 = "d\<lparr>pos := pos d + length (dec_nat n)\<rparr>"
  from assms have s: "scan_length (pos d) d = Inr ?d1"
    using scan_length_run [OF assms(1) dec_nat_digits, of "pos d"] dec_nat_length_usize [of n]
    by (simp add: MAX_LENGTH_PREFIX_DIGITS_def)
  have f: "expect 0x3A ?d1 = Inr (d\<lparr>pos := Suc (pos d + length (dec_nat n))\<rparr>)"
    using drop_append_D [OF assms(1)] by (subst expect_run [of _ _ rest]) simp_all
  have t: "subslice (input d) (pos d) (pos d + length (dec_nat n)) = dec_nat n"
    using assms(1) by (simp add: subslice_def)
  have "\<not> (1 < length (dec_nat n) \<and> take 1 (dec_nat n) = [0x30])"
    using canonical_dec_nat [of n] by (cases "dec_nat n") (auto simp: canonical_dec_def)
  moreover have "parse_usize (dec_nat n) = Inr n"
    using assms(2) by (intro parse_usize_dec_nat) (simp add: usize_max_def)
  ultimately show ?thesis using s f t utf8_valid_digits [OF dec_nat_digits [of n]]
    by (simp add: decode_length_def Let_def)
qed

lemma decode_bytes_run:
  assumes "drop (pos d) (input d) = bytes_enc s @ rest" "length s \<le> max_string d"
    and "length (input d) \<le> usize_max"
  shows "decode_bytes d = Inr (s, d\<lparr>pos := pos d + length (bytes_enc s)\<rparr>)"
proof -
  have b: "pos d + length (bytes_enc s) \<le> length (input d)"
    using drop_append_length [OF assms(1)] by (simp add: bytes_enc_def)
  then have n: "length s \<le> usize_max" using assms(3) by (simp add: bytes_enc_def)
  let ?p = "Suc (pos d + length (dec_nat (length s)))"
  have l: "decode_length d = Inr (length s, d\<lparr>pos := ?p\<rparr>)"
    using assms(1) n by (intro decode_length_run [of _ _ "s @ rest"]) (simp_all add: bytes_enc_def)
  have "drop ?p (input d) = s @ rest"
    using assms(1) drop_append_D [of "pos d" "input d" "dec_nat (length s) @ [0x3A]"]
    by (simp add: bytes_enc_def)
  then have "subslice (input d) ?p (?p + length s) = s" by (simp add: subslice_def)
  then show ?thesis using l b assms(2,3) by (simp add: decode_bytes_def Let_def bytes_enc_def)
qed

text \<open>
  What completeness needs of the environment: the admission closure agrees, and the allocator
  grants exactly the capacity asked for, up to \<open>N\<close> elements.
\<close>

definition alloc_ok :: "nat \<Rightarrow> 'r alloc_env \<Rightarrow> bool" where
  "alloc_ok N env \<longleftrightarrow>
     (\<forall>n r. fst (reserve_fn env n r)) \<and>
     (\<forall>len additional. len + additional \<le> N \<longrightarrow>
        try_reserve_exact env len additional = Some (len + additional)) \<and>
     size_value env \<le> 64 \<and> size_pair env \<le> 64"

lemma reserve_vec_growth_run:
  assumes "alloc_ok N env" "N \<le> 2 ^ 32" "sz \<le> 64" "len \<le> cap" "cap \<le> 2 * len" "2 * Suc len \<le> N"
  shows "\<exists>cap' r'. reserve_vec_growth env sz len cap r = Inr (cap', r') \<and> Suc len \<le> cap' \<and> cap' \<le> 2 * Suc len"
proof (cases "len < cap")
  case True
  with assms(5) show ?thesis by (simp add: reserve_vec_growth_def)
next
  case False
  define c where "c = max (len * 2) (Suc len)"
  have c: "cap = len" "c \<le> N" "len + 1 \<le> usize_max" "c * sz \<le> usize_max" "0 < c" "Suc len \<le> c"
      "c \<le> 2 * Suc len" "max (min (cap * 2) usize_max) (Suc len) = c"
  proof -
    have "c * sz \<le> 2 ^ 32 * 64" using assms unfolding c_def by (intro mult_mono) auto
    then show "c * sz \<le> usize_max" by (simp add: usize_max_def)
  qed (use False assms in \<open>auto simp: usize_max_def c_def\<close>)
  obtain b r' where r: "(if c * sz > 0 then reserve_fn env (c * sz) r else (True, r)) = (b, r')"
    by (cases "if c * sz > 0 then reserve_fn env (c * sz) r else (True, r)") auto
  then have "b" using assms(1) by (auto simp: alloc_ok_def split: if_splits) (metis fst_conv)
  moreover have "try_reserve_exact env len (c - len) = Some c" using assms(1) c(2,6) by (auto simp: alloc_ok_def)
  ultimately have "reserve_vec_growth env sz len cap r = Inr (c, r')"
    using c r False by (cases "sz = 0") (auto simp: reserve_vec_growth_def Let_def not_less)
  then show ?thesis using c(6,7) by simp
qed

lemma benc_head: obtains b bs where "benc v = b # bs" "b \<noteq> 0x65"
proof -
  have "\<exists>b bs. bytes_enc s = b # bs \<and> b \<noteq> 0x65" for s
    using dec_nat_digits [of "length s"]
    by (cases "dec_nat (length s)") (auto simp: bytes_enc_def is_ascii_digit_def)
  then have "\<exists>b bs. benc v = b # bs \<and> b \<noteq> 0x65" by (cases v) (simp_all add: int_enc_def)
  then show ?thesis using that by blast
qed

lemma bytes_enc_head: obtains b bs where "bytes_enc s = b # bs" "is_ascii_digit b"
  using dec_nat_digits [of "length s"] that by (cases "dec_nat (length s)") (auto simp: bytes_enc_def)

text \<open>\<open>reads_back env N v\<close>: wherever the bytes of \<open>v\<close> stand and the limits admit it, it is decoded.\<close>

definition moved :: "decoder \<Rightarrow> nat \<Rightarrow> nat \<Rightarrow> decoder" where
  "moved d n k = d\<lparr>pos := pos d + n, nodes := nodes d + k\<rparr>"

definition reads_back :: "'r alloc_env \<Rightarrow> nat \<Rightarrow> bvalue \<Rightarrow> bool" where
  "reads_back env N v \<longleftrightarrow> (\<forall>depth d r rest.
     drop (pos d) (input d) = benc v @ rest \<and> length (input d) \<le> usize_max \<and> fits_in d depth v \<and>
     nodes d + node_count v \<le> max_nodes d \<and> 2 * max_nodes d \<le> N \<longrightarrow>
     (\<exists>r'. decode_value env depth d r = Inr (v, moved d (length (benc v)) (node_count v), r')))"

lemma reads_backD:
  assumes "reads_back env N v" "drop (pos d) (input d) = benc v @ rest" "length (input d) \<le> usize_max"
    "fits_in d depth v" "nodes d + node_count v \<le> max_nodes d" "2 * max_nodes d \<le> N"
  obtains r' where "decode_value env depth d r = Inr (v, moved d (length (benc v)) (node_count v), r')"
  using assms unfolding reads_back_def by blast

lemma moved_simps [simp]:
  "pos (moved d n k) = pos d + n" "nodes (moved d n k) = nodes d + k" "input (moved d n k) = input d"
  "max_nodes (moved d n k) = max_nodes d" "max_depth (moved d n k) = max_depth d"
  "max_string (moved d n k) = max_string d" "strict_dict_keys (moved d n k) = strict_dict_keys d"
  "moved (moved d n k) n' k' = moved d (n + n') (k + k')" "moved d 0 0 = d"
  by (simp_all add: moved_def add.assoc)

lemma node_count_pos: "0 < node_count v"
  by (cases v) simp_all

lemma decode_list_loop_run:
  assumes "alloc_ok N env" "N \<le> 2 ^ 32"
  shows "(\<forall>v \<in> set vs. reads_back env N v) \<Longrightarrow>
    drop (pos d) (input d) = concat (map benc vs) @ 0x65 # rest \<Longrightarrow> length (input d) \<le> usize_max \<Longrightarrow>
    list_all (fits_in d (depth + 1)) vs \<Longrightarrow> nodes d + sum_list (map node_count vs) \<le> max_nodes d \<Longrightarrow>
    2 * max_nodes d \<le> N \<Longrightarrow> length items \<le> nodes d \<Longrightarrow> length items \<le> cap \<Longrightarrow> cap \<le> 2 * length items \<Longrightarrow>
    \<exists>r'. decode_list_loop env depth items cap d r =
      Inr (items @ vs, moved d (length (concat (map benc vs))) (sum_list (map node_count vs)), r')"
proof (induction vs arbitrary: d items cap r)
  case Nil
  then show ?case
    using drop_Cons_D [of "pos d" "input d" "0x65"] by (subst decode_list_loop.simps) (simp add: peek_def)
next
  case (Cons v vs)
  obtain b bs where b: "benc v = b # bs" "b \<noteq> 0x65" by (rule benc_head)
  have pk: "peek d = Inr b"
    using Cons.prems(2) b drop_Cons_D [of "pos d" "input d" b] by (simp add: peek_def)
  have "size_value env \<le> 64" using assms(1) by (simp add: alloc_ok_def)
  moreover have "2 * Suc (length items) \<le> N" using Cons.prems(5-7) node_count_pos [of v] by simp
  ultimately obtain c1 r1 where
    g: "reserve_vec_growth env (size_value env) (length items) cap r = Inr (c1, r1)"
      "Suc (length items) \<le> c1" "c1 \<le> 2 * Suc (length items)"
    using reserve_vec_growth_run [OF assms _ Cons.prems(8,9)] by blast
  have rb: "reads_back env N v" using Cons.prems(1) by simp
  have v: "drop (pos d) (input d) = benc v @ concat (map benc vs) @ 0x65 # rest"
    using Cons.prems(2) by simp
  obtain r2 where r2: "decode_value env (depth + 1) d r1 =
      Inr (v, moved d (length (benc v)) (node_count v), r2)"
    by (rule reads_backD [OF rb v, of "depth + 1" r1]) (use Cons.prems in auto)
  let ?d = "moved d (length (benc v)) (node_count v)"
  have "\<exists>r'. decode_list_loop env depth (items @ [v]) c1 ?d r2 =
      Inr ((items @ [v]) @ vs, moved ?d (length (concat (map benc vs))) (sum_list (map node_count vs)), r')"
    by (rule Cons.IH) (use Cons.prems g drop_append_D [OF v] node_count_pos [of v] in auto)
  with pk b(2) g r2 show ?case by (subst decode_list_loop.simps) simp
qed


abbreviation pair_enc :: "bytes \<times> bvalue \<Rightarrow> bytes" where
  "pair_enc \<equiv> \<lambda>(k, v). bytes_enc k @ benc v"

lemma decode_dict_loop_run:
  assumes "alloc_ok N env" "N \<le> 2 ^ 32"
  shows "(\<forall>(k, v) \<in> set ps. reads_back env N v) \<Longrightarrow>
    drop (pos d) (input d) = concat (map pair_enc ps) @ 0x65 # rest \<Longrightarrow> length (input d) \<le> usize_max \<Longrightarrow>
    list_all (\<lambda>(k, v). length k \<le> max_string d \<and> fits_in d (depth + 1) v) ps \<Longrightarrow>
    (strict_dict_keys d \<longrightarrow> sorted_wrt (<) ((case lk of None \<Rightarrow> [] | Some k \<Rightarrow> [k]) @ map fst ps)) \<Longrightarrow>
    nodes d + sum_list (map (\<lambda>(k, v). node_count v) ps) \<le> max_nodes d \<Longrightarrow>
    2 * max_nodes d \<le> N \<Longrightarrow> length pairs \<le> nodes d \<Longrightarrow> length pairs \<le> cap \<Longrightarrow> cap \<le> 2 * length pairs \<Longrightarrow>
    \<exists>r'. decode_dict_loop env depth lk pairs cap d r =
      Inr (pairs @ ps, moved d (length (concat (map pair_enc ps))) (sum_list (map (\<lambda>(k, v). node_count v) ps)), r')"
proof (induction ps arbitrary: d pairs cap lk r)
  case Nil
  then show ?case
    using drop_Cons_D [of "pos d" "input d" "0x65"] by (subst decode_dict_loop.simps) (simp add: peek_def)
next
  case (Cons p ps)
  obtain k v where p: "p = (k, v)" by fastforce
  obtain b bs where b: "bytes_enc k = b # bs" "is_ascii_digit b" by (rule bytes_enc_head)
  have k: "drop (pos d) (input d) = bytes_enc k @ benc v @ concat (map pair_enc ps) @ 0x65 # rest"
    using Cons.prems(2) p by simp
  have pk: "peek d = Inr b" "b \<noteq> 0x65"
    using k b drop_Cons_D [of "pos d" "input d" b] by (auto simp: peek_def is_ascii_digit_def)
  let ?d1 = "moved d (length (bytes_enc k)) 0"
  have db: "decode_bytes d = Inr (k, ?d1)"
    using decode_bytes_run [OF k] Cons.prems(3,4) p by (simp add: moved_def)
  have ord: "\<not> (strict_dict_keys d \<and> (case lk of None \<Rightarrow> False | Some prev \<Rightarrow> k \<le> prev))"
    using Cons.prems(5) p by (cases lk) auto
  have srt: "strict_dict_keys d \<longrightarrow> sorted_wrt (<) (k # map fst ps)"
    using Cons.prems(5) p by (cases lk) auto
  have "size_pair env \<le> 64" using assms(1) by (simp add: alloc_ok_def)
  moreover have "2 * Suc (length pairs) \<le> N" using Cons.prems(6-8) node_count_pos [of v] p by simp
  ultimately obtain c1 r1 where
    g: "reserve_vec_growth env (size_pair env) (length pairs) cap r = Inr (c1, r1)"
      "Suc (length pairs) \<le> c1" "c1 \<le> 2 * Suc (length pairs)"
    using reserve_vec_growth_run [OF assms _ Cons.prems(9,10)] by blast
  have rb: "reads_back env N v" using Cons.prems(1) p by auto
  have v: "drop (pos ?d1) (input ?d1) = benc v @ concat (map pair_enc ps) @ 0x65 # rest"
    using drop_append_D [OF k] by simp
  obtain r2 where r2: "decode_value env (depth + 1) ?d1 r1 =
      Inr (v, moved ?d1 (length (benc v)) (node_count v), r2)"
    by (rule reads_backD [OF rb v, of "depth + 1" r1]) (use Cons.prems p in auto)
  let ?d = "moved ?d1 (length (benc v)) (node_count v)"
  have "\<exists>r'. decode_dict_loop env depth (Some k) (pairs @ [(k, v)]) c1 ?d r2 =
      Inr ((pairs @ [(k, v)]) @ ps, moved ?d (length (concat (map pair_enc ps)))
        (sum_list (map (\<lambda>(k, v). node_count v) ps)), r')"
    by (rule Cons.IH) (use Cons.prems(1-4,6-) p g srt drop_append_D [OF v] node_count_pos [of v]
        in \<open>auto simp: add.assoc\<close>)
  with pk db ord g r2 p show ?case by (subst decode_dict_loop.simps) (simp add: add.assoc)
qed

text \<open>The entry of \<open>decode_value\<close>: the checks pass and the dispatch sees the first byte.\<close>

lemma decode_value_enter:
  assumes "depth \<le> max_depth d" "Suc (nodes d) \<le> max_nodes d" "max_nodes d \<le> usize_max"
    and "drop (pos d) (input d) = b # bs"
  shows "decode_value env depth d r =
    (let d1 = d\<lparr>nodes := Suc (nodes d)\<rparr> in
     if b = 0x69 then (case decode_int d1 of Inl e \<Rightarrow> Inl e | Inr (v, d2) \<Rightarrow> Inr (v, d2, r))
     else if b = 0x6C then decode_list env depth d1 r
     else if b = 0x64 then decode_dict env depth d1 r
     else if is_ascii_digit b then
       (case decode_bytes d1 of Inl e \<Rightarrow> Inl e | Inr (s, d2) \<Rightarrow> Inr (BBytes s, d2, r))
     else Inl (UnexpectedByte b (pos d1)))"
  using assms(1-3) drop_Cons_D [OF assms(4)]
  by (subst decode_value.simps) (simp add: peek_def Let_def is_ascii_digit_def)

lemma fits_depth: "fits md ms strict depth v \<Longrightarrow> depth \<le> md"
  by (cases v) simp_all

lemma reads_backI:
  assumes "\<And>depth d r b bs rest. benc v = b # bs \<Longrightarrow> drop (pos d) (input d) = b # bs @ rest \<Longrightarrow>
      length (input d) \<le> usize_max \<Longrightarrow> fits_in d depth v \<Longrightarrow> Suc (nodes d) \<le> max_nodes d \<Longrightarrow>
      nodes d + node_count v \<le> max_nodes d \<Longrightarrow> 2 * max_nodes d \<le> N \<Longrightarrow> max_nodes d \<le> usize_max \<Longrightarrow>
      \<exists>r'. decode_value env depth d r = Inr (v, moved d (length (benc v)) (node_count v), r')"
    and "N \<le> 2 ^ 32"
  shows "reads_back env N v"
  unfolding reads_back_def
proof (intro allI impI, elim conjE, goal_cases)
  case (1 depth d r rest)
  obtain b bs where "benc v = b # bs" by (cases "benc v") auto
  with 1 assms(2) node_count_pos [of v] show ?case by (intro assms(1)) (auto simp: usize_max_def)
qed

lemma reads_back_bytes:
  assumes "alloc_ok N env" "N \<le> 2 ^ 32"
  shows "reads_back env N (BBytes s)"
proof (rule reads_backI [OF _ assms(2)])
  fix depth d r b bs rest
  assume a: "benc (BBytes s) = b # bs" "drop (pos d) (input d) = b # bs @ rest"
    "length (input d) \<le> usize_max" "fits_in d depth (BBytes s)" "Suc (nodes d) \<le> max_nodes d"
    "max_nodes d \<le> usize_max"
  have "is_ascii_digit b" using a(1) bytes_enc_head [of s] by auto
  moreover have "decode_bytes (d\<lparr>nodes := Suc (nodes d)\<rparr>) =
      Inr (s, d\<lparr>nodes := Suc (nodes d), pos := pos d + length (bytes_enc s)\<rparr>)"
    using a by (subst decode_bytes_run [of _ s rest]) simp_all
  ultimately show "\<exists>r'. decode_value env depth d r =
      Inr (BBytes s, moved d (length (benc (BBytes s))) (node_count (BBytes s)), r')"
    using a by (subst decode_value_enter) (auto simp: moved_def is_ascii_digit_def Let_def)
qed

lemma reads_back_int:
  assumes "alloc_ok N env" "N \<le> 2 ^ 32"
  shows "reads_back env N (BInt n)"
proof (rule reads_backI [OF _ assms(2)])
  fix depth d r b bs rest
  assume a: "benc (BInt n) = b # bs" "drop (pos d) (input d) = b # bs @ rest"
    "fits_in d depth (BInt n)" "Suc (nodes d) \<le> max_nodes d" "max_nodes d \<le> usize_max"
  have "decode_int (d\<lparr>nodes := Suc (nodes d)\<rparr>) =
      Inr (BInt n, d\<lparr>nodes := Suc (nodes d), pos := pos d + length (int_enc n)\<rparr>)"
    using a by (subst decode_int_run [of _ n rest]) simp_all
  then show "\<exists>r'. decode_value env depth d r =
      Inr (BInt n, moved d (length (benc (BInt n))) (node_count (BInt n)), r')"
    using a by (subst decode_value_enter) (auto simp: moved_def int_enc_def)
qed

lemma reads_back_list:
  assumes "alloc_ok N env" "N \<le> 2 ^ 32" and "\<And>v. v \<in> set vs \<Longrightarrow> reads_back env N v"
  shows "reads_back env N (BList vs)"
proof (rule reads_backI [OF _ assms(2)])
  fix depth d r b bs rest
  assume a: "benc (BList vs) = b # bs" "drop (pos d) (input d) = b # bs @ rest"
    "length (input d) \<le> usize_max" "fits_in d depth (BList vs)" "Suc (nodes d) \<le> max_nodes d"
    "nodes d + node_count (BList vs) \<le> max_nodes d" "2 * max_nodes d \<le> N" "max_nodes d \<le> usize_max"
  let ?d1 = "moved d 1 1" and ?n = "length (concat (map benc vs))" and ?k = "sum_list (map node_count vs)"
  have at0: "drop (pos d) (input d) = [0x6C] @ concat (map benc vs) @ 0x65 # rest" using a(1,2) by auto
  note at1 = drop_append_D [OF at0]
  have e: "expect 0x6C (d\<lparr>nodes := Suc (nodes d)\<rparr>) = Inr ?d1"
    using at0 by (subst expect_run) (auto simp: moved_def)
  obtain r' where l: "decode_list_loop env depth [] 0 ?d1 r = Inr ([] @ vs, moved ?d1 ?n ?k, r')"
    using decode_list_loop_run [OF assms(1,2), of vs ?d1 rest depth "[]" 0 r] assms(3) a at1 by auto
  have f: "expect 0x65 (moved ?d1 ?n ?k) = Inr (moved ?d1 (?n + 1) ?k)"
    using drop_append_D [OF at1] by (subst expect_run [of _ _ rest]) (auto simp: moved_def)
  show "\<exists>r'. decode_value env depth d r =
      Inr (BList vs, moved d (length (benc (BList vs))) (node_count (BList vs)), r')"
    using a e l f by (subst decode_value_enter) (auto simp: decode_list.simps)
qed

lemma reads_back_dict:
  assumes "alloc_ok N env" "N \<le> 2 ^ 32" and "\<And>k v. (k, v) \<in> set ps \<Longrightarrow> reads_back env N v"
  shows "reads_back env N (BDict ps)"
proof (rule reads_backI [OF _ assms(2)])
  fix depth d r b bs rest
  assume a: "benc (BDict ps) = b # bs" "drop (pos d) (input d) = b # bs @ rest"
    "length (input d) \<le> usize_max" "fits_in d depth (BDict ps)" "Suc (nodes d) \<le> max_nodes d"
    "nodes d + node_count (BDict ps) \<le> max_nodes d" "2 * max_nodes d \<le> N" "max_nodes d \<le> usize_max"
  let ?d1 = "moved d 1 1" and ?n = "length (concat (map pair_enc ps))"
    and ?k = "sum_list (map (\<lambda>(k, v). node_count v) ps)"
  have at0: "drop (pos d) (input d) = [0x64] @ concat (map pair_enc ps) @ 0x65 # rest" using a(1,2) by auto
  note at1 = drop_append_D [OF at0]
  have e: "expect 0x64 (d\<lparr>nodes := Suc (nodes d)\<rparr>) = Inr ?d1"
    using at0 by (subst expect_run) (auto simp: moved_def)
  obtain r' where l: "decode_dict_loop env depth None [] 0 ?d1 r = Inr ([] @ ps, moved ?d1 ?n ?k, r')"
    using decode_dict_loop_run [OF assms(1,2), of ps ?d1 rest depth None "[]" 0 r] assms(3) a at1 by auto
  have f: "expect 0x65 (moved ?d1 ?n ?k) = Inr (moved ?d1 (?n + 1) ?k)"
    using drop_append_D [OF at1] by (subst expect_run [of _ _ rest]) (auto simp: moved_def)
  show "\<exists>r'. decode_value env depth d r =
      Inr (BDict ps, moved d (length (benc (BDict ps))) (node_count (BDict ps)), r')"
    using a e l f by (subst decode_value_enter) (auto simp: decode_dict.simps)
qed

lemma decode_value_run:
  assumes "alloc_ok N env" "N \<le> 2 ^ 32"
  shows "reads_back env N v"
  using assms
  by (induction v rule: benc.induct)
    (simp_all add: reads_back_bytes reads_back_int reads_back_list reads_back_dict)

subsection \<open>The span of the info dictionary\<close>

text \<open>
  The second walk of \<open>decode_torrent_info_span\<close> over the raw bytes. \<open>usize\<close> sums wrap, a slice out
  of range panics, and the recursion carries fuel; the outcomes are the constructors of \<open>run\<close>.
\<close>

datatype 'a run = Ret 'a | Panic | OutOfFuel

definition uadd :: "nat \<Rightarrow> nat \<Rightarrow> nat" where
  "uadd a b = (a + b) mod 2 ^ 64"

fun memchr :: "u8 \<Rightarrow> bytes \<Rightarrow> nat option" where
  "memchr needle [] = None"
| "memchr needle (b # bs) = (if b = needle then Some 0 else map_option Suc (memchr needle bs))"

definition length_prefix :: "bytes \<Rightarrow> nat \<Rightarrow> (nat \<times> nat) option" where
  "length_prefix inp p =
     (case memchr 0x3A (drop p inp) of None \<Rightarrow> None | Some colon \<Rightarrow>
      let len_s = subslice inp p (p + colon) in
      if \<not> utf8_valid len_s then None
      else case parse_usize len_s of Inl _ \<Rightarrow> None | Inr n \<Rightarrow> Some (colon, n))"

function skip_to_e :: "bytes \<Rightarrow> nat \<Rightarrow> nat" where
  "skip_to_e inp p = (if p < length inp \<and> inp ! p \<noteq> 0x65 then skip_to_e inp (p + 1) else p)"
  by pat_completeness auto
termination
  by (relation "measure (\<lambda>(inp, p). length inp - p)") auto

declare skip_to_e.simps [simp del]

fun skip_value :: "nat \<Rightarrow> bytes \<Rightarrow> nat \<Rightarrow> nat option run"
  and skip_items :: "nat \<Rightarrow> bytes \<Rightarrow> nat \<Rightarrow> nat option run"
  and skip_entries :: "nat \<Rightarrow> bytes \<Rightarrow> nat \<Rightarrow> nat option run"
where
  "skip_value 0 inp p = OutOfFuel"
| "skip_value (Suc n) inp p =
     (if p \<ge> length inp then Ret None
      else let b = inp ! p in
        if b = 0x69 then Ret (Some (uadd (skip_to_e inp (p + 1)) 1))
        else if b = 0x6C then skip_items n inp (p + 1)
        else if b = 0x64 then skip_entries n inp (p + 1)
        else if 0x30 \<le> b \<and> b \<le> 0x39 then
          (case length_prefix inp p of
             None \<Rightarrow> Ret None
           | Some (colon, len) \<Rightarrow> Ret (Some (uadd (p + colon + 1) len)))
        else Ret None)"
| "skip_items 0 inp p = OutOfFuel"
| "skip_items (Suc n) inp p =
     (if p < length inp \<and> inp ! p \<noteq> 0x65 then
        (case skip_value n inp p of Ret (Some q) \<Rightarrow> skip_items n inp q | res \<Rightarrow> res)
      else Ret (Some (uadd p 1)))"
| "skip_entries 0 inp p = OutOfFuel"
| "skip_entries (Suc n) inp p =
     (if p < length inp \<and> inp ! p \<noteq> 0x65 then
        (case skip_value n inp p of
           Ret (Some q) \<Rightarrow>
             (case skip_value n inp q of Ret (Some q') \<Rightarrow> skip_entries n inp q' | res \<Rightarrow> res)
         | res \<Rightarrow> res)
      else Ret (Some (uadd p 1)))"

fun find_info_loop :: "nat \<Rightarrow> bytes \<Rightarrow> nat \<Rightarrow> (nat \<times> nat) option run" where
  "find_info_loop 0 inp p = OutOfFuel"
| "find_info_loop (Suc n) inp p =
     (if p < length inp \<and> inp ! p \<noteq> 0x65 then
        (case length_prefix inp p of
           None \<Rightarrow> Ret None
         | Some (colon, key_len) \<Rightarrow>
             let key_start = p + colon + 1; val_start = uadd key_start key_len in
             if val_start < key_start \<or> length inp < val_start then Panic
             else let key = subslice inp key_start val_start in
             (case skip_value (length inp) inp val_start of
                Ret (Some fin) \<Rightarrow>
                  if key = ascii ''info'' then Ret (Some (val_start, fin)) else find_info_loop n inp fin
              | Ret None \<Rightarrow> Ret None
              | Panic \<Rightarrow> Panic
              | OutOfFuel \<Rightarrow> OutOfFuel))
      else Ret None)"

definition find_info_span :: "bytes \<Rightarrow> (nat \<times> nat) option run" where
  "find_info_span inp = (if take 1 inp \<noteq> [0x64] then Ret None else find_info_loop (length inp) inp 1)"

definition decode_torrent_info_span_with_allocation_reservation ::
    "'r alloc_env \<Rightarrow> bytes \<Rightarrow> 'r \<Rightarrow> (bencode_error + ((bvalue \<times> (nat \<times> nat) option) \<times> 'r)) run" where
  "decode_torrent_info_span_with_allocation_reservation env inp r =
     (case decoder_decode_with_allocation_reservation env (decoder_new inp) r of
        Inl e \<Rightarrow> Ret (Inl e)
      | Inr (v, r') \<Rightarrow>
          (case find_info_span inp of
             Ret info_span \<Rightarrow> Ret (Inr ((v, info_span), r'))
           | Panic \<Rightarrow> Panic
           | OutOfFuel \<Rightarrow> OutOfFuel))"

definition decode_torrent_info_span ::
    "'q alloc_env \<Rightarrow> bytes \<Rightarrow> (bencode_error + (bvalue \<times> (nat \<times> nat) option)) run" where
  "decode_torrent_info_span env inp =
     (case decode_torrent_info_span_with_allocation_reservation (always env) inp () of
        Ret (Inr (vs, _)) \<Rightarrow> Ret (Inr vs) | Ret (Inl e) \<Rightarrow> Ret (Inl e)
      | Panic \<Rightarrow> Panic | OutOfFuel \<Rightarrow> OutOfFuel)"

text \<open>On the bytes of a value both walks agree, and the length of the input is enough fuel.\<close>

lemma memchr_first: "needle \<notin> set xs \<Longrightarrow> memchr needle (xs @ needle # ys) = Some (length xs)"
  by (induction xs) auto

lemma length_prefix_run:
  assumes "drop p inp = bytes_enc s @ rest" "length inp \<le> usize_max"
  shows "length_prefix inp p = Some (length (dec_nat (length s)), length s)"
proof -
  let ?k = "dec_nat (length s)"
  have "p + length (bytes_enc s) \<le> length inp"
    using drop_append_length [OF assms(1)] by (simp add: bytes_enc_def)
  then have n: "length s \<le> usize_max" using assms(2) by (simp add: bytes_enc_def)
  have "0x3A \<notin> set ?k" using dec_nat_digits [of "length s"] by (auto simp: list_all_iff is_ascii_digit_def)
  then have "memchr 0x3A (drop p inp) = Some (length ?k)"
    using assms(1) by (simp add: bytes_enc_def memchr_first)
  moreover have "subslice inp p (p + length ?k) = ?k"
    using assms(1) by (simp add: subslice_def bytes_enc_def)
  moreover have "parse_usize ?k = Inr (length s)"
    using n by (intro parse_usize_dec_nat) (simp add: usize_max_def)
  ultimately show ?thesis
    using utf8_valid_digits [OF dec_nat_digits [of "length s"]] by (simp add: length_prefix_def Let_def)
qed

lemma skip_to_e_run:
  "drop p inp = tok @ 0x65 # rest \<Longrightarrow> 0x65 \<notin> set tok \<Longrightarrow> skip_to_e inp p = p + length tok"
proof (induction tok arbitrary: p)
  case Nil
  then show ?case using drop_Cons_D [of p inp "0x65"] by (subst skip_to_e.simps) simp
next
  case (Cons b tok)
  then show ?case
    using drop_Cons_D [of p inp b "tok @ 0x65 # rest"] Cons.IH [of "Suc p"]
    by (subst skip_to_e.simps) auto
qed

lemma uadd_small: "a + b \<le> usize_max \<Longrightarrow> uadd a b = a + b"
  by (simp add: uadd_def usize_max_def)

definition skips :: "bytes \<Rightarrow> bvalue \<Rightarrow> bool" where
  "skips inp v \<longleftrightarrow> (\<forall>p rest n. drop p inp = benc v @ rest \<and> length (benc v) \<le> n \<longrightarrow>
     skip_value n inp p = Ret (Some (p + length (benc v))))"

lemma skipsD:
  "skips inp v \<Longrightarrow> drop p inp = benc v @ rest \<Longrightarrow> length (benc v) \<le> n \<Longrightarrow>
     skip_value n inp p = Ret (Some (p + length (benc v)))"
  by (auto simp: skips_def)

lemma at_end: "drop p inp = xs @ 0x65 # rest \<Longrightarrow> length inp \<le> usize_max \<Longrightarrow> p + length xs + 1 \<le> usize_max"
  using drop_append_length [of p inp "xs @ [0x65]" rest] by simp

lemma skip_items_run:
  "(\<And>v. v \<in> set vs \<Longrightarrow> skips inp v) \<Longrightarrow> drop p inp = concat (map benc vs) @ 0x65 # rest \<Longrightarrow>
     length inp \<le> usize_max \<Longrightarrow> Suc (length (concat (map benc vs))) \<le> n \<Longrightarrow>
     skip_items n inp p = Ret (Some (p + length (concat (map benc vs)) + 1))"
proof (induction vs arbitrary: p n)
  case Nil
  then obtain m where "n = Suc m" by (cases n) auto
  with Nil show ?case
    using drop_Cons_D [of p inp "0x65" rest] at_end [of p inp "[]" rest] by (simp add: uadd_small)
next
  case (Cons v vs)
  then obtain m where n: "n = Suc m" by (cases n) auto
  obtain b bs where b: "benc v = b # bs" "b \<noteq> 0x65" by (rule benc_head)
  have v: "drop p inp = benc v @ concat (map benc vs) @ 0x65 # rest" using Cons.prems(2) by simp
  have s: "skip_value m inp p = Ret (Some (p + length (benc v)))"
    by (rule skipsD [OF _ v]) (use Cons.prems n in auto)
  have "skip_items m inp (p + length (benc v)) =
      Ret (Some (p + length (benc v) + length (concat (map benc vs)) + 1))"
    by (rule Cons.IH) (use Cons.prems drop_append_D [OF v] n b in auto)
  then show ?case using drop_Cons_D [of p inp b] v b n s by (simp add: add.assoc)
qed

lemma skip_entries_run:
  "(\<And>k v. (k, v) \<in> set ps \<Longrightarrow> skips inp v) \<Longrightarrow> (\<And>k. skips inp (BBytes k)) \<Longrightarrow>
     drop p inp = concat (map pair_enc ps) @ 0x65 # rest \<Longrightarrow> length inp \<le> usize_max \<Longrightarrow>
     Suc (length (concat (map pair_enc ps))) \<le> n \<Longrightarrow>
     skip_entries n inp p = Ret (Some (p + length (concat (map pair_enc ps)) + 1))"
proof (induction ps arbitrary: p n)
  case Nil
  then obtain m where "n = Suc m" by (cases n) auto
  with Nil show ?case
    using drop_Cons_D [of p inp "0x65" rest] at_end [of p inp "[]" rest] by (simp add: uadd_small)
next
  case (Cons kv ps)
  then obtain m where n: "n = Suc m" by (cases n) auto
  obtain k v where kv: "kv = (k, v)" by fastforce
  obtain b bs where b: "benc (BBytes k) = b # bs" "b \<noteq> 0x65" by (rule benc_head)
  have k: "drop p inp = benc (BBytes k) @ benc v @ concat (map pair_enc ps) @ 0x65 # rest"
    using Cons.prems(3) kv by simp
  note v = drop_append_D [OF k]
  have s: "skip_value m inp p = Ret (Some (p + length (benc (BBytes k))))"
    by (rule skipsD [OF Cons.prems(2) k]) (use Cons.prems n kv in auto)
  have t: "skip_value m inp (p + length (benc (BBytes k))) =
      Ret (Some (p + length (benc (BBytes k)) + length (benc v)))"
    by (rule skipsD [OF _ v]) (use Cons.prems n kv in auto)
  have "skip_entries m inp (p + length (benc (BBytes k)) + length (benc v)) =
      Ret (Some (p + length (benc (BBytes k)) + length (benc v) + length (concat (map pair_enc ps)) + 1))"
    by (rule Cons.IH) (use Cons.prems drop_append_D [OF v] n b kv in auto)
  then show ?case using drop_Cons_D [of p inp b] k b n s t kv by (simp add: add.assoc)
qed

lemma skip_bytes_run: assumes "length inp \<le> usize_max" shows "skips inp (BBytes s)"
  unfolding skips_def
proof (intro allI impI, elim conjE)
  fix p rest n
  assume at: "drop p inp = benc (BBytes s) @ rest" and n: "length (benc (BBytes s)) \<le> n"
  obtain b bs where b: "bytes_enc s = b # bs" "is_ascii_digit b" by (rule bytes_enc_head)
  with n obtain m where "n = Suc m" by (cases n) auto
  moreover have "p + length (bytes_enc s) \<le> length inp"
    using drop_append_length [OF at] b by simp
  moreover have "length_prefix inp p = Some (length (dec_nat (length s)), length s)"
    using at assms by (intro length_prefix_run) simp_all
  moreover have "b \<noteq> 0x69" "b \<noteq> 0x6C" "b \<noteq> 0x64" using b(2) by (auto simp: is_ascii_digit_def)
  moreover have "p < length inp \<and> inp ! p = b" using drop_Cons_D [of p inp b] at b by simp
  ultimately show "skip_value n inp p = Ret (Some (p + length (benc (BBytes s))))"
    using b(2) assms by (simp add: is_ascii_digit_def) (simp add: bytes_enc_def uadd_small)
qed

lemma skip_value_run:
  assumes "length inp \<le> usize_max"
  shows "skips inp v"
proof (induction v rule: benc.induct)
  case (1 s)
  show ?case using assms by (rule skip_bytes_run)
next
  case (2 k)
  show ?case unfolding skips_def
  proof (intro allI impI, elim conjE)
    fix p rest n
    assume at: "drop p inp = benc (BInt k) @ rest" and n: "length (benc (BInt k)) \<le> n"
    then obtain m where "n = Suc m" by (cases n) (auto simp: int_enc_def)
    moreover have t: "drop (p + 1) inp = dec_int k @ 0x65 # rest"
      using at drop_append_D [of p inp "[0x69]"] by (simp add: int_enc_def)
    moreover have "skip_to_e inp (p + 1) = p + 1 + length (dec_int k)"
      using t dec_int_no_e by (rule skip_to_e_run)
    ultimately show "skip_value n inp p = Ret (Some (p + length (benc (BInt k))))"
      using drop_Cons_D [of p inp "0x69"] at at_end [OF t assms] by (simp add: int_enc_def uadd_small)
  qed
next
  case (3 vs)
  show ?case unfolding skips_def
  proof (intro allI impI, elim conjE)
    fix p rest n
    assume at: "drop p inp = benc (BList vs) @ rest" and n: "length (benc (BList vs)) \<le> n"
    then obtain m where m: "n = Suc m" by (cases n) auto
    have t: "drop (p + 1) inp = concat (map benc vs) @ 0x65 # rest"
      using at drop_append_D [of p inp "[0x6C]"] by simp
    then show "skip_value n inp p = Ret (Some (p + length (benc (BList vs))))"
      using skip_items_run [OF 3 t assms, of m] drop_Cons_D [of p inp "0x6C"] at m n by simp
  qed
next
  case (4 ps)
  show ?case unfolding skips_def
  proof (intro allI impI, elim conjE)
    fix p rest n
    assume at: "drop p inp = benc (BDict ps) @ rest" and n: "length (benc (BDict ps)) \<le> n"
    then obtain m where m: "n = Suc m" by (cases n) auto
    have t: "drop (p + 1) inp = concat (map pair_enc ps) @ 0x65 # rest"
      using at drop_append_D [of p inp "[0x64]"] by simp
    have "\<And>k v. (k, v) \<in> set ps \<Longrightarrow> skips inp v" using 4 by auto
    then show "skip_value n inp p = Ret (Some (p + length (benc (BDict ps))))"
      using skip_entries_run [OF _ skip_bytes_run [OF assms] t assms, of m]
        drop_Cons_D [of p inp "0x64"] at m n by simp
  qed
qed

text \<open>The span found is that of the value stored under the key, if there is one.\<close>

definition span_ok :: "bytes \<Rightarrow> bvalue option \<Rightarrow> (nat \<times> nat) option \<Rightarrow> bool" where
  "span_ok inp iv sp =
     (case sp of None \<Rightarrow> iv = None | Some (a, z) \<Rightarrow> \<exists>v. iv = Some v \<and> subslice inp a z = encode v)"

lemma find_info_loop_run:
  "drop p inp = concat (map pair_enc ps) @ 0x65 # rest \<Longrightarrow> length inp \<le> usize_max \<Longrightarrow> length ps < n \<Longrightarrow>
     \<exists>sp. find_info_loop n inp p = Ret sp \<and> span_ok inp (bget (BDict ps) (ascii ''info'')) sp"
proof (induction ps arbitrary: p n)
  case Nil
  then show ?case using drop_Cons_D [of p inp "0x65" rest] by (cases n) (auto simp: bget_def span_ok_def)
next
  case (Cons kv ps)
  obtain m where n: "n = Suc m" using Cons.prems(3) by (cases n) auto
  obtain k v where kv: "kv = (k, v)" by fastforce
  obtain b bs where b: "benc (BBytes k) = b # bs" "b \<noteq> 0x65" by (rule benc_head)
  have k: "drop p inp = bytes_enc k @ benc v @ concat (map pair_enc ps) @ 0x65 # rest"
    using Cons.prems(1) kv by simp
  note v = drop_append_D [OF k] and k1 = drop_append_D [of p inp "dec_nat (length k) @ [0x3A]"]
  let ?ks = "p + length (dec_nat (length k)) + 1" and ?q = "p + length (bytes_enc k)"
  have len: "?q + length (benc v) \<le> length inp" using drop_append_length [OF v] by simp
  then have q: "uadd ?ks (length k) = ?q" using Cons.prems(2) by (simp add: uadd_small bytes_enc_def)
  have key: "subslice inp ?ks ?q = k" using k k1 by (simp add: subslice_def bytes_enc_def)
  have s: "skip_value (length inp) inp ?q = Ret (Some (?q + length (benc v)))"
    using len by (intro skipsD [OF skip_value_run [OF Cons.prems(2)] v]) simp
  have val: "subslice inp ?q (?q + length (benc v)) = benc v" using v by (simp add: subslice_def)
  have e: "p < length inp \<and> inp ! p \<noteq> 0x65" using drop_Cons_D [of p inp b] k b by simp
  have ord: "\<not> (?q < ?ks \<or> length inp < ?q)" using len by (simp add: bytes_enc_def)
  have "find_info_loop n inp p = (if subslice inp ?ks ?q = ascii ''info''
      then Ret (Some (?q, ?q + length (benc v))) else find_info_loop m inp (?q + length (benc v)))"
    unfolding n find_info_loop.simps Let_def
    by (simp only: e length_prefix_run [OF k Cons.prems(2)] q ord s option.simps prod.case run.simps if_True if_False simp_thms)
  note step = this [unfolded key]
  show ?case
  proof (cases "k = ascii ''info''")
    case True
    with step val kv show ?thesis by (simp add: bget_def span_ok_def encode_benc)
  next
    case False
    then have "bget (BDict (kv # ps)) (ascii ''info'') = bget (BDict ps) (ascii ''info'')"
      by (simp add: bget_def kv)
    moreover note Cons.IH [OF drop_append_D [OF v] Cons.prems(2), of m]
    moreover have "length ps < m" using Cons.prems(3) n by simp
    ultimately show ?thesis using step False by simp
  qed
qed


lemma find_info_span_run:
  assumes "length (encode v) \<le> usize_max"
  shows "\<exists>sp. find_info_span (encode v) = Ret sp \<and> span_ok (encode v) (bget v (ascii ''info'')) sp"
proof (cases v)
  case (BDict ps)
  have "length ps \<le> length (concat (map pair_enc ps))"
    by (induction ps) (auto simp: bytes_enc_def)
  then show ?thesis
    using BDict assms find_info_loop_run [of 1 "encode v" ps "[]" "length (encode v)"]
    by (simp add: find_info_span_def encode_benc)
next
  case (BBytes s)
  obtain b bs where "bytes_enc s = b # bs" "is_ascii_digit b" by (rule bytes_enc_head)
  with BBytes show ?thesis
    by (auto simp: find_info_span_def encode_benc span_ok_def bget_def is_ascii_digit_def)
qed (auto simp: find_info_span_def encode_benc span_ok_def bget_def int_enc_def)

subsection \<open>Properties\<close>

text \<open>
  C1. Decoding is sound for every allocator and every admission closure: what a successful call
  returns re-encodes to exactly the input, has at most \<open>max_nodes\<close> nodes, stays within the depth and
  string limits, holds only 64-bit integers, and its dictionaries have strictly ascending keys when
  the strict mode is on. The decoder starts at position 0, with any limits set by the builders.
\<close>

theorem decode_sound:
  assumes "decoder_decode_with_allocation_reservation env
      (with_max_depth md (with_max_string ms (with_max_nodes mn (with_strict_dict_keys strict (decoder_new inp))))) r
      = Inr (v, r')"
  shows "encode v = inp \<and> node_count v \<le> mn \<and> fits md ms strict 0 v"
  using decoder_decode_sound [OF assms]
  by (simp add: with_max_depth_def with_max_string_def with_max_nodes_def with_strict_dict_keys_def decoder_new_def)

text \<open>An environment for concrete runs: every request is admitted and granted exactly.\<close>

definition exact_env :: "unit alloc_env" where
  "exact_env = \<lparr>reserve_fn = (\<lambda>_ _. (True, ())), try_reserve_exact = (\<lambda>len additional. Some (len + additional)),
     size_value = 24, size_pair = 40\<rparr>"

definition sample_bytes :: bytes where
  "sample_bytes = ascii ''d4:infod3:keyi-7eee''"

definition sample_value :: bvalue where
  "sample_value = BDict [(ascii ''info'', BDict [(ascii ''key'', BInt (- 7))])]"

lemmas run_simps = decode_rules peek_def expect_def consume_def decode_int_def scan_int_token.simps
  decode_bytes_def decode_length_def scan_length.simps subslice_def utf8_valid.simps parse_usize_def
  parse_i64_def parse_digits.simps is_ascii_digit_def digit_val_def reserve_vec_growth_def exact_env_def
  MAX_INTEGER_TOKEN_BYTES_def MAX_LENGTH_PREFIX_DIGITS_def usize_max_def Let_def map_sum_def
  decoder_decode_with_allocation_reservation_def decoder_new_def ascii_def sample_bytes_def sample_value_def
  DEFAULT_MAX_NODES_def DEFAULT_MAX_DEPTH_def DEFAULT_MAX_STRING_def

lemma sample_decode:
  "decoder_decode_with_allocation_reservation exact_env
     (with_max_depth 2 (with_max_string 9 (with_max_nodes 3 (with_strict_dict_keys True (decoder_new sample_bytes))))) ()
     = Inr (sample_value, ())"
  by (simp add: run_simps with_max_depth_def with_max_string_def with_max_nodes_def with_strict_dict_keys_def)

lemma sample_decode_default:
  "decode_with_allocation_reservation exact_env sample_bytes () = Inr (sample_value, ())"
  by (simp add: run_simps decode_with_allocation_reservation_def)

theorem decode_sound_witness:
  "encode sample_value = sample_bytes \<and> node_count sample_value \<le> 3 \<and> fits 2 9 True 0 sample_value"
  using decode_sound [OF sample_decode] by simp

text \<open>
  C14. Decoding is complete: with an allocator that grants what is asked (up to two million
  elements), \<open>decode\<close> returns every value that respects the default limits from its encoding. The
  decoder accepts nothing else by C1, so encoder and decoder are inverse to each other.
\<close>

theorem decode_encode:
  assumes "alloc_ok (2 * DEFAULT_MAX_NODES) (always env)"
    and "node_count v \<le> DEFAULT_MAX_NODES" and "fits DEFAULT_MAX_DEPTH DEFAULT_MAX_STRING True 0 v"
    and "length (encode v) < 2 ^ 64"
  shows "decode env (encode v) = Inr v"
proof -
  let ?d = "decoder_new (encode v)"
  have "reads_back (always env) (2 * DEFAULT_MAX_NODES) v"
    by (rule decode_value_run [OF assms(1)]) (simp add: DEFAULT_MAX_NODES_def)
  then obtain r' where "decode_value (always env) 0 ?d () = Inr (v, moved ?d (length (benc v)) (node_count v), r')"
    by (rule reads_backD [of _ _ _ ?d "[]" 0 "()"])
      (use assms in \<open>auto simp: decoder_new_def encode_benc usize_max_def\<close>)
  then show ?thesis
    by (simp add: decode_def decoder_decode_def decoder_decode_with_allocation_reservation_def
        decoder_new_def encode_benc)
qed

lemma exact_env_ok: "alloc_ok N (always exact_env)"
  by (simp add: alloc_ok_def always_def exact_env_def)

lemma sample_encode: "encode sample_value = sample_bytes"
  by (simp add: encode_benc sample_value_def sample_bytes_def bytes_enc_def int_enc_def dec_int_def
      dec_nat.simps digit_chr_def ascii_def)

theorem decode_encode_witness: "decode exact_env (encode sample_value) = Inr sample_value"
proof (rule decode_encode [OF exact_env_ok])
  show "length (encode sample_value) < 2 ^ 64" by (simp add: sample_encode sample_bytes_def ascii_def)
qed (simp_all add: run_simps i64_range_def)

text \<open>
  C13. The second walk that locates the info dictionary never panics, never overruns and terminates
  on an input the decoder accepted: it returns no span exactly when the top-level dictionary has no
  \<open>info\<close> key, and otherwise a span whose bytes are the encoding of the value decoded under that key
  (the bytes the infohash is taken over).
\<close>

theorem info_span_correct:
  assumes "decode_with_allocation_reservation env inp r = Inr (v, r')" and "length inp < 2 ^ 64"
  shows "\<exists>sp. decode_torrent_info_span_with_allocation_reservation env inp r = Ret (Inr ((v, sp), r')) \<and>
    (case sp of
       None \<Rightarrow> bget v (ascii ''info'') = None
     | Some (a, z) \<Rightarrow> \<exists>iv. bget v (ascii ''info'') = Some iv \<and> subslice inp a z = encode iv)"
proof -
  have inp: "encode v = inp"
    using assms(1) decoder_decode_sound(1) [of env "decoder_new inp" r v r']
    by (simp add: decode_with_allocation_reservation_def decoder_new_def)
  then have "length (encode v) \<le> usize_max" using assms(2) by (simp add: usize_max_def)
  from find_info_span_run [OF this] obtain sp where
    "find_info_span inp = Ret sp" "span_ok inp (bget v (ascii ''info'')) sp"
    using inp by auto
  then show ?thesis
    using assms(1)
    by (simp add: decode_torrent_info_span_with_allocation_reservation_def
        decode_with_allocation_reservation_def span_ok_def)
qed

theorem info_span_correct_witness:
  "\<exists>sp. decode_torrent_info_span_with_allocation_reservation exact_env sample_bytes () =
      Ret (Inr ((sample_value, sp), ())) \<and>
    (case sp of
       None \<Rightarrow> bget sample_value (ascii ''info'') = None
     | Some (a, z) \<Rightarrow> \<exists>iv. bget sample_value (ascii ''info'') = Some iv \<and> subslice sample_bytes a z = encode iv)"
  by (rule info_span_correct [OF sample_decode_default]) (simp add: sample_bytes_def ascii_def)

end
