(* ===== verification/Piece_Map.thy ===== *)
theory Piece_Map
  imports TNG_Prelude
begin

text \<open>
  The piece map of \<open>crates/rt-piece-map\<close> (\<open>map.rs\<close>, \<open>error.rs\<close>): where the bytes of a piece or of a
  peer's block request lie in the files of a torrent. Offsets are the \<open>u64\<close> words of the source, with
  its checked additions; the path of a file is cloned and never inspected, so it is a type parameter.
  The reference is the content stream: the concatenation of the files.
\<close>

subsection \<open>Data\<close>

datatype piece_map_error =
    PieceOutOfRange u32 u32
  | BlockTooLarge u32 u32
  | ZeroRequestLength
  | RequestOutOfBounds u32 u32 u32
  | ZeroPieceLength
  | ZeroTotalLength
  | PieceLengthTooLarge u64
  | PieceCountTooLarge u64
  | NonContiguousFileSpan u32 u64 u64
  | DuplicateFileIndex u32
  | UnknownPaddingFileIndex u32
  | IntegerOverflow string
  | NoV2FileForPiece u32
  | V2FileNotAligned u32 u64
  | V2FileOverlap u32

definition MAX_BLOCK_SIZE :: u32 where
  "MAX_BLOCK_SIZE = 16 * 1024"

record 'p file_region =
  fr_file_index :: u32
  fr_path :: 'p
  fr_file_offset :: u64
  fr_piece_offset :: u64
  fr_length :: u64
  fr_pad :: bool

record 'p file_span =
  fs_file_index :: u32
  fs_path :: 'p
  fs_content_offset :: u64
  fs_length :: u64

record 'p piece_region =
  pr_file_index :: u32
  pr_path :: 'p
  pr_file_offset :: u64
  pr_length :: u32
  pr_pad :: bool

record 'p piece_map =
  piece_length :: u64
  total_length :: u64
  piece_count :: u32
  files :: "'p file_span list"
  padding_file_indices :: "u32 list"

subsection \<open>Construction\<close>

text \<open>The loop over the file spans, from the expected offset.\<close>

fun check_spans :: "u64 \<Rightarrow> 'p file_span list \<Rightarrow> piece_map_error + u64" where
  "check_spans expected [] = Inr expected"
| "check_spans expected (f # fs) =
     (if fs_content_offset f \<noteq> expected
      then Inl (NonContiguousFileSpan (fs_file_index f) expected (fs_content_offset f))
      else case checked_add expected (fs_length f) of
             None \<Rightarrow> Inl (IntegerOverflow ''file span offset'')
           | Some next \<Rightarrow> check_spans next fs)"

text \<open>\<open>windows(2).find_map\<close>: the first of two equal neighbours.\<close>

fun adjacent_dup :: "'a list \<Rightarrow> 'a option" where
  "adjacent_dup (x # y # zs) = (if x = y then Some x else adjacent_dup (y # zs))"
| "adjacent_dup _ = None"

definition new_with_padding ::
    "u64 \<Rightarrow> 'p file_span list \<Rightarrow> u32 list \<Rightarrow> piece_map_error + 'p piece_map" where
  "new_with_padding pl fs pads =
     (if pl = 0 then Inl ZeroPieceLength
      else if pl > u64_from (- 1) then Inl (PieceLengthTooLarge pl)
      else case check_spans 0 fs of Inl e \<Rightarrow> Inl e | Inr total_len \<Rightarrow>
      if total_len = 0 then Inl ZeroTotalLength
      else let file_indices = sort (map fs_file_index fs) in
      case adjacent_dup file_indices of Some d \<Rightarrow> Inl (DuplicateFileIndex d) | None \<Rightarrow>
      case checked_add (total_len div pl) (if is_multiple_of total_len pl then 0 else 1) of
        None \<Rightarrow> Inl (IntegerOverflow ''piece count'')
      | Some count64 \<Rightarrow>
      case u32_try_from count64 of None \<Rightarrow> Inl (PieceCountTooLarge count64) | Some count \<Rightarrow>
      let padding = remdups_adj (sort pads) in
      case find (\<lambda>i. \<not> is_ok (binary_search file_indices i)) padding of
        Some unknown \<Rightarrow> Inl (UnknownPaddingFileIndex unknown)
      | None \<Rightarrow> Inr \<lparr>piece_length = pl, total_length = total_len, piece_count = count, files = fs,
                    padding_file_indices = padding\<rparr>)"

definition piece_map_new :: "u64 \<Rightarrow> 'p file_span list \<Rightarrow> piece_map_error + 'p piece_map" where
  "piece_map_new pl fs = new_with_padding pl fs []"

definition file_is_padding :: "'p piece_map \<Rightarrow> u32 \<Rightarrow> bool" where
  "file_is_padding m i = is_ok (binary_search (padding_file_indices m) i)"

subsection \<open>Pieces\<close>

definition piece_len :: "'p piece_map \<Rightarrow> u32 \<Rightarrow> piece_map_error + u32" where
  "piece_len m piece =
     (if piece \<ge> piece_count m then Inl (PieceOutOfRange piece (piece_count m))
      else case checked_mul (u64_from piece) (piece_length m) of
             None \<Rightarrow> Inl (IntegerOverflow ''piece start'')
           | Some start \<Rightarrow>
               let remaining = total_length m - start in Inr (ucast (min remaining (piece_length m))))"

definition piece_content_range :: "'p piece_map \<Rightarrow> u32 \<Rightarrow> piece_map_error + (u64 \<times> u64)" where
  "piece_content_range m piece =
     (if piece \<ge> piece_count m then Inl (PieceOutOfRange piece (piece_count m))
      else case checked_mul (u64_from piece) (piece_length m) of
             None \<Rightarrow> Inl (IntegerOverflow ''piece start'')
           | Some start \<Rightarrow>
      (case checked_add start (piece_length m) of
         None \<Rightarrow> Inl (IntegerOverflow ''piece end'')
       | Some fin \<Rightarrow> Inr (start, min fin (total_length m))))"

definition first_file_at_or_after :: "'p piece_map \<Rightarrow> u64 \<Rightarrow> nat" where
  "first_file_at_or_after m start =
     partition_point (\<lambda>f. saturating_add (fs_content_offset f) (fs_length f) \<le> start) (files m)"

fun file_regions_loop ::
    "'p piece_map \<Rightarrow> u64 \<Rightarrow> u64 \<Rightarrow> 'p file_span list \<Rightarrow> 'p file_region list
       \<Rightarrow> piece_map_error + 'p file_region list" where
  "file_regions_loop m piece_start piece_end [] regions = Inr regions"
| "file_regions_loop m piece_start piece_end (f # fs) regions =
     (if fs_content_offset f \<ge> piece_end then Inr regions
      else case checked_add (fs_content_offset f) (fs_length f) of
             None \<Rightarrow> Inl (IntegerOverflow ''file span end'')
           | Some file_end \<Rightarrow>
      let overlap_start = max piece_start (fs_content_offset f);
          overlap_end = min piece_end file_end in
      if overlap_start \<ge> overlap_end then file_regions_loop m piece_start piece_end fs regions
      else file_regions_loop m piece_start piece_end fs
             (regions @ [\<lparr>fr_file_index = fs_file_index f, fr_path = fs_path f,
                fr_file_offset = overlap_start - fs_content_offset f,
                fr_piece_offset = overlap_start - piece_start,
                fr_length = overlap_end - overlap_start,
                fr_pad = file_is_padding m (fs_file_index f)\<rparr>]))"

definition piece_to_file_regions :: "'p piece_map \<Rightarrow> u32 \<Rightarrow> piece_map_error + 'p file_region list" where
  "piece_to_file_regions m piece =
     (case piece_content_range m piece of Inl e \<Rightarrow> Inl e | Inr (piece_start, piece_end) \<Rightarrow>
      let start_idx = first_file_at_or_after m piece_start in
      file_regions_loop m piece_start piece_end (drop start_idx (files m)) [])"

subsection \<open>Pieces of files\<close>

fun piece_ranges_loop ::
    "'p piece_map \<Rightarrow> u32 list \<Rightarrow> 'p file_span list \<Rightarrow> (u32 \<times> u32) list
       \<Rightarrow> piece_map_error + (u32 \<times> u32) list" where
  "piece_ranges_loop m indices [] ranges = Inr ranges"
| "piece_ranges_loop m indices (f # fs) ranges =
     (if \<not> is_ok (binary_search indices (fs_file_index f)) \<or> fs_length f = 0
         \<or> file_is_padding m (fs_file_index f)
      then piece_ranges_loop m indices fs ranges
      else case checked_add (fs_content_offset f) (fs_length f) of
             None \<Rightarrow> Inl (IntegerOverflow ''file span end'')
           | Some file_end \<Rightarrow>
      case u32_try_from (fs_content_offset f div piece_length m) of
        None \<Rightarrow> Inl (IntegerOverflow ''file piece start'')
      | Some first \<Rightarrow>
      case u32_try_from (min (div_ceil file_end (piece_length m)) (u64_from (piece_count m))) of
        None \<Rightarrow> Inl (IntegerOverflow ''file piece end'')
      | Some fin \<Rightarrow>
      piece_ranges_loop m indices fs (if first < fin then ranges @ [(first, fin)] else ranges))"

definition piece_ranges_for_file_indices ::
    "'p piece_map \<Rightarrow> u32 list \<Rightarrow> piece_map_error + (u32 \<times> u32) list" where
  "piece_ranges_for_file_indices m indices = piece_ranges_loop m indices (files m) []"

definition lookup_file :: "'p piece_map \<Rightarrow> u32 \<Rightarrow> 'p file_span option" where
  "lookup_file m i =
     (if unat i < length (files m) \<and> fs_file_index (files m ! unat i) = i
      then Some (files m ! unat i)
      else find (\<lambda>f. fs_file_index f = i) (files m))"

definition piece_range_for_file_bytes ::
    "'p piece_map \<Rightarrow> u32 \<Rightarrow> u64 \<Rightarrow> u64 \<Rightarrow> (u32 \<times> u32) option" where
  "piece_range_for_file_bytes m i start fin0 =
     (case lookup_file m i of None \<Rightarrow> None | Some f \<Rightarrow>
      let fin = min fin0 (fs_length f) in
      if start \<ge> fin then None
      else case checked_add (fs_content_offset f) start of None \<Rightarrow> None | Some content_start \<Rightarrow>
      case checked_add (fs_content_offset f) fin of None \<Rightarrow> None | Some content_end \<Rightarrow>
      case u32_try_from (content_start div piece_length m) of None \<Rightarrow> None | Some first \<Rightarrow>
      case u32_try_from (min (div_ceil content_end (piece_length m)) (u64_from (piece_count m))) of
        None \<Rightarrow> None
      | Some last_piece \<Rightarrow> if first < last_piece then Some (first, last_piece) else None)"

subsection \<open>Block requests\<close>

fun piece_regions_loop ::
    "'p piece_map \<Rightarrow> u64 \<Rightarrow> u64 \<Rightarrow> 'p file_span list \<Rightarrow> 'p piece_region list
       \<Rightarrow> piece_map_error + 'p piece_region list" where
  "piece_regions_loop m request_start request_end [] regions = Inr regions"
| "piece_regions_loop m request_start request_end (f # fs) regions =
     (if fs_content_offset f \<ge> request_end then Inr regions
      else case checked_add (fs_content_offset f) (fs_length f) of
             None \<Rightarrow> Inl (IntegerOverflow ''file span end'')
           | Some file_end \<Rightarrow>
      let overlap_start = max request_start (fs_content_offset f);
          overlap_end = min request_end file_end in
      if overlap_start \<ge> overlap_end then piece_regions_loop m request_start request_end fs regions
      else piece_regions_loop m request_start request_end fs
             (regions @ [\<lparr>pr_file_index = fs_file_index f, pr_path = fs_path f,
                pr_file_offset = overlap_start - fs_content_offset f,
                pr_length = ucast (overlap_end - overlap_start),
                pr_pad = file_is_padding m (fs_file_index f)\<rparr>]))"

definition validate_request ::
    "'p piece_map \<Rightarrow> u32 \<Rightarrow> u32 \<Rightarrow> u32 \<Rightarrow> piece_map_error + 'p piece_region list" where
  "validate_request m piece beg len =
     (if len = 0 then Inl ZeroRequestLength
      else if len > MAX_BLOCK_SIZE then Inl (BlockTooLarge len MAX_BLOCK_SIZE)
      else case piece_len m piece of Inl e \<Rightarrow> Inl e | Inr pl \<Rightarrow>
      if u64_from beg + u64_from len > u64_from pl then Inl (RequestOutOfBounds beg len pl)
      else case checked_mul (u64_from piece) (piece_length m) of
             None \<Rightarrow> Inl (IntegerOverflow ''piece start'')
           | Some piece_start \<Rightarrow>
      case checked_add piece_start (u64_from beg) of
        None \<Rightarrow> Inl (IntegerOverflow ''request start'')
      | Some request_start \<Rightarrow>
      case checked_add request_start (u64_from len) of
        None \<Rightarrow> Inl (IntegerOverflow ''request end'')
      | Some request_end \<Rightarrow>
      let start_idx = first_file_at_or_after m request_start in
      piece_regions_loop m request_start request_end (drop start_idx (files m)) [])"

subsection \<open>The invariant of a built map\<close>

fun contiguous :: "nat \<Rightarrow> 'p file_span list \<Rightarrow> bool" where
  "contiguous off [] \<longleftrightarrow> True"
| "contiguous off (f # fs) \<longleftrightarrow> unat (fs_content_offset f) = off \<and> contiguous (off + unat (fs_length f)) fs"

definition spans_len :: "'p file_span list \<Rightarrow> nat" where
  "spans_len fs = sum_list (map (\<lambda>f. unat (fs_length f)) fs)"

lemma spans_len_simps [simp]:
  "spans_len [] = 0"
  "spans_len (f # fs) = unat (fs_length f) + spans_len fs"
  "spans_len (fs @ gs) = spans_len fs + spans_len gs"
  by (simp_all add: spans_len_def)

definition div_up :: "nat \<Rightarrow> nat \<Rightarrow> nat" where
  "div_up t p = (t + p - 1) div p"

definition piece_map_inv :: "'p piece_map \<Rightarrow> bool" where
  "piece_map_inv m \<longleftrightarrow>
     0 < unat (piece_length m) \<and> unat (piece_length m) < 2 ^ 32 \<and>
     contiguous 0 (files m) \<and> unat (total_length m) = spans_len (files m) \<and> 0 < unat (total_length m) \<and>
     distinct (map fs_file_index (files m)) \<and>
     unat (piece_count m) = div_up (unat (total_length m)) (unat (piece_length m)) \<and>
     sorted (padding_file_indices m) \<and> set (padding_file_indices m) \<subseteq> fs_file_index ` set (files m)"

lemma unat_u64_bound: "unat (x :: u64) < 2 ^ 64"
  by (rule order.strict_trans2 [OF unsigned_less]) simp

lemma unat_u32_bound: "unat (x :: u32) < 2 ^ 32"
  by (rule order.strict_trans2 [OF unsigned_less]) simp

lemma check_spans_Inr_iff:
  "check_spans expected fs = Inr t \<longleftrightarrow>
     contiguous (unat expected) fs \<and> unat t = unat expected + spans_len fs"
proof (induction fs arbitrary: expected)
  case Nil
  then show ?case by (auto simp: word_unat_eq_iff)
next
  case (Cons f fs)
  show ?case
  proof (cases "checked_add expected (fs_length f)")
    case None
    then have "2 ^ 64 \<le> unat expected + unat (fs_length f)" by (simp add: checked_add_None_iff)
    with None unat_u64_bound [of t] show ?thesis by (auto simp: word_unat_eq_iff)
  next
    case (Some n)
    then have "unat n = unat expected + unat (fs_length f)" by (simp add: checked_add_Some_iff)
    with Some Cons.IH [of n] show ?thesis by (auto simp: word_unat_eq_iff)
  qed
qed

lemma check_spans_Inl:
  "check_spans expected fs = Inl e \<Longrightarrow> \<not> (contiguous (unat expected) fs \<and> unat expected + spans_len fs < 2 ^ 64)"
proof
  assume e: "check_spans expected fs = Inl e"
    and c: "contiguous (unat expected) fs \<and> unat expected + spans_len fs < 2 ^ 64"
  define t where "t = (of_nat (unat expected + spans_len fs) :: u64)"
  have "unat t = unat expected + spans_len fs" using c by (simp add: t_def unat_of_nat del: of_nat_add)
  with c have "check_spans expected fs = Inr t" by (simp add: check_spans_Inr_iff)
  with e show False by simp
qed

lemma adjacent_dup_None: "sorted xs \<Longrightarrow> adjacent_dup xs = None \<longleftrightarrow> distinct (xs :: 'a::linorder list)"
  by (induction xs rule: adjacent_dup.induct) (auto simp: less_le)

lemma div_up_eq: "0 < p \<Longrightarrow> div_up t p = t div p + (if p dvd t then 0 else 1)"
proof -
  assume p: "0 < p"
  show ?thesis
  proof (cases "p dvd t")
    case True
    then obtain k where t: "t = p * k" by blast
    then have "t + p - 1 = (p - 1) + k * p" using p by (simp add: mult.commute)
    then have "(t + p - 1) div p = k + (p - 1) div p" using p div_mult_self1 [of p "p - 1" k] by (simp only:)
    with p t show ?thesis by (simp add: div_up_def)
  next
    case False
    with p have r: "0 < t mod p" by (simp add: dvd_eq_mod_eq_0)
    have "t + p - 1 = (t mod p - 1) + (t div p + 1) * p"
      using r by (simp add: add_mult_distrib)
    then have "(t + p - 1) div p = t div p + 1 + (t mod p - 1) div p"
      using p div_mult_self1 [of p "t mod p - 1" "t div p + 1"] by (simp only:)
    moreover have "t mod p - 1 < p" using p mod_less_divisor [of p t] by linarith
    ultimately show ?thesis using False by (simp add: div_up_def)
  qed
qed

lemma div_up_less_iff: "0 < p \<Longrightarrow> i < div_up t p \<longleftrightarrow> i * p < t"
proof -
  assume p: "0 < p"
  have "i < div_up t p \<longleftrightarrow> (i + 1) * p \<le> t + p - 1"
    using p less_eq_div_iff_mult_less_eq [of p "i + 1" "t + p - 1"] by (simp add: Suc_le_eq div_up_def)
  then show ?thesis using p by auto
qed

lemma unat_div_up: "b \<noteq> 0 \<Longrightarrow> unat (div_ceil a b) = div_up (unat a) (unat b)"
  by (simp add: unat_div_ceil div_up_def)

lemma find_None_all: "find P xs = None \<longleftrightarrow> (\<forall>x \<in> set xs. \<not> P x)"
  by (induction xs) auto

lemma u64_from_less: "u64_from x < y \<longleftrightarrow> unat x < unat y"
  by (simp add: word_less_nat_alt unat_u64_from)

lemma u32_max_u64: "unat (u64_from (- 1)) = 2 ^ 32 - 1"
  by (simp add: unat_u64_from unsigned_minus_1_eq_mask mask_eq_exp_minus_1)

lemma piece_count_sum:
  assumes "pl \<noteq> (0 :: u64)"
    and "checked_add (t div pl) (if is_multiple_of t pl then 0 else 1) = Some c"
  shows "unat c = div_up (unat t) (unat pl)"
proof -
  have "0 < unat pl" using assms(1) by (simp add: unat_gt_0)
  with assms(2) show ?thesis
    by (auto simp: checked_add_Some_iff div_up_eq is_multiple_of_iff unat_div split: if_splits)
qed

lemma new_with_padding_Inr:
  assumes "new_with_padding pl fs pads = Inr m"
  shows "piece_map_inv m" "piece_length m = pl" "files m = fs" "set (padding_file_indices m) = set pads"
proof -
  from assms obtain t c64 c where
    pl: "pl \<noteq> 0" "\<not> pl > u64_from (- 1)" and t: "check_spans 0 fs = Inr t" "t \<noteq> 0" and
    d: "adjacent_dup (sort (map fs_file_index fs)) = None" and
    c: "checked_add (t div pl) (if is_multiple_of t pl then 0 else 1) = Some c64" "u32_try_from c64 = Some c" and
    p: "find (\<lambda>i. \<not> is_ok (binary_search (sort (map fs_file_index fs)) i)) (remdups_adj (sort pads)) = None" and
    m: "m = \<lparr>piece_length = pl, total_length = t, piece_count = c, files = fs,
             padding_file_indices = remdups_adj (sort pads)\<rparr>"
    by (auto simp: new_with_padding_def Let_def split: if_splits sum.splits option.splits)
  have "unat c = div_up (unat t) (unat pl)"
    using piece_count_sum [OF pl(1) c(1)] c(2) by (simp add: u32_try_from_Some_iff)
  moreover have "unat pl < 2 ^ 32"
    using pl(2) u32_max_u64 by (simp add: word_less_nat_alt)
  moreover have "set pads \<subseteq> fs_file_index ` set fs"
    using p by (auto simp: find_None_all binary_search_found_iff)
  moreover have "distinct (map fs_file_index fs)" using d by (simp add: adjacent_dup_None)
  ultimately show "piece_map_inv m"
    using t pl(1) unat_gt_0 [of t] unat_gt_0 [of pl] unfolding m
    by (auto simp: piece_map_inv_def check_spans_Inr_iff)
  show "piece_length m = pl" "files m = fs" "set (padding_file_indices m) = set pads" by (simp_all add: m)
qed

lemma new_with_padding_accepts:
  assumes pl: "0 < unat pl" "unat pl < 2 ^ 32" and c: "contiguous 0 fs" "0 < spans_len fs" "spans_len fs < 2 ^ 64"
    and d: "distinct (map fs_file_index fs)" and n: "div_up (spans_len fs) (unat pl) < 2 ^ 32"
    and p: "set pads \<subseteq> fs_file_index ` set fs"
  shows "\<exists>m. new_with_padding pl fs pads = Inr m"
proof -
  obtain t where t: "check_spans 0 fs = Inr t" "unat t = spans_len fs"
    using c check_spans_Inl [of 0 fs] check_spans_Inr_iff [of 0 fs] by (cases "check_spans 0 fs") auto
  have pl': "\<not> pl > u64_from (- 1)" using pl(2) u32_max_u64 by (simp add: word_less_nat_alt)
  obtain c64 where c64: "checked_add (t div pl) (if is_multiple_of t pl then 0 else 1) = Some c64"
  proof (cases "checked_add (t div pl) (if is_multiple_of t pl then 0 else 1)")
    case None
    then have "2 ^ 64 \<le> unat t div unat pl + (if unat pl dvd unat t then 0 else 1)"
      by (auto simp: checked_add_None_iff is_multiple_of_iff unat_div split: if_splits)
    with n pl(1) t(2) show ?thesis by (auto simp: div_up_eq split: if_splits)
  qed auto
  have pl0: "pl \<noteq> 0" using pl(1) by (simp add: unat_gt_0)
  then have "unat c64 < 2 ^ 32" using piece_count_sum [OF _ c64] n t(2) by simp
  then obtain cc where "u32_try_from c64 = Some cc"
    using u32_try_from_None_iff [of c64] by (cases "u32_try_from c64") auto
  moreover have "t \<noteq> 0" using t(2) c(2) by auto
  moreover have "adjacent_dup (sort (map fs_file_index fs)) = None" using d by (simp add: adjacent_dup_None)
  moreover have "find (\<lambda>i. \<not> is_ok (binary_search (sort (map fs_file_index fs)) i)) (remdups_adj (sort pads)) = None"
    using p by (auto simp: find_None_all binary_search_found_iff)
  ultimately show ?thesis using pl0 pl' t(1) c64 by (simp add: new_with_padding_def Let_def)
qed

subsection \<open>Lengths and ranges of pieces\<close>

lemma piece_in_range:
  "piece_map_inv m \<Longrightarrow> p < piece_count m \<longleftrightarrow> unat p * unat (piece_length m) < unat (total_length m)"
  by (simp add: piece_map_inv_def word_less_nat_alt div_up_less_iff)

lemma piece_start_ok:
  assumes "piece_map_inv m" "p < piece_count m"
  shows "checked_mul (u64_from p) (piece_length m) = Some (u64_from p * piece_length m)"
    "unat (u64_from p * piece_length m) = unat p * unat (piece_length m)"
proof -
  have "unat p * unat (piece_length m) < 2 ^ 64"
    using piece_in_range [OF assms(1)] assms(2) unat_u64_bound [of "total_length m"] by simp
  then have "\<exists>s. checked_mul (u64_from p) (piece_length m) = Some s"
    using checked_mul_None_iff [of "u64_from p" "piece_length m"]
    by (cases "checked_mul (u64_from p) (piece_length m)") (auto simp: unat_u64_from)
  then show "checked_mul (u64_from p) (piece_length m) = Some (u64_from p * piece_length m)"
    by (auto simp: checked_mul_def split: if_splits)
  then show "unat (u64_from p * piece_length m) = unat p * unat (piece_length m)"
    by (simp add: checked_mul_Some_iff unat_u64_from)
qed

lemma piece_len_ok:
  assumes "piece_map_inv m" "p < piece_count m"
  obtains l where "piece_len m p = Inr l"
    "unat l = min (unat (total_length m) - unat p * unat (piece_length m)) (unat (piece_length m))"
proof
  let ?r = "min (total_length m - u64_from p * piece_length m) (piece_length m)"
  show "piece_len m p = Inr (ucast ?r)"
    using assms(2) piece_start_ok [OF assms] by (simp add: piece_len_def Let_def)
  have le: "u64_from p * piece_length m \<le> total_length m"
    using piece_in_range [OF assms(1)] assms(2) piece_start_ok [OF assms] by (simp add: word_le_nat_alt)
  have r: "unat ?r = min (unat (total_length m) - unat p * unat (piece_length m)) (unat (piece_length m))"
    using unat_sub_le [OF le] piece_start_ok [OF assms] by (simp add: min_def word_le_nat_alt)
  then have "unat ?r < 2 ^ 32" using assms(1) by (auto simp: piece_map_inv_def min_def)
  then show "unat (ucast ?r :: u32) = min (unat (total_length m) - unat p * unat (piece_length m)) (unat (piece_length m))"
    using r by (simp add: unsigned_ucast_eq take_bit_nat_eq_self)
qed

lemma piece_content_range_ok:
  assumes "piece_map_inv m" "p < piece_count m"
  obtains s e where "piece_content_range m p = Inr (s, e)" "unat s = unat p * unat (piece_length m)"
    "unat e = min (Suc (unat p) * unat (piece_length m)) (unat (total_length m))"
proof -
  let ?s = "u64_from p * piece_length m"
  have "unat p + 1 \<le> 2 ^ 32 - 1" using assms(2) unat_u32_bound [of "piece_count m"] by (simp add: word_less_nat_alt)
  then have "(unat p + 1) * unat (piece_length m) \<le> (2 ^ 32 - 1) * (2 ^ 32 - 1)"
    using assms(1) by (intro mult_mono) (simp_all add: piece_map_inv_def)
  then have "unat ?s + unat (piece_length m) < 2 ^ 64"
    using piece_start_ok(2) [OF assms] by (simp add: add_mult_distrib)
  then obtain f where f: "checked_add ?s (piece_length m) = Some f"
    using checked_add_None_iff [of ?s "piece_length m"] by (cases "checked_add ?s (piece_length m)") auto
  then have "unat f = Suc (unat p) * unat (piece_length m)"
    using piece_start_ok(2) [OF assms] by (simp add: checked_add_Some_iff)
  moreover have "piece_content_range m p = Inr (?s, min f (total_length m))"
    using assms(2) piece_start_ok(1) [OF assms] f by (simp add: piece_content_range_def)
  ultimately show ?thesis
    using that [of ?s "min f (total_length m)"] piece_start_ok(2) [OF assms]
    by (simp add: min_def word_le_nat_alt)
qed

subsection \<open>Regions: the loops compute the overlapping spans\<close>

definition touches :: "nat \<Rightarrow> nat \<Rightarrow> 'p file_span \<Rightarrow> bool" where
  "touches a b f \<longleftrightarrow> max a (unat (fs_content_offset f)) < min b (unat (fs_content_offset f) + unat (fs_length f))"

definition mk_file_region :: "'p piece_map \<Rightarrow> u64 \<Rightarrow> u64 \<Rightarrow> 'p file_span \<Rightarrow> 'p file_region" where
  "mk_file_region m a b f =
     (let s = max a (fs_content_offset f); e = min b (fs_content_offset f + fs_length f) in
      \<lparr>fr_file_index = fs_file_index f, fr_path = fs_path f, fr_file_offset = s - fs_content_offset f,
       fr_piece_offset = s - a, fr_length = e - s, fr_pad = file_is_padding m (fs_file_index f)\<rparr>)"

definition mk_piece_region :: "'p piece_map \<Rightarrow> u64 \<Rightarrow> u64 \<Rightarrow> 'p file_span \<Rightarrow> 'p piece_region" where
  "mk_piece_region m a b f =
     (let s = max a (fs_content_offset f); e = min b (fs_content_offset f + fs_length f) in
      \<lparr>pr_file_index = fs_file_index f, pr_path = fs_path f, pr_file_offset = s - fs_content_offset f,
       pr_length = ucast (e - s), pr_pad = file_is_padding m (fs_file_index f)\<rparr>)"

lemma no_touch_after: "contiguous off fs \<Longrightarrow> b \<le> off \<Longrightarrow> filter (touches a b) fs = []"
  by (induction fs arbitrary: off) (auto simp: touches_def)

lemma span_end:
  assumes "unat (fs_content_offset f) + unat (fs_length f) < 2 ^ 64"
  shows "checked_add (fs_content_offset f) (fs_length f) = Some (fs_content_offset f + fs_length f)"
    "unat (fs_content_offset f + fs_length f) = unat (fs_content_offset f) + unat (fs_length f)"
    "saturating_add (fs_content_offset f) (fs_length f) = fs_content_offset f + fs_length f"
  using assms by (simp_all add: checked_add_def saturating_add_def unat_word_ariths)

lemma touches_words:
  assumes "unat (fs_content_offset f) + unat (fs_length f) < 2 ^ 64"
  shows "max a (fs_content_offset f) \<ge> min b (fs_content_offset f + fs_length f) \<longleftrightarrow> \<not> touches (unat a) (unat b) f"
  using span_end(2) [OF assms] by (auto simp: touches_def word_le_nat_alt max_def min_def)

lemma file_regions_loop_eq:
  "contiguous off fs \<Longrightarrow> off + spans_len fs < 2 ^ 64 \<Longrightarrow>
     file_regions_loop m a b fs acc = Inr (acc @ map (mk_file_region m a b) (filter (touches (unat a) (unat b)) fs))"
proof (induction fs arbitrary: off acc)
  case (Cons f fs)
  then have e: "unat (fs_content_offset f) + unat (fs_length f) < 2 ^ 64" by simp
  show ?case
  proof (cases "fs_content_offset f \<ge> b")
    case True
    then have "filter (touches (unat a) (unat b)) (f # fs) = []"
      using Cons.prems(1) by (intro no_touch_after [of off]) (simp_all add: word_le_nat_alt)
    with True show ?thesis by (simp only: file_regions_loop.simps) simp
  next
    case False
    with Cons.prems Cons.IH [of "off + unat (fs_length f)"] span_end(1) [OF e] touches_words [OF e]
    show ?thesis by (simp add: Let_def mk_file_region_def)
  qed
qed simp

lemma piece_regions_loop_eq:
  "contiguous off fs \<Longrightarrow> off + spans_len fs < 2 ^ 64 \<Longrightarrow>
     piece_regions_loop m a b fs acc = Inr (acc @ map (mk_piece_region m a b) (filter (touches (unat a) (unat b)) fs))"
proof (induction fs arbitrary: off acc)
  case (Cons f fs)
  then have e: "unat (fs_content_offset f) + unat (fs_length f) < 2 ^ 64" by simp
  show ?case
  proof (cases "fs_content_offset f \<ge> b")
    case True
    then have "filter (touches (unat a) (unat b)) (f # fs) = []"
      using Cons.prems(1) by (intro no_touch_after [of off]) (simp_all add: word_le_nat_alt)
    with True show ?thesis by (simp only: piece_regions_loop.simps) simp
  next
    case False
    with Cons.prems Cons.IH [of "off + unat (fs_length f)"] span_end(1) [OF e] touches_words [OF e]
    show ?thesis by (simp add: Let_def mk_piece_region_def)
  qed
qed simp

lemma contiguous_drop: "contiguous off fs \<Longrightarrow> contiguous (off + spans_len (take k fs)) (drop k fs)"
proof (induction fs arbitrary: off k)
  case (Cons f fs)
  then show ?case
    using Cons.IH [of "off + unat (fs_length f)" "k - 1"] by (cases k) (simp_all add: add.assoc)
qed simp

lemma contiguous_nth:
  "contiguous off fs \<Longrightarrow> i < length fs \<Longrightarrow> unat (fs_content_offset (fs ! i)) = off + spans_len (take i fs)"
proof (induction fs arbitrary: off i)
  case (Cons f fs)
  then show ?case
    using Cons.prems Cons.IH [of "off + unat (fs_length f)" "i - 1"] by (cases i) auto
qed simp

lemma spans_len_take_mono: "i \<le> j \<Longrightarrow> spans_len (take i fs) \<le> spans_len (take j fs)"
  by (metis le_add1 le_add_diff_inverse spans_len_simps(3) take_add)

lemma spans_len_take_le: "spans_len (take i fs) \<le> spans_len fs"
  by (metis append_take_drop_id le_add1 spans_len_simps(3))

lemma spans_len_take_Suc: "i < length fs \<Longrightarrow> spans_len (take (Suc i) fs) = spans_len (take i fs) + unat (fs_length (fs ! i))"
  by (simp add: take_Suc_conv_app_nth)

lemma span_offset:
  "piece_map_inv m \<Longrightarrow> i < length (files m) \<Longrightarrow>
     unat (fs_content_offset (files m ! i)) = spans_len (take i (files m))"
  using contiguous_nth [of 0 "files m" i] by (simp add: piece_map_inv_def)

lemma span_bound:
  assumes "piece_map_inv m" "f \<in> set (files m)"
  shows "unat (fs_content_offset f) + unat (fs_length f) \<le> unat (total_length m)"
    "unat (fs_content_offset f) + unat (fs_length f) < 2 ^ 64"
proof -
  obtain i where i: "i < length (files m)" "f = files m ! i" using assms(2) by (metis in_set_conv_nth)
  with assms(1) have "unat (fs_content_offset f) + unat (fs_length f) = spans_len (take (Suc i) (files m))"
    by (simp add: span_offset spans_len_take_Suc)
  then show "unat (fs_content_offset f) + unat (fs_length f) \<le> unat (total_length m)"
    using assms(1) spans_len_take_le [of "Suc i" "files m"] by (simp add: piece_map_inv_def)
  then show "unat (fs_content_offset f) + unat (fs_length f) < 2 ^ 64"
    using unat_u64_bound [of "total_length m"] by simp
qed

lemma first_file_skips:
  assumes "piece_map_inv m"
  shows "filter (touches (unat a) b) (drop (first_file_at_or_after m a) (files m)) = filter (touches (unat a) b) (files m)"
proof -
  let ?p = "\<lambda>f. saturating_add (fs_content_offset f) (fs_length f) \<le> a"
  have p: "?p f \<longleftrightarrow> unat (fs_content_offset f) + unat (fs_length f) \<le> unat a" if "f \<in> set (files m)" for f
    using span_end(2,3) [OF span_bound(2) [OF assms that]] by (simp add: word_le_nat_alt)
  have "partition_point ?p (files m) = length (takeWhile ?p (files m))"
  proof (rule partition_point_takeWhile)
    fix i j assume ij: "i \<le> j" "j < length (files m)" "?p (files m ! j)"
    then have "spans_len (take (Suc j) (files m)) \<le> unat a"
      using assms p [of "files m ! j"] by (simp add: span_offset spans_len_take_Suc)
    then have "spans_len (take (Suc i) (files m)) \<le> unat a"
      using spans_len_take_mono [of "Suc i" "Suc j" "files m"] ij(1) by simp
    then show "?p (files m ! i)"
      using assms ij p [of "files m ! i"] by (simp add: span_offset spans_len_take_Suc)
  qed
  then have d: "drop (first_file_at_or_after m a) (files m) = dropWhile ?p (files m)"
    by (simp add: first_file_at_or_after_def dropWhile_eq_drop)
  have "filter (touches (unat a) b) (takeWhile ?p (files m)) = []"
    using p by (auto simp: filter_empty_conv touches_def dest: set_takeWhileD)
  then have "filter (touches (unat a) b) (takeWhile ?p (files m) @ dropWhile ?p (files m)) =
      filter (touches (unat a) b) (dropWhile ?p (files m))"
    by (simp only: filter_append append_Nil)
  then show ?thesis unfolding d takeWhile_dropWhile_id by (rule sym)
qed

lemma regions_from_first:
  assumes "piece_map_inv m"
  shows "file_regions_loop m a b (drop (first_file_at_or_after m a) (files m)) [] =
      Inr (map (mk_file_region m a b) (filter (touches (unat a) (unat b)) (files m)))"
    "piece_regions_loop m a b (drop (first_file_at_or_after m a) (files m)) [] =
      Inr (map (mk_piece_region m a b) (filter (touches (unat a) (unat b)) (files m)))"
proof -
  let ?k = "first_file_at_or_after m a"
  have c: "contiguous (spans_len (take ?k (files m))) (drop ?k (files m))"
    using contiguous_drop [of 0 "files m" ?k] assms by (simp add: piece_map_inv_def)
  have "spans_len (take ?k (files m)) + spans_len (drop ?k (files m)) = spans_len (files m)"
    by (metis append_take_drop_id spans_len_simps(3))
  then have "spans_len (take ?k (files m)) + spans_len (drop ?k (files m)) < 2 ^ 64"
    using assms unat_u64_bound [of "total_length m"] by (simp add: piece_map_inv_def)
  note eqs = file_regions_loop_eq [OF c this] piece_regions_loop_eq [OF c this]
  show "file_regions_loop m a b (drop ?k (files m)) [] =
      Inr (map (mk_file_region m a b) (filter (touches (unat a) (unat b)) (files m)))"
    by (simp add: eqs first_file_skips [OF assms])
  show "piece_regions_loop m a b (drop ?k (files m)) [] =
      Inr (map (mk_piece_region m a b) (filter (touches (unat a) (unat b)) (files m)))"
    by (simp add: eqs first_file_skips [OF assms])
qed

subsection \<open>Regions read the content stream\<close>

text \<open>
  \<open>contents\<close> gives the bytes of each file by its index; a padding file is a run of zeros like any
  other file here. The stream is what the pieces are hashed over.
\<close>

definition contents_fit :: "(u32 \<Rightarrow> 'b list) \<Rightarrow> 'p file_span list \<Rightarrow> bool" where
  "contents_fit c fs \<longleftrightarrow> (\<forall>f \<in> set fs. length (c (fs_file_index f)) = unat (fs_length f))"

definition stream :: "(u32 \<Rightarrow> 'b list) \<Rightarrow> 'p file_span list \<Rightarrow> 'b list" where
  "stream c fs = concat (map (\<lambda>f. c (fs_file_index f)) fs)"

definition read_file_region :: "(u32 \<Rightarrow> 'b list) \<Rightarrow> 'p file_region \<Rightarrow> 'b list" where
  "read_file_region c r =
     subslice (c (fr_file_index r)) (unat (fr_file_offset r)) (unat (fr_file_offset r) + unat (fr_length r))"

definition read_piece_region :: "(u32 \<Rightarrow> 'b list) \<Rightarrow> 'p piece_region \<Rightarrow> 'b list" where
  "read_piece_region c r =
     subslice (c (pr_file_index r)) (unat (pr_file_offset r)) (unat (pr_file_offset r) + unat (pr_length r))"

lemma subslice_app:
  "subslice (xs @ ys) i j = subslice xs i j @ subslice ys (i - length xs) (j - length xs)"
proof -
  have "j - i - (length xs - i) = (j - length xs) - (i - length xs)" by linarith
  then show ?thesis by (simp add: subslice_def)
qed

lemma subslice_beyond: "length xs \<le> i \<or> j \<le> i \<Longrightarrow> subslice xs i j = []"
  by (auto simp: subslice_def)

lemma subslice_cut: "length xs \<le> j \<Longrightarrow> length xs \<le> k \<Longrightarrow> subslice xs i j = subslice xs i k"
  by (simp add: subslice_def)

lemma stream_subslice:
  "contiguous off fs \<Longrightarrow> contents_fit c fs \<Longrightarrow>
     concat (map (\<lambda>f. subslice (c (fs_file_index f)) (a - unat (fs_content_offset f)) (b - unat (fs_content_offset f))) fs)
     = subslice (stream c fs) (a - off) (b - off)"
proof (induction fs arbitrary: off)
  case Nil
  then show ?case by (simp add: stream_def subslice_def)
next
  case (Cons f fs)
  have "stream c (f # fs) = c (fs_file_index f) @ stream c fs" by (simp add: stream_def)
  with Cons show ?case by (simp add: subslice_app contents_fit_def diff_diff_left)
qed

lemma concat_filter_nonempty:
  "(\<And>x. x \<in> set xs \<Longrightarrow> \<not> P x \<Longrightarrow> g x = []) \<Longrightarrow> (\<And>x. x \<in> set xs \<Longrightarrow> P x \<Longrightarrow> f x = g x) \<Longrightarrow>
     concat (map f (filter P xs)) = concat (map g xs)"
  by (induction xs) auto

lemma mk_region_nat:
  assumes "unat (fs_content_offset f) + unat (fs_length f) < 2 ^ 64" "touches (unat a) (unat b) f"
  shows "unat (fr_file_offset (mk_file_region m a b f)) = unat a - unat (fs_content_offset f)"
    "unat (fr_length (mk_file_region m a b f)) =
       min (unat b) (unat (fs_content_offset f) + unat (fs_length f)) - max (unat a) (unat (fs_content_offset f))"
    "unat (fr_piece_offset (mk_file_region m a b f)) = unat (fs_content_offset f) - unat a"
proof -
  let ?o = "fs_content_offset f" and ?e = "fs_content_offset f + fs_length f"
  have mx: "unat (max a ?o) = max (unat a) (unat ?o)" by (simp add: max_def word_le_nat_alt)
  have mn: "unat (min b ?e) = min (unat b) (unat ?o + unat (fs_length f))"
    using span_end(2) [OF assms(1)] by (simp add: min_def word_le_nat_alt)
  have "max a ?o \<le> min b ?e" using assms(2) mx mn by (simp add: touches_def word_le_nat_alt)
  from unat_sub_le [OF this] mx mn
  show "unat (fr_length (mk_file_region m a b f)) =
       min (unat b) (unat ?o + unat (fs_length f)) - max (unat a) (unat ?o)"
    by (simp add: mk_file_region_def Let_def)
  show "unat (fr_file_offset (mk_file_region m a b f)) = unat a - unat ?o"
    using unat_sub_le [of ?o "max a ?o"] mx by (simp add: mk_file_region_def Let_def)
  show "unat (fr_piece_offset (mk_file_region m a b f)) = unat ?o - unat a"
    using unat_sub_le [of a "max a ?o"] mx by (simp add: mk_file_region_def Let_def)
qed

lemma mk_piece_region_of_file:
  assumes "unat (fs_content_offset f) + unat (fs_length f) < 2 ^ 64" "touches (unat a) (unat b) f"
    and "unat b - unat a < 2 ^ 32"
  shows "read_piece_region c (mk_piece_region m a b f) = read_file_region c (mk_file_region m a b f)"
proof -
  have "unat (fr_length (mk_file_region m a b f)) < 2 ^ 32"
    using mk_region_nat(2) [OF assms(1,2), of m] assms(3) by linarith
  then have "unat (pr_length (mk_piece_region m a b f)) = unat (fr_length (mk_file_region m a b f))"
    by (simp add: mk_piece_region_def mk_file_region_def Let_def unsigned_ucast_eq take_bit_nat_eq_self)
  then show ?thesis
    by (simp add: read_piece_region_def read_file_region_def mk_piece_region_def mk_file_region_def Let_def)
qed

lemma region_reads_span:
  assumes "unat (fs_content_offset f) + unat (fs_length f) < 2 ^ 64" "touches (unat a) (unat b) f"
    and "length (c (fs_file_index f)) = unat (fs_length f)"
  shows "read_file_region c (mk_file_region m a b f) =
    subslice (c (fs_file_index f)) (unat a - unat (fs_content_offset f)) (unat b - unat (fs_content_offset f))"
proof -
  let ?o = "unat (fs_content_offset f)" and ?l = "unat (fs_length f)"
  have "unat a - ?o + (min (unat b) (?o + ?l) - max (unat a) ?o) = min (unat b) (?o + ?l) - ?o"
    using assms(2) by (auto simp: touches_def)
  then have "read_file_region c (mk_file_region m a b f) =
      subslice (c (fs_file_index f)) (unat a - ?o) (min (unat b) (?o + ?l) - ?o)"
    using mk_region_nat(1,2) [OF assms(1,2), of m]
    by (simp add: read_file_region_def mk_file_region_def Let_def)
  also have "\<dots> = subslice (c (fs_file_index f)) (unat a - ?o) (unat b - ?o)"
  proof (cases "unat b \<le> ?o + ?l")
    case False
    then show ?thesis using assms(3) by (intro subslice_cut) auto
  qed simp
  finally show ?thesis .
qed

lemma regions_read_stream:
  assumes "piece_map_inv m" "contents_fit c (files m)"
  shows "concat (map (read_file_region c) (map (mk_file_region m a b) (filter (touches (unat a) (unat b)) (files m))))
    = subslice (stream c (files m)) (unat a) (unat b)"
proof -
  have "concat (map (\<lambda>f. read_file_region c (mk_file_region m a b f)) (filter (touches (unat a) (unat b)) (files m)))
      = concat (map (\<lambda>f. subslice (c (fs_file_index f)) (unat a - unat (fs_content_offset f))
          (unat b - unat (fs_content_offset f))) (files m))"
  proof (rule concat_filter_nonempty)
    fix f assume f: "f \<in> set (files m)"
    then have l: "length (c (fs_file_index f)) = unat (fs_length f)" using assms(2) by (simp add: contents_fit_def)
    show "subslice (c (fs_file_index f)) (unat a - unat (fs_content_offset f)) (unat b - unat (fs_content_offset f)) = []"
      if "\<not> touches (unat a) (unat b) f"
      using that l by (intro subslice_beyond) (auto simp: touches_def)
    show "read_file_region c (mk_file_region m a b f) =
        subslice (c (fs_file_index f)) (unat a - unat (fs_content_offset f)) (unat b - unat (fs_content_offset f))"
      if "touches (unat a) (unat b) f"
      using region_reads_span [where c = c, OF span_bound(2) [OF assms(1) f] that l] .
  qed
  also have "\<dots> = subslice (stream c (files m)) (unat a) (unat b)"
    using stream_subslice [of 0 "files m" c "unat a" "unat b"] assms by (simp add: piece_map_inv_def)
  finally show ?thesis by (simp add: comp_def)
qed

lemma length_stream: "contents_fit c fs \<Longrightarrow> length (stream c fs) = spans_len fs"
  by (induction fs) (auto simp: contents_fit_def stream_def)

lemma file_is_padding_iff: "piece_map_inv m \<Longrightarrow> file_is_padding m i \<longleftrightarrow> i \<in> set (padding_file_indices m)"
  by (simp add: file_is_padding_def piece_map_inv_def binary_search_found_iff)

subsection \<open>Pieces of files\<close>

lemma touches_piece_iff:
  assumes "piece_map_inv m" "f \<in> set (files m)" "0 < unat (fs_length f)"
  shows "touches (unat p * unat (piece_length m)) (min (Suc (unat p) * unat (piece_length m)) (unat (total_length m))) f
    \<longleftrightarrow> unat (fs_content_offset f) div unat (piece_length m) \<le> unat p \<and>
        unat p < div_up (unat (fs_content_offset f) + unat (fs_length f)) (unat (piece_length m))"
proof -
  let ?o = "unat (fs_content_offset f)" and ?l = "unat (fs_length f)" and ?pl = "unat (piece_length m)"
  have pl: "0 < ?pl" using assms(1) by (simp add: piece_map_inv_def)
  have "?o div ?pl \<le> unat p \<longleftrightarrow> ?o < Suc (unat p) * ?pl"
    using pl by (simp add: div_less_iff_less_mult less_Suc_eq_le [symmetric])
  moreover have "unat p < div_up (?o + ?l) ?pl \<longleftrightarrow> unat p * ?pl < ?o + ?l" using pl by (rule div_up_less_iff)
  moreover have "?o + ?l \<le> unat (total_length m)" by (rule span_bound(1) [OF assms(1,2)])
  ultimately show ?thesis using assms(3) pl by (auto simp: touches_def)
qed

lemma div_up_mono: "a \<le> b \<Longrightarrow> div_up a p \<le> div_up b p"
  by (simp add: div_up_def div_le_mono)

lemma div_le_div_up: "0 < p \<Longrightarrow> a \<le> b \<Longrightarrow> a div p \<le> div_up b p"
  by (simp add: div_up_def div_le_mono)

text \<open>The words of one file's range: no conversion fails on a built map.\<close>

lemma range_words:
  assumes "piece_map_inv m" "unat e \<le> unat (total_length m)" "unat s \<le> unat e"
  obtains a b where "u32_try_from (s div piece_length m) = Some a"
    "u32_try_from (min (div_ceil e (piece_length m)) (u64_from (piece_count m))) = Some b"
    "unat a = unat s div unat (piece_length m)" "unat b = div_up (unat e) (unat (piece_length m))"
proof -
  let ?pl = "unat (piece_length m)"
  have pl: "0 < ?pl" "piece_length m \<noteq> 0" using assms(1) by (auto simp: piece_map_inv_def)
  have c: "div_up (unat e) ?pl \<le> unat (piece_count m)"
    using assms div_up_mono [OF assms(2)] by (simp add: piece_map_inv_def)
  have d: "unat (min (div_ceil e (piece_length m)) (u64_from (piece_count m))) = div_up (unat e) ?pl"
    using c unat_div_up [OF pl(2), of e] by (simp add: min_def word_le_nat_alt unat_u64_from)
  have "unat s div ?pl \<le> unat (piece_count m)" using c div_le_div_up [OF pl(1) assms(3)] by simp
  then have "u32_try_from (s div piece_length m) \<noteq> None"
    using unat_u32_bound [of "piece_count m"] by (simp add: u32_try_from_None_iff unat_div del: not_None_eq)
  moreover have "u32_try_from (min (div_ceil e (piece_length m)) (u64_from (piece_count m))) \<noteq> None"
    using c unat_u32_bound [of "piece_count m"] by (simp add: u32_try_from_None_iff d del: not_None_eq)
  ultimately obtain a b where "u32_try_from (s div piece_length m) = Some a"
    "u32_try_from (min (div_ceil e (piece_length m)) (u64_from (piece_count m))) = Some b" by blast
  moreover from this have "unat a = unat s div ?pl" "unat b = div_up (unat e) ?pl"
    using u32_try_from_Some_iff d by (metis unat_div, metis)
  ultimately show ?thesis by (rule that)
qed

definition piece_in :: "u32 \<Rightarrow> (u32 \<times> u32) list \<Rightarrow> bool" where
  "piece_in p ranges \<longleftrightarrow> (\<exists>(a, b) \<in> set ranges. a \<le> p \<and> p < b)"

definition selected_touch :: "'p piece_map \<Rightarrow> u32 list \<Rightarrow> u32 \<Rightarrow> 'p file_span \<Rightarrow> bool" where
  "selected_touch m idx p f \<longleftrightarrow> fs_file_index f \<in> set idx \<and> \<not> file_is_padding m (fs_file_index f) \<and>
     touches (unat p * unat (piece_length m)) (min (Suc (unat p) * unat (piece_length m)) (unat (total_length m))) f"

lemma piece_ranges_loop_ok:
  assumes "piece_map_inv m" "sorted idx"
  shows "set fs \<subseteq> set (files m) \<Longrightarrow> \<exists>rs. piece_ranges_loop m idx fs acc = Inr rs \<and>
    (\<forall>p. piece_in p rs \<longleftrightarrow> piece_in p acc \<or> (\<exists>f \<in> set fs. selected_touch m idx p f))"
proof (induction fs arbitrary: acc)
  case (Cons f fs)
  have f: "f \<in> set (files m)" using Cons.prems by simp
  let ?skip = "fs_file_index f \<notin> set idx \<or> fs_length f = 0 \<or> file_is_padding m (fs_file_index f)"
  show ?case
  proof (cases ?skip)
    case True
    then have "\<not> selected_touch m idx p f" for p by (auto simp: selected_touch_def touches_def)
    with True Cons.IH [of acc] Cons.prems show ?thesis by (auto simp: binary_search_found_iff [OF assms(2)])
  next
    case False
    then have l: "0 < unat (fs_length f)" by (simp add: unat_gt_0)
    note e = span_end(1,2) [OF span_bound(2) [OF assms(1) f]]
    obtain a b where ab: "u32_try_from (fs_content_offset f div piece_length m) = Some a"
      "u32_try_from (min (div_ceil (fs_content_offset f + fs_length f) (piece_length m)) (u64_from (piece_count m))) = Some b"
      "unat a = unat (fs_content_offset f) div unat (piece_length m)"
      "unat b = div_up (unat (fs_content_offset f + fs_length f)) (unat (piece_length m))"
      by (rule range_words [OF assms(1), of "fs_content_offset f + fs_length f" "fs_content_offset f"])
        (use e(2) span_bound(1) [OF assms(1) f] in auto)
    let ?acc = "if a < b then acc @ [(a, b)] else acc"
    have "piece_in p ?acc \<longleftrightarrow> piece_in p acc \<or> selected_touch m idx p f" for p
      using touches_piece_iff [OF assms(1) f l, of p] False ab(3,4) e(2)
      by (auto simp: piece_in_def selected_touch_def word_le_nat_alt word_less_nat_alt)
    moreover obtain rs where "piece_ranges_loop m idx fs ?acc = Inr rs"
      "\<forall>p. piece_in p rs \<longleftrightarrow> piece_in p ?acc \<or> (\<exists>f \<in> set fs. selected_touch m idx p f)"
      using Cons.IH [of ?acc] Cons.prems by auto
    moreover have "piece_ranges_loop m idx (f # fs) acc = piece_ranges_loop m idx fs ?acc"
      using False e(1) ab(1,2) by (simp add: binary_search_found_iff [OF assms(2)])
    ultimately show ?thesis by auto
  qed
qed simp

lemma find_unique: "(\<And>g. g \<in> set xs \<Longrightarrow> P g \<Longrightarrow> g = f) \<Longrightarrow> f \<in> set xs \<Longrightarrow> P f \<Longrightarrow> find P xs = Some f"
proof (induction xs)
  case (Cons x xs)
  show ?case
  proof (cases "P x")
    case True
    then have "x = f" by (intro Cons.prems(1)) simp_all
    with True show ?thesis by simp
  next
    case False
    then have f: "f \<in> set xs" using Cons.prems(2,3) by auto
    have u: "g = f" if "g \<in> set xs" "P g" for g using that by (intro Cons.prems(1)) simp_all
    from Cons.IH [OF u f Cons.prems(3)] False show ?thesis by simp
  qed
qed simp

lemma lookup_file_some:
  assumes "piece_map_inv m" "f \<in> set (files m)"
  shows "lookup_file m (fs_file_index f) = Some f"
proof -
  have d: "g = f" if "g \<in> set (files m)" "fs_file_index g = fs_file_index f" for g
    using assms that by (auto simp: piece_map_inv_def distinct_map inj_on_def)
  have "find (\<lambda>g. fs_file_index g = fs_file_index f) (files m) = Some f"
    by (rule find_unique [OF d assms(2)]) simp_all
  then show ?thesis using d [of "files m ! unat (fs_file_index f)"] by (simp add: lookup_file_def)
qed

lemma piece_to_file_regions_eq:
  assumes "piece_map_inv m" "p < piece_count m"
  obtains s e where "piece_content_range m p = Inr (s, e)" "unat s = unat p * unat (piece_length m)"
    "unat e = min (Suc (unat p) * unat (piece_length m)) (unat (total_length m))"
    "piece_to_file_regions m p = Inr (map (mk_file_region m s e) (filter (touches (unat s) (unat e)) (files m)))"
proof -
  from piece_content_range_ok [OF assms] obtain s e where se: "piece_content_range m p = Inr (s, e)"
    "unat s = unat p * unat (piece_length m)"
    "unat e = min (Suc (unat p) * unat (piece_length m)) (unat (total_length m))" .
  then show ?thesis
    using that [OF se] regions_from_first(1) [OF assms(1), of s e] by (simp add: piece_to_file_regions_def Let_def)
qed

text \<open>The attributes of a region of the piece that begins at \<open>s\<close>.\<close>

definition region_of :: "'p file_span list \<Rightarrow> u32 list \<Rightarrow> u64 \<Rightarrow> 'p file_region \<Rightarrow> bool" where
  "region_of fs pads s r \<longleftrightarrow> 0 < fr_length r \<and> (fr_pad r \<longleftrightarrow> fr_file_index r \<in> set pads) \<and>
     (\<exists>f \<in> set fs. fr_file_index r = fs_file_index f \<and> fr_path r = fs_path f \<and>
        unat (fr_file_offset r) + unat (fr_length r) \<le> unat (fs_length f) \<and>
        unat (fs_content_offset f) + unat (fr_file_offset r) = unat s + unat (fr_piece_offset r))"

lemma mk_region_of:
  assumes "piece_map_inv m" "f \<in> set (files m)" "touches (unat s) (unat e) f"
  shows "region_of (files m) (padding_file_indices m) s (mk_file_region m s e f)"
proof -
  let ?r = "mk_file_region m s e f"
  note n = mk_region_nat [OF span_bound(2) [OF assms(1,2)] assms(3), of m]
  have l: "0 < unat (fr_length ?r)" unfolding n using assms(3) by (simp add: touches_def)
  have b: "unat (fr_file_offset ?r) + unat (fr_length ?r) \<le> unat (fs_length f)"
    unfolding n using assms(3) unfolding touches_def by linarith
  have o: "unat (fs_content_offset f) + unat (fr_file_offset ?r) = unat s + unat (fr_piece_offset ?r)"
    unfolding n by linarith
  have "fr_pad ?r \<longleftrightarrow> fr_file_index ?r \<in> set (padding_file_indices m)"
    using file_is_padding_iff [OF assms(1)] by (simp add: mk_file_region_def Let_def)
  moreover have "fr_file_index ?r = fs_file_index f" "fr_path ?r = fs_path f"
    by (simp_all add: mk_file_region_def Let_def)
  ultimately show ?thesis using l b o assms(2) unfolding region_of_def word_less_nat_alt by auto
qed

subsection \<open>Properties\<close>

definition valid_layout :: "u64 \<Rightarrow> 'p file_span list \<Rightarrow> u32 list \<Rightarrow> bool" where
  "valid_layout pl fs pads \<longleftrightarrow>
     0 < unat pl \<and> unat pl < 2 ^ 32 \<and> contiguous 0 fs \<and> 0 < spans_len fs \<and> spans_len fs < 2 ^ 64 \<and>
     distinct (map fs_file_index fs) \<and> div_up (spans_len fs) (unat pl) < 2 ^ 32 \<and>
     set pads \<subseteq> fs_file_index ` set fs"

text \<open>
  C24. The constructor accepts exactly the valid layouts: a piece length in \<open>1 .. 2^32 - 1\<close>, spans that are
  contiguous from offset 0 with a total between 1 and \<open>2^64 - 1\<close>, distinct file indices, at most
  \<open>2^32 - 1\<close> pieces, and padding indices that name files. Everything else is refused with an error, so
  what it accepts is valid. The map it builds has the given piece length, files and padding indices, the
  total and the number of pieces of that layout, and satisfies the invariant every other operation relies on.
\<close>

theorem new_with_padding_iff:
  "case new_with_padding pl fs pads of
      Inl e \<Rightarrow> \<not> valid_layout pl fs pads
    | Inr m \<Rightarrow> valid_layout pl fs pads \<and> piece_map_inv m \<and> piece_length m = pl \<and> files m = fs \<and>
        unat (total_length m) = spans_len fs \<and> unat (piece_count m) = div_up (spans_len fs) (unat pl) \<and>
        set (padding_file_indices m) = set pads"
proof (cases "new_with_padding pl fs pads")
  case (Inl e)
  then have "\<not> valid_layout pl fs pads" using new_with_padding_accepts [of pl fs pads] unfolding valid_layout_def by auto
  then show ?thesis using Inl by simp
next
  case (Inr m)
  note i = new_with_padding_Inr [OF Inr]
  have "valid_layout pl fs pads" unfolding valid_layout_def using i unat_u64_bound [of "total_length m"] unat_u32_bound [of "piece_count m"]
    by (auto simp: piece_map_inv_def)
  then show ?thesis using Inr i by (auto simp: piece_map_inv_def)
qed

definition two_files :: "nat file_span list" where
  "two_files = [\<lparr>fs_file_index = 0, fs_path = 10, fs_content_offset = 0, fs_length = 3\<rparr>,
     \<lparr>fs_file_index = 1, fs_path = 11, fs_content_offset = 3, fs_length = 5\<rparr>]"

definition two_map :: "nat piece_map" where
  "two_map = \<lparr>piece_length = 4, total_length = 8, piece_count = 2, files = two_files, padding_file_indices = []\<rparr>"

definition two_contents :: "u32 \<Rightarrow> nat list" where
  "two_contents i = (if i = 0 then [1, 2, 3] else [4, 5, 6, 7, 8])"

lemma two_map_built: "new_with_padding 4 two_files [] = Inr two_map"
  by (simp add: new_with_padding_def two_files_def two_map_def checked_add_def is_multiple_of_def
      u32_try_from_def Let_def word_less_nat_alt u32_max_u64)

lemma two_contents_fit: "contents_fit two_contents two_files"
  by (simp add: contents_fit_def two_contents_def two_files_def)

text \<open>
  C7. Reading the file regions of a piece, in order, gives exactly the bytes of the piece in the
  content stream; every region is non-empty, lies inside its file, stands at its piece offset, and
  carries the padding flag of its file. No arithmetic check fails on a built map.
\<close>

theorem piece_regions_read_piece:
  assumes "new_with_padding pl fs pads = Inr m" and "contents_fit c fs" and "p < piece_count m"
  shows "\<exists>rs. piece_to_file_regions m p = Inr rs \<and>
    concat (map (read_file_region c) rs) =
      subslice (stream c fs) (unat p * unat pl) (min (Suc (unat p) * unat pl) (unat (total_length m))) \<and>
    (\<forall>r \<in> set rs. 0 < fr_length r \<and> (fr_pad r \<longleftrightarrow> fr_file_index r \<in> set pads) \<and>
       (\<exists>f \<in> set fs. fr_file_index r = fs_file_index f \<and> fr_path r = fs_path f \<and>
          unat (fr_file_offset r) + unat (fr_length r) \<le> unat (fs_length f) \<and>
          unat (fs_content_offset f) + unat (fr_file_offset r) = unat p * unat pl + unat (fr_piece_offset r)))"
proof -
  note i = new_with_padding_Inr [OF assms(1)]
  from piece_to_file_regions_eq [OF i(1) assms(3)] obtain s e where
    se: "unat s = unat p * unat pl" "unat e = min (Suc (unat p) * unat pl) (unat (total_length m))" and
    rs: "piece_to_file_regions m p = Inr (map (mk_file_region m s e) (filter (touches (unat s) (unat e)) fs))"
    using i(2,3) by metis
  have "concat (map (read_file_region c) (map (mk_file_region m s e) (filter (touches (unat s) (unat e)) fs)))
      = subslice (stream c fs) (unat s) (unat e)"
    using regions_read_stream [OF i(1), of c s e] assms(2) i(3) by simp
  moreover have "region_of fs pads s (mk_file_region m s e f)"
    if "f \<in> set fs" "touches (unat s) (unat e) f" for f
    using mk_region_of [OF i(1) _ that(2)] that(1) i(3,4) by (simp add: region_of_def)
  ultimately show ?thesis
    unfolding rs se(1) [symmetric] se(2) [symmetric] by (auto simp: region_of_def)
qed

theorem piece_regions_read_piece_witness:
  "\<exists>rs. piece_to_file_regions two_map 0 = Inr rs \<and> concat (map (read_file_region two_contents) rs) = [1, 2, 3, 4]"
  using piece_regions_read_piece [OF two_map_built two_contents_fit, of 0]
  by (auto simp: two_map_def two_files_def two_contents_def stream_def subslice_def)


lemma request_fits_iff:
  assumes "piece_map_inv m" "p < piece_count m" "piece_len m p = Inr pln"
  shows "unat b + unat l \<le> unat pln \<longleftrightarrow> unat p * unat (piece_length m) + unat b + unat l
      \<le> min (Suc (unat p) * unat (piece_length m)) (unat (total_length m))"
proof -
  define x where "x = unat p * unat (piece_length m)"
  obtain pln' where "piece_len m p = Inr pln'"
    "unat pln' = min (unat (total_length m) - unat p * unat (piece_length m)) (unat (piece_length m))"
    by (rule piece_len_ok [OF assms(1,2)])
  then have l: "unat pln = min (unat (total_length m) - x) (unat (piece_length m))"
    using assms(3) by (simp add: x_def)
  have "x < unat (total_length m)" using piece_in_range [OF assms(1), of p] assms(2) by (simp add: x_def)
  moreover have "Suc (unat p) * unat (piece_length m) = x + unat (piece_length m)" by (simp add: x_def)
  ultimately show ?thesis unfolding l x_def [symmetric] min.bounded_iff by linarith
qed

lemma request_sum: "u64_from b + u64_from l > u64_from pln \<longleftrightarrow> unat pln < unat b + unat l"
proof -
  have "unat b + unat l < 2 ^ 64" using unat_u32_bound [of b] unat_u32_bound [of l] by simp
  then show ?thesis by (simp add: word_less_nat_alt unat_u64_from unat_word_ariths)
qed

lemma validate_request_inside:
  assumes "piece_map_inv m" "p < piece_count m" "piece_len m p = Inr pln" "unat b + unat l \<le> unat pln"
    and "l \<noteq> 0" "\<not> l > MAX_BLOCK_SIZE"
  obtains s e where
    "validate_request m p b l = Inr (map (mk_piece_region m s e) (filter (touches (unat s) (unat e)) (files m)))"
    "unat s = unat p * unat (piece_length m) + unat b" "unat e = unat s + unat l"
proof -
  let ?s = "u64_from p * piece_length m"
  note st = piece_start_ok [OF assms(1,2)]
  have bound: "unat ?s + unat b + unat l < 2 ^ 64"
    using request_fits_iff [OF assms(1-3), of b l] assms(4) st(2) unat_u64_bound [of "total_length m"] by simp
  then obtain s where s: "checked_add ?s (u64_from b) = Some s" "unat s = unat ?s + unat b"
    using checked_add_None_iff [of ?s "u64_from b"]
    by (cases "checked_add ?s (u64_from b)") (auto simp: checked_add_Some_iff unat_u64_from)
  then obtain e where e: "checked_add s (u64_from l) = Some e" "unat e = unat s + unat l"
    using checked_add_None_iff [of s "u64_from l"] bound
    by (cases "checked_add s (u64_from l)") (auto simp: checked_add_Some_iff unat_u64_from)
  have "validate_request m p b l = Inr (map (mk_piece_region m s e) (filter (touches (unat s) (unat e)) (files m)))"
    using assms(3-6) request_sum [of pln b l] st(1) s(1) e(1) regions_from_first(2) [OF assms(1), of s e]
    by (simp add: validate_request_def Let_def)
  then show ?thesis by (rule that) (use s(2) e(2) st(2) in simp_all)
qed

lemma piece_regions_read_stream:
  assumes "piece_map_inv m" "contents_fit c (files m)" "unat e - unat s < 2 ^ 32"
  shows "concat (map (read_piece_region c) (map (mk_piece_region m s e) (filter (touches (unat s) (unat e)) (files m))))
    = subslice (stream c (files m)) (unat s) (unat e)"
proof -
  have "read_piece_region c (mk_piece_region m s e f) = read_file_region c (mk_file_region m s e f)"
    if "f \<in> set (files m)" "touches (unat s) (unat e) f" for f
    by (rule mk_piece_region_of_file [OF span_bound(2) [OF assms(1) that(1)] that(2) assms(3)])
  then have "concat (map (read_piece_region c) (map (mk_piece_region m s e) (filter (touches (unat s) (unat e)) (files m))))
      = concat (map (read_file_region c) (map (mk_file_region m s e) (filter (touches (unat s) (unat e)) (files m))))"
    by (auto intro!: arg_cong [of _ _ concat])
  also have "\<dots> = subslice (stream c (files m)) (unat s) (unat e)"
    by (rule regions_read_stream [OF assms(1,2)])
  finally show ?thesis .
qed

text \<open>
  C25. A block request is accepted exactly when its length is between 1 and 16 KiB, the piece exists
  and the block ends inside the piece; the regions returned read exactly the requested bytes of the
  content stream. Otherwise the error is never an integer overflow.
\<close>

theorem validate_request_correct:
  assumes "new_with_padding pl fs pads = Inr m" and "contents_fit c fs"
  shows "case validate_request m p b l of
      Inr rs \<Rightarrow> 0 < l \<and> l \<le> MAX_BLOCK_SIZE \<and> p < piece_count m \<and>
        unat p * unat pl + unat b + unat l \<le> min (Suc (unat p) * unat pl) (unat (total_length m)) \<and>
        concat (map (read_piece_region c) rs) =
          subslice (stream c fs) (unat p * unat pl + unat b) (unat p * unat pl + unat b + unat l)
    | Inl e \<Rightarrow> \<not> (0 < l \<and> l \<le> MAX_BLOCK_SIZE \<and> p < piece_count m \<and>
        unat p * unat pl + unat b + unat l \<le> min (Suc (unat p) * unat pl) (unat (total_length m))) \<and>
        (\<forall>s. e \<noteq> IntegerOverflow s)"
proof (cases "0 < l \<and> l \<le> MAX_BLOCK_SIZE \<and> p < piece_count m")
  case False
  moreover have "l = 0 \<longleftrightarrow> \<not> 0 < l" by (simp add: word_gt_0)
  ultimately show ?thesis by (auto simp: validate_request_def piece_len_def)
next
  case True
  note i = new_with_padding_Inr [OF assms(1)]
  from True have l: "l \<noteq> 0" "\<not> l > MAX_BLOCK_SIZE" and p: "p < piece_count m" by (auto simp: not_less)
  obtain pln where pln: "piece_len m p = Inr pln" by (rule piece_len_ok [OF i(1) p])
  note fits = request_fits_iff [OF i(1) p pln, of b l, unfolded i(2)]
  show ?thesis
  proof (cases "unat b + unat l \<le> unat pln")
    case False
    then have "validate_request m p b l = Inl (RequestOutOfBounds b l pln)"
      using l pln request_sum [of pln b l] by (simp add: validate_request_def)
    then show ?thesis using False fits by simp
  next
    case ok: True
    obtain s e where
      v: "validate_request m p b l = Inr (map (mk_piece_region m s e) (filter (touches (unat s) (unat e)) (files m)))"
      and se: "unat s = unat p * unat pl + unat b" "unat e = unat s + unat l"
      by (rule validate_request_inside [OF i(1) p pln ok l, unfolded i(2)])
    have "unat e - unat s < 2 ^ 32" using se unat_u32_bound [of l] by simp
    from piece_regions_read_stream [OF i(1) _ this, of c] assms(2) i(3)
    show ?thesis using v True ok fits se by simp
  qed
qed

text \<open>
  The lengths of the pieces add up to the total length, so the pieces partition the stream.
\<close>

theorem piece_len_sum:
  assumes "new_with_padding pl fs pads = Inr m"
  shows "(\<Sum>p < unat (piece_count m). case piece_len m (of_nat p) of Inr l \<Rightarrow> unat l | Inl _ \<Rightarrow> 0)
    = spans_len fs"
proof -
  note i = new_with_padding_Inr [OF assms]
  let ?t = "unat (total_length m)" and ?pl = "unat (piece_length m)"
  have one: "(case piece_len m (of_nat p) of Inr l \<Rightarrow> unat l | Inl _ \<Rightarrow> 0) = min (?t - p * ?pl) ?pl"
    if "p < unat (piece_count m)" for p
  proof -
    have p: "unat (of_nat p :: u32) = p"
      using that unat_u32_bound [of "piece_count m"] by (simp add: unat_of_nat)
    then have "(of_nat p :: u32) < piece_count m" using that by (simp add: word_less_nat_alt)
    from piece_len_ok [OF i(1) this] p show ?thesis by (metis old.sum.simps(6))
  qed
  have "(\<Sum>p < n. min (?t - p * ?pl) ?pl) = min ?t (n * ?pl)" for n
    by (induction n) auto
  moreover have "?t \<le> unat (piece_count m) * ?pl"
    using i(1) div_up_less_iff [of ?pl "unat (piece_count m)" ?t] by (simp add: piece_map_inv_def)
  ultimately show ?thesis using one i(1,3) by (simp add: piece_map_inv_def)
qed

theorem validate_request_correct_witness:
  "\<exists>rs. validate_request two_map 0 2 2 = Inr rs \<and> concat (map (read_piece_region two_contents) rs) = [3, 4]"
proof -
  have "2 \<le> MAX_BLOCK_SIZE" by (simp add: MAX_BLOCK_SIZE_def)
  then show ?thesis
    using validate_request_correct [OF two_map_built two_contents_fit, where p = 0 and b = 2 and l = 2]
    by (auto simp: two_map_def two_files_def two_contents_def stream_def subslice_def split: sum.splits)
qed

theorem piece_len_sum_witness:
  "(\<Sum>p < unat (piece_count two_map). case piece_len two_map (of_nat p) of Inr l \<Rightarrow> unat l | Inl _ \<Rightarrow> 0) = 8"
  using piece_len_sum [OF two_map_built] by (simp add: two_files_def)

text \<open>
  The piece ranges of a set of changed files are exactly the pieces that have a region in one of
  those files outside padding: what invalidates a file and what maps a piece agree.
\<close>

theorem piece_ranges_exact:
  assumes "new_with_padding pl fs pads = Inr m" and "sorted idx"
  shows "\<exists>ranges. piece_ranges_for_file_indices m idx = Inr ranges \<and>
    (\<forall>p < piece_count m. piece_in p ranges \<longleftrightarrow>
       (\<exists>rs. piece_to_file_regions m p = Inr rs \<and> (\<exists>r \<in> set rs. fr_file_index r \<in> set idx \<and> \<not> fr_pad r)))"
proof -
  note i = new_with_padding_Inr [OF assms(1)]
  from piece_ranges_loop_ok [OF i(1) assms(2), of "files m" "[]"] obtain ranges where
    r: "piece_ranges_for_file_indices m idx = Inr ranges"
      "\<And>p. piece_in p ranges \<longleftrightarrow> (\<exists>f \<in> set (files m). selected_touch m idx p f)"
    by (auto simp: piece_ranges_for_file_indices_def piece_in_def)
  have "piece_in p ranges \<longleftrightarrow>
      (\<exists>rs. piece_to_file_regions m p = Inr rs \<and> (\<exists>r \<in> set rs. fr_file_index r \<in> set idx \<and> \<not> fr_pad r))"
    if p: "p < piece_count m" for p
  proof -
    obtain s e where "unat s = unat p * unat (piece_length m)"
      "unat e = min (Suc (unat p) * unat (piece_length m)) (unat (total_length m))"
      "piece_to_file_regions m p = Inr (map (mk_file_region m s e) (filter (touches (unat s) (unat e)) (files m)))"
      by (rule piece_to_file_regions_eq [OF i(1) p])
    then show ?thesis by (auto simp: r(2) selected_touch_def mk_file_region_def Let_def)
  qed
  with r(1) show ?thesis by blast
qed

theorem piece_ranges_exact_witness:
  "\<exists>ranges. piece_ranges_for_file_indices two_map [1] = Inr ranges \<and>
    (\<forall>p < piece_count two_map. piece_in p ranges \<longleftrightarrow>
       (\<exists>rs. piece_to_file_regions two_map p = Inr rs \<and> (\<exists>r \<in> set rs. fr_file_index r \<in> set [1] \<and> \<not> fr_pad r)))"
  by (rule piece_ranges_exact [OF two_map_built]) simp

lemma byte_in_piece_iff:
  assumes "0 < (pl :: nat)" "st < fin"
  shows "(off + st) div pl \<le> p \<and> p < div_up (off + fin) pl \<longleftrightarrow>
    (\<exists>k. st \<le> k \<and> k < fin \<and> p * pl \<le> off + k \<and> off + k < Suc p * pl)"
proof -
  have a: "(off + st) div pl \<le> p \<longleftrightarrow> off + st < Suc p * pl"
    using assms(1) by (simp add: div_less_iff_less_mult less_Suc_eq_le [symmetric])
  have b: "p < div_up (off + fin) pl \<longleftrightarrow> p * pl < off + fin" using assms(1) by (rule div_up_less_iff)
  have s: "Suc p * pl = p * pl + pl" by simp
  show ?thesis
  proof
    assume "(off + st) div pl \<le> p \<and> p < div_up (off + fin) pl"
    then have "off + st < p * pl + pl" "p * pl < off + fin" using a b s by simp_all
    then show "\<exists>k. st \<le> k \<and> k < fin \<and> p * pl \<le> off + k \<and> off + k < Suc p * pl"
      unfolding s using assms by (intro exI [of _ "max st (p * pl - off)"]) linarith
  next
    assume "\<exists>k. st \<le> k \<and> k < fin \<and> p * pl \<le> off + k \<and> off + k < Suc p * pl"
    then show "(off + st) div pl \<le> p \<and> p < div_up (off + fin) pl" unfolding a b s by auto
  qed
qed

text \<open>
  The piece range of a byte range of one file is exactly the pieces that hold one of those bytes
  (clamped to the file).
\<close>

theorem piece_range_for_file_bytes_exact:
  assumes "new_with_padding pl fs pads = Inr m" and "f \<in> set fs"
  shows "(case piece_range_for_file_bytes m (fs_file_index f) start fin of
       None \<Rightarrow> False | Some (a, b) \<Rightarrow> a \<le> p \<and> p < b) \<longleftrightarrow>
    (\<exists>k. unat start \<le> k \<and> k < min (unat fin) (unat (fs_length f)) \<and>
       unat p * unat pl \<le> unat (fs_content_offset f) + k \<and>
       unat (fs_content_offset f) + k < Suc (unat p) * unat pl)"
proof -
  note i = new_with_padding_Inr [OF assms(1)]
  have f: "f \<in> set (files m)" using assms(2) i(3) by simp
  let ?fin = "min fin (fs_length f)"
  have fin: "unat ?fin = min (unat fin) (unat (fs_length f))" by (simp add: min_def word_le_nat_alt)
  note sb = span_bound [OF i(1) f]
  show ?thesis
  proof (cases "start \<ge> ?fin")
    case True
    then have "piece_range_for_file_bytes m (fs_file_index f) start fin = None"
      by (simp add: piece_range_for_file_bytes_def lookup_file_some [OF i(1) f] Let_def)
    moreover have "\<not> unat start < unat ?fin" using True by (simp add: word_le_nat_alt)
    ultimately show ?thesis unfolding fin [symmetric] by auto
  next
    case False
    then have lt: "unat start < unat ?fin" by (simp add: word_less_nat_alt not_le)
    let ?o = "fs_content_offset f"
    have b: "unat ?o + unat ?fin \<le> unat (total_length m)" using sb(1) fin by simp
    with lt have "unat ?o + unat start < 2 ^ 64" "unat ?o + unat ?fin < 2 ^ 64"
      using unat_u64_bound [of "total_length m"] by linarith+
    then have c: "checked_add ?o start = Some (?o + start)" "checked_add ?o ?fin = Some (?o + ?fin)"
      "unat (?o + start) = unat ?o + unat start" "unat (?o + ?fin) = unat ?o + unat ?fin"
      by (simp_all add: checked_add_def unat_word_ariths)
    obtain a z where az: "u32_try_from ((?o + start) div piece_length m) = Some a"
      "u32_try_from (min (div_ceil (?o + ?fin) (piece_length m)) (u64_from (piece_count m))) = Some z"
      "unat a = unat (?o + start) div unat (piece_length m)" "unat z = div_up (unat (?o + ?fin)) (unat (piece_length m))"
      by (rule range_words [OF i(1), of "?o + ?fin" "?o + start"]) (use c b lt in auto)
    have "piece_range_for_file_bytes m (fs_file_index f) start fin = (if a < z then Some (a, z) else None)"
      using False c(1,2) az(1,2) by (simp add: piece_range_for_file_bytes_def lookup_file_some [OF i(1) f] Let_def)
    then have "(case piece_range_for_file_bytes m (fs_file_index f) start fin of
       None \<Rightarrow> False | Some (a, b) \<Rightarrow> a \<le> p \<and> p < b) \<longleftrightarrow> unat a \<le> unat p \<and> unat p < unat z"
      by (auto simp: word_less_nat_alt word_le_nat_alt)
    also have "\<dots> \<longleftrightarrow> (\<exists>k. unat start \<le> k \<and> k < unat ?fin \<and> unat p * unat pl \<le> unat ?o + k \<and>
        unat ?o + k < Suc (unat p) * unat pl)"
      unfolding az(3,4) c(3,4) i(2)
      by (rule byte_in_piece_iff [OF _ lt]) (use i(1,2) in \<open>simp add: piece_map_inv_def\<close>)
    finally show ?thesis unfolding fin .
  qed
qed

theorem piece_range_for_file_bytes_exact_witness:
  "(case piece_range_for_file_bytes two_map 1 0 1 of None \<Rightarrow> False | Some (a, b) \<Rightarrow> a \<le> 0 \<and> 0 < b)"
  using piece_range_for_file_bytes_exact [OF two_map_built, where f = "two_files ! 1" and start = 0 and fin = 1 and p = 0]
  by (simp add: two_files_def)

end
