(* ===== verification/Piece_Map_V2.thy ===== *)
theory Piece_Map_V2
  imports Piece_Map
begin

text \<open>
  The BEP 52 piece map of \<open>crates/rt-piece-map/src/v2.rs\<close>: every non-empty file begins on a piece
  boundary, so a piece belongs to one file; alignment gaps are no file data.
\<close>

record 'p v2_file_span =
  v2s_file_index :: u32
  v2s_path :: 'p
  v2s_piece_offset :: u64
  v2s_length :: u64
  v2s_pad :: bool

record 'p v2_piece_region =
  v2r_file_index :: u32
  v2r_path :: 'p
  v2r_file_offset :: u64
  v2r_length :: u32
  v2r_pad :: bool

record 'p v2_piece_map =
  v2_piece_length :: u64
  v2_logical_length :: u64
  v2_piece_count :: u32
  v2_files :: "'p v2_file_span list"

subsection \<open>Operations\<close>

fun v2_check :: "u64 \<Rightarrow> u64 \<Rightarrow> u64 \<Rightarrow> 'p v2_file_span list \<Rightarrow> piece_map_error + u64" where
  "v2_check pl logical_length previous_end [] = Inr logical_length"
| "v2_check pl logical_length previous_end (f # fs) =
     (if v2s_length f = 0 then v2_check pl logical_length previous_end fs
      else if \<not> is_multiple_of (v2s_piece_offset f) pl then Inl (V2FileNotAligned (v2s_file_index f) pl)
      else case checked_add (v2s_piece_offset f) (v2s_length f) of
             None \<Rightarrow> Inl (IntegerOverflow ''v2 file span end'')
           | Some fin \<Rightarrow>
      if v2s_piece_offset f < previous_end then Inl (V2FileOverlap (v2s_file_index f))
      else v2_check pl (max logical_length fin) fin fs)"

definition v2_new :: "u64 \<Rightarrow> 'p v2_file_span list \<Rightarrow> piece_map_error + 'p v2_piece_map" where
  "v2_new pl fs =
     (if pl = 0 then Inl ZeroPieceLength
      else if pl > u64_from (- 1) then Inl (PieceLengthTooLarge pl)
      else let sorted_files = filter (\<lambda>f. v2s_length f > 0) (sort_key v2s_piece_offset fs) in
      case v2_check pl 0 0 sorted_files of Inl e \<Rightarrow> Inl e | Inr logical \<Rightarrow>
      let count64 = div_ceil logical pl in
      case u32_try_from count64 of None \<Rightarrow> Inl (PieceCountTooLarge count64) | Some count \<Rightarrow>
      Inr \<lparr>v2_piece_length = pl, v2_logical_length = logical, v2_piece_count = count, v2_files = sorted_files\<rparr>)"

definition check_piece :: "'p v2_piece_map \<Rightarrow> u32 \<Rightarrow> piece_map_error + unit" where
  "check_piece m piece =
     (if piece \<ge> v2_piece_count m then Inl (PieceOutOfRange piece (v2_piece_count m)) else Inr ())"

definition piece_to_file :: "'p v2_piece_map \<Rightarrow> u32 \<Rightarrow> piece_map_error + 'p v2_piece_region" where
  "piece_to_file m piece =
     (case check_piece m piece of Inl e \<Rightarrow> Inl e | Inr _ \<Rightarrow>
      case checked_mul (u64_from piece) (v2_piece_length m) of
        None \<Rightarrow> Inl (IntegerOverflow ''v2 piece start'')
      | Some piece_start \<Rightarrow>
      let point = partition_point (\<lambda>f. v2s_piece_offset f \<le> piece_start) (v2_files m) in
      if point < 1 then Inl (NoV2FileForPiece piece)
      else let f = v2_files m ! (point - 1) in
      case checked_add (v2s_piece_offset f) (v2s_length f) of
        None \<Rightarrow> Inl (IntegerOverflow ''v2 file span end'')
      | Some file_end \<Rightarrow>
      if v2s_length f = 0 \<or> piece_start \<ge> file_end then Inl (NoV2FileForPiece piece)
      else let file_offset = piece_start - v2s_piece_offset f;
               len = min (file_end - piece_start) (v2_piece_length m) in
      case u32_try_from len of
        None \<Rightarrow> Inl (IntegerOverflow ''v2 piece length'')
      | Some len32 \<Rightarrow>
          Inr \<lparr>v2r_file_index = v2s_file_index f, v2r_path = v2s_path f, v2r_file_offset = file_offset,
               v2r_length = len32, v2r_pad = v2s_pad f\<rparr>)"

definition v2_piece_len :: "'p v2_piece_map \<Rightarrow> u32 \<Rightarrow> piece_map_error + u32" where
  "v2_piece_len m piece = (case piece_to_file m piece of Inl e \<Rightarrow> Inl e | Inr r \<Rightarrow> Inr (v2r_length r))"

definition v2_validate_request ::
    "'p v2_piece_map \<Rightarrow> u32 \<Rightarrow> u32 \<Rightarrow> u32 \<Rightarrow> piece_map_error + 'p v2_piece_region" where
  "v2_validate_request m piece beg len =
     (if len = 0 then Inl ZeroRequestLength
      else if len > MAX_BLOCK_SIZE then Inl (BlockTooLarge len MAX_BLOCK_SIZE)
      else case piece_to_file m piece of Inl e \<Rightarrow> Inl e | Inr region \<Rightarrow>
      if u64_from beg + u64_from len > u64_from (v2r_length region)
      then Inl (RequestOutOfBounds beg len (v2r_length region))
      else case checked_add (v2r_file_offset region) (u64_from beg) of
             None \<Rightarrow> Inl (IntegerOverflow ''v2 request file offset'')
           | Some off \<Rightarrow> Inr (region\<lparr>v2r_file_offset := off, v2r_length := len\<rparr>))"

fun v2_piece_ranges_loop ::
    "'p v2_piece_map \<Rightarrow> u32 list \<Rightarrow> 'p v2_file_span list \<Rightarrow> (u32 \<times> u32) list
       \<Rightarrow> piece_map_error + (u32 \<times> u32) list" where
  "v2_piece_ranges_loop m indices [] ranges = Inr ranges"
| "v2_piece_ranges_loop m indices (f # fs) ranges =
     (if v2s_length f = 0 \<or> \<not> is_ok (binary_search indices (v2s_file_index f))
      then v2_piece_ranges_loop m indices fs ranges
      else case u32_try_from (v2s_piece_offset f div v2_piece_length m) of
             None \<Rightarrow> Inl (IntegerOverflow ''v2 file piece start'')
           | Some first \<Rightarrow>
      case checked_add (v2s_piece_offset f) (v2s_length f) of
        None \<Rightarrow> Inl (IntegerOverflow ''v2 file span end'')
      | Some fin \<Rightarrow>
      case u32_try_from (div_ceil fin (v2_piece_length m)) of
        None \<Rightarrow> Inl (IntegerOverflow ''v2 file piece end'')
      | Some last_piece \<Rightarrow>
      v2_piece_ranges_loop m indices fs
        (if first < last_piece then ranges @ [(first, last_piece)] else ranges))"

definition v2_piece_ranges_for_file_indices ::
    "'p v2_piece_map \<Rightarrow> u32 list \<Rightarrow> piece_map_error + (u32 \<times> u32) list" where
  "v2_piece_ranges_for_file_indices m indices = v2_piece_ranges_loop m indices (v2_files m) []"

subsection \<open>The invariant of a built map\<close>

definition v2_end :: "'p v2_file_span \<Rightarrow> nat" where
  "v2_end f = unat (v2s_piece_offset f) + unat (v2s_length f)"

definition owns :: "'p v2_piece_map \<Rightarrow> u32 \<Rightarrow> 'p v2_file_span \<Rightarrow> bool" where
  "owns m p f \<longleftrightarrow> unat (v2s_piece_offset f) \<le> unat p * unat (v2_piece_length m) \<and>
     unat p * unat (v2_piece_length m) < v2_end f"

definition v2_inv :: "'p v2_piece_map \<Rightarrow> bool" where
  "v2_inv m \<longleftrightarrow>
     0 < unat (v2_piece_length m) \<and> unat (v2_piece_length m) < 2 ^ 32 \<and>
     unat (v2_piece_count m) = div_up (unat (v2_logical_length m)) (unat (v2_piece_length m)) \<and>
     (\<forall>f \<in> set (v2_files m). 0 < unat (v2s_length f) \<and>
        unat (v2_piece_length m) dvd unat (v2s_piece_offset f) \<and> v2_end f \<le> unat (v2_logical_length m)) \<and>
     sorted_wrt (\<lambda>f g. v2_end f \<le> unat (v2s_piece_offset g)) (v2_files m)"

lemma v2_check_Inr:
  "v2_check pl lg prev fs = Inr r \<Longrightarrow> (\<forall>f \<in> set fs. 0 < unat (v2s_length f)) \<Longrightarrow>
     unat lg \<le> unat r \<and> sorted_wrt (\<lambda>f g. v2_end f \<le> unat (v2s_piece_offset g)) fs \<and>
     (\<forall>f \<in> set fs. unat prev \<le> unat (v2s_piece_offset f) \<and> unat pl dvd unat (v2s_piece_offset f) \<and>
        v2_end f \<le> unat r)"
proof (induction fs arbitrary: lg prev)
  case (Cons f fs)
  then have nz: "v2s_length f \<noteq> 0" by auto
  with Cons.prems(1) obtain fin where
    al: "is_multiple_of (v2s_piece_offset f) pl" and fin: "checked_add (v2s_piece_offset f) (v2s_length f) = Some fin"
    and pr: "\<not> v2s_piece_offset f < prev" and rec: "v2_check pl (max lg fin) fin fs = Inr r"
    by (auto split: if_splits option.splits)
  have e: "unat fin = v2_end f" using fin by (simp add: checked_add_Some_iff v2_end_def)
  have "unat prev \<le> unat (v2s_piece_offset f)" using pr by (simp add: word_less_nat_alt)
  moreover have "unat lg \<le> unat (max lg fin)" "unat fin \<le> unat (max lg fin)"
    by (simp_all add: max_def word_le_nat_alt)
  moreover note Cons.IH [OF rec]
  moreover have "unat (v2s_piece_offset f) \<le> unat fin" using e by (simp add: v2_end_def)
  ultimately show ?case using Cons.prems(2) al e by (fastforce simp: is_multiple_of_iff)
qed simp

lemma v2_new_Inr:
  assumes "v2_new pl fs = Inr m"
  shows "v2_inv m" "v2_piece_length m = pl" "set (v2_files m) = {f \<in> set fs. 0 < v2s_length f}"
proof -
  let ?L = "filter (\<lambda>f. v2s_length f > 0) (sort_key v2s_piece_offset fs)"
  from assms obtain lg c where pl: "pl \<noteq> 0" "\<not> pl > u64_from (- 1)" and lg: "v2_check pl 0 0 ?L = Inr lg"
    and c: "u32_try_from (div_ceil lg pl) = Some c"
    and m: "m = \<lparr>v2_piece_length = pl, v2_logical_length = lg, v2_piece_count = c, v2_files = ?L\<rparr>"
    by (auto simp: v2_new_def Let_def split: if_splits sum.splits option.splits)
  have "\<forall>f \<in> set ?L. 0 < unat (v2s_length f)" by (auto simp: word_less_nat_alt)
  from v2_check_Inr [OF lg this] this
  have chk: "sorted_wrt (\<lambda>f g. v2_end f \<le> unat (v2s_piece_offset g)) ?L"
    "\<forall>f \<in> set ?L. 0 < unat (v2s_length f) \<and> unat pl dvd unat (v2s_piece_offset f) \<and> v2_end f \<le> unat lg" by auto
  moreover have "unat c = div_up (unat lg) (unat pl)"
    using c unat_div_up [OF pl(1), of lg] by (simp add: u32_try_from_Some_iff)
  moreover have "0 < unat pl" "unat pl < 2 ^ 32"
    using pl u32_max_u64 by (simp_all add: word_less_nat_alt unat_gt_0)
  ultimately show "v2_inv m" unfolding m v2_inv_def by simp
  show "v2_piece_length m = pl" "set (v2_files m) = {f \<in> set fs. 0 < v2s_length f}"
    by (auto simp: m)
qed

lemma v2_start_ok:
  assumes "v2_inv m" "p < v2_piece_count m"
  shows "checked_mul (u64_from p) (v2_piece_length m) = Some (u64_from p * v2_piece_length m)"
    "unat (u64_from p * v2_piece_length m) = unat p * unat (v2_piece_length m)"
proof -
  have "unat p * unat (v2_piece_length m) < unat (v2_logical_length m)"
    using assms by (simp add: v2_inv_def word_less_nat_alt div_up_less_iff)
  then have b: "unat (u64_from p) * unat (v2_piece_length m) < 2 ^ 64"
    using unat_u64_bound [of "v2_logical_length m"] by (simp add: unat_u64_from)
  then show "checked_mul (u64_from p) (v2_piece_length m) = Some (u64_from p * v2_piece_length m)"
    by (simp add: checked_mul_def)
  from this show "unat (u64_from p * v2_piece_length m) = unat p * unat (v2_piece_length m)"
    by (simp add: checked_mul_Some_iff unat_u64_from)
qed

lemma v2_end_ok:
  assumes "v2_inv m" "f \<in> set (v2_files m)"
  shows "checked_add (v2s_piece_offset f) (v2s_length f) = Some (v2s_piece_offset f + v2s_length f)"
    "unat (v2s_piece_offset f + v2s_length f) = v2_end f"
proof -
  have "v2_end f \<le> unat (v2_logical_length m)" using assms by (simp add: v2_inv_def)
  then have "unat (v2s_piece_offset f) + unat (v2s_length f) < 2 ^ 64"
    using unat_u64_bound [of "v2_logical_length m"] by (simp add: v2_end_def)
  then show "checked_add (v2s_piece_offset f) (v2s_length f) = Some (v2s_piece_offset f + v2s_length f)"
    by (simp add: checked_add_def)
  from this show "unat (v2s_piece_offset f + v2s_length f) = v2_end f"
    by (simp add: checked_add_Some_iff v2_end_def)
qed

lemma v2_before:
  assumes "v2_inv m" "i < j" "j < length (v2_files m)"
  shows "v2_end (v2_files m ! i) \<le> unat (v2s_piece_offset (v2_files m ! j))"
  using assms by (auto simp: v2_inv_def sorted_wrt_iff_nth_less)

lemma owner_unique:
  assumes "v2_inv m" "f \<in> set (v2_files m)" "g \<in> set (v2_files m)" "owns m p f" "owns m p g"
  shows "f = g"
proof -
  obtain i j where ij: "i < length (v2_files m)" "f = v2_files m ! i" "j < length (v2_files m)" "g = v2_files m ! j"
    using assms(2,3) by (metis in_set_conv_nth)
  have "i = j"
    using v2_before [OF assms(1), of i j] v2_before [OF assms(1), of j i] ij assms(4,5)
    by (cases i j rule: linorder_cases) (auto simp: owns_def)
  with ij show ?thesis by simp
qed

text \<open>The region of a piece in the file that owns it.\<close>

definition v2_region :: "'p v2_piece_map \<Rightarrow> u32 \<Rightarrow> 'p v2_file_span \<Rightarrow> 'p v2_piece_region" where
  "v2_region m p f =
     \<lparr>v2r_file_index = v2s_file_index f, v2r_path = v2s_path f,
      v2r_file_offset = u64_from p * v2_piece_length m - v2s_piece_offset f,
      v2r_length = ucast (min (v2s_piece_offset f + v2s_length f - u64_from p * v2_piece_length m) (v2_piece_length m)),
      v2r_pad = v2s_pad f\<rparr>"

lemma v2_region_nat:
  assumes "v2_inv m" "p < v2_piece_count m" "f \<in> set (v2_files m)" "owns m p f"
  shows "unat (v2r_file_offset (v2_region m p f)) =
      unat p * unat (v2_piece_length m) - unat (v2s_piece_offset f)"
    "unat (v2r_length (v2_region m p f)) =
      min (v2_end f - unat p * unat (v2_piece_length m)) (unat (v2_piece_length m))"
    "u32_try_from (min (v2s_piece_offset f + v2s_length f - u64_from p * v2_piece_length m) (v2_piece_length m))
       = Some (v2r_length (v2_region m p f))"
proof -
  let ?s = "u64_from p * v2_piece_length m" and ?e = "v2s_piece_offset f + v2s_length f"
  note st = v2_start_ok(2) [OF assms(1,2)] and e = v2_end_ok(2) [OF assms(1,3)]
  have le: "v2s_piece_offset f \<le> ?s" "?s \<le> ?e"
    using assms(4) st e by (simp_all add: owns_def word_le_nat_alt)
  show "unat (v2r_file_offset (v2_region m p f)) = unat p * unat (v2_piece_length m) - unat (v2s_piece_offset f)"
    using unat_sub_le [OF le(1)] st by (simp add: v2_region_def)
  have l: "unat (min (?e - ?s) (v2_piece_length m)) =
      min (v2_end f - unat p * unat (v2_piece_length m)) (unat (v2_piece_length m))"
    using unat_sub_le [OF le(2)] st e by (simp add: min_def word_le_nat_alt)
  then have "unat (min (?e - ?s) (v2_piece_length m)) < 2 ^ 32"
    using assms(1) by (auto simp: v2_inv_def min_def)
  then show "u32_try_from (min (?e - ?s) (v2_piece_length m)) = Some (v2r_length (v2_region m p f))"
    by (simp add: u32_try_from_def v2_region_def)
  with l show "unat (v2r_length (v2_region m p f)) =
      min (v2_end f - unat p * unat (v2_piece_length m)) (unat (v2_piece_length m))"
    by (simp add: u32_try_from_Some_iff)
qed

lemma piece_to_file_owner:
  assumes "v2_inv m" "p < v2_piece_count m" "f \<in> set (v2_files m)" "owns m p f"
  shows "piece_to_file m p = Inr (v2_region m p f)"
proof -
  let ?s = "u64_from p * v2_piece_length m" and ?L = "v2_files m"
  note st = v2_start_ok [OF assms(1,2)] and e = v2_end_ok [OF assms(1,3)]
  obtain i where i: "i < length ?L" "f = ?L ! i" using assms(3) by (metis in_set_conv_nth)
  have "partition_point (\<lambda>f. v2s_piece_offset f \<le> ?s) ?L = Suc i"
  proof (rule partition_point_eqI)
    show "Suc i \<le> length ?L" using i(1) by simp
    show "v2s_piece_offset (?L ! j) \<le> ?s" if "j < Suc i" for j
    proof (cases "j = i")
      case False
      then have "v2_end (?L ! j) \<le> unat (v2s_piece_offset f)"
        using v2_before [OF assms(1), of j i] that i by simp
      then show ?thesis using assms(4) st(2) by (simp add: owns_def v2_end_def word_le_nat_alt)
    qed (use assms(4) st(2) i(2) in \<open>simp add: owns_def word_le_nat_alt\<close>)
    show "\<not> v2s_piece_offset (?L ! j) \<le> ?s" if "Suc i \<le> j" "j < length ?L" for j
      using v2_before [OF assms(1), of i j] that i assms(4) st(2) by (simp add: owns_def word_le_nat_alt)
  qed
  moreover have "v2s_length f \<noteq> 0" using assms(1,3) by (auto simp: v2_inv_def)
  moreover have "\<not> ?s \<ge> v2s_piece_offset f + v2s_length f"
    using assms(4) st(2) e(2) by (simp add: owns_def word_le_nat_alt)
  ultimately show ?thesis
    using assms(2) st(1) e(1) i v2_region_nat(3) [OF assms]
    by (simp add: piece_to_file_def check_piece_def Let_def) (simp add: v2_region_def)
qed

lemma piece_to_file_gap:
  assumes "v2_inv m" "p < v2_piece_count m" "\<forall>f \<in> set (v2_files m). \<not> owns m p f"
  shows "piece_to_file m p = Inl (NoV2FileForPiece p)"
proof -
  let ?s = "u64_from p * v2_piece_length m" and ?L = "v2_files m"
  let ?q = "\<lambda>f. v2s_piece_offset f \<le> ?s"
  note st = v2_start_ok [OF assms(1,2)]
  have pp: "partition_point ?q ?L = length (takeWhile ?q ?L)"
  proof (rule partition_point_takeWhile)
    fix i j assume "i \<le> j" "j < length ?L" "?q (?L ! j)"
    then show "?q (?L ! i)"
      using v2_before [OF assms(1), of i j] by (cases "i = j") (auto simp: v2_end_def word_le_nat_alt)
  qed
  show ?thesis
  proof (cases "partition_point ?q ?L < 1")
    case True
    then show ?thesis using assms(2) st(1) by (simp add: piece_to_file_def check_piece_def Let_def)
  next
    case False
    define f where "f = ?L ! (partition_point ?q ?L - Suc 0)"
    have k: "partition_point ?q ?L - Suc 0 < length (takeWhile ?q ?L)" using False pp by simp
    then have f: "f \<in> set ?L" unfolding f_def using length_takeWhile_le [of ?q ?L] by (intro nth_mem) linarith
    have "?q f" unfolding f_def using k by (metis nth_mem set_takeWhileD takeWhile_nth)
    then have "\<not> unat ?s < v2_end f" using assms(3) f st(2) by (auto simp: owns_def word_le_nat_alt)
    then have "?s \<ge> v2s_piece_offset f + v2s_length f"
      using v2_end_ok(2) [OF assms(1) f] by (simp add: word_le_nat_alt)
    then show ?thesis
      using False assms(2) st(1) v2_end_ok(1) [OF assms(1) f]
      by (simp add: piece_to_file_def check_piece_def Let_def f_def [symmetric])
  qed
qed

lemma v2_byte_owner:
  assumes "v2_inv m" "f \<in> set (v2_files m)" "k < unat (v2s_length f)"
    and p: "unat p = (unat (v2s_piece_offset f) + k) div unat (v2_piece_length m)"
  shows "owns m p f" "p < v2_piece_count m"
proof -
  let ?pl = "unat (v2_piece_length m)" and ?o = "unat (v2s_piece_offset f)"
  have pl: "0 < ?pl" and dv: "?pl dvd ?o" and e: "v2_end f \<le> unat (v2_logical_length m)"
    using assms(1,2) by (auto simp: v2_inv_def)
  have lt: "unat p * ?pl \<le> ?o + k" unfolding p by (rule div_times_less_eq_dividend)
  obtain q where q: "?o = q * ?pl" using dv by (metis dvd_def mult.commute)
  have "q \<le> unat p" unfolding p q using pl by simp
  then have "?o \<le> unat p * ?pl" unfolding q by simp
  with lt assms(3) show "owns m p f" by (simp add: owns_def v2_end_def)
  have "unat p * ?pl < unat (v2_logical_length m)" using lt assms(3) e unfolding v2_end_def by linarith
  then show "p < v2_piece_count m"
    using assms(1) pl by (simp add: v2_inv_def word_less_nat_alt div_up_less_iff)
qed

lemma v2_piece_index:
  assumes "v2_inv m" "f \<in> set (v2_files m)" "k < unat (v2s_length f)"
  shows "unat (of_nat ((unat (v2s_piece_offset f) + k) div unat (v2_piece_length m)) :: u32)
    = (unat (v2s_piece_offset f) + k) div unat (v2_piece_length m)" (is "unat (of_nat ?q :: u32) = ?q")
proof -
  have pl: "0 < unat (v2_piece_length m)" and e: "v2_end f \<le> unat (v2_logical_length m)"
    using assms(1,2) by (auto simp: v2_inv_def)
  have "?q * unat (v2_piece_length m) \<le> unat (v2s_piece_offset f) + k" by (rule div_times_less_eq_dividend)
  then have "?q * unat (v2_piece_length m) < unat (v2_logical_length m)"
    using assms(3) e unfolding v2_end_def by linarith
  then have "?q < unat (v2_piece_count m)" using assms(1) pl by (simp add: v2_inv_def div_up_less_iff)
  then have "?q < 2 ^ 32" using unat_u32_bound [of "v2_piece_count m"] by linarith
  then show ?thesis by (simp add: unat_of_nat)
qed

subsection \<open>Properties\<close>

text \<open>
  C26. A v2 piece is mapped to the one file that owns it. A lookup fails only for an index past the
  last piece or for a piece that lies in an alignment gap, never with an overflow; a successful
  lookup names the unique file whose span holds the start of the piece, with the offset and the
  length of the piece inside that file.
\<close>

theorem v2_piece_owner:
  assumes "v2_new pl fs = Inr m"
  shows "case piece_to_file m p of
      Inl e \<Rightarrow> (e = PieceOutOfRange p (v2_piece_count m) \<and> v2_piece_count m \<le> p) \<or>
        (e = NoV2FileForPiece p \<and> p < v2_piece_count m \<and> \<not> (\<exists>f \<in> set fs. 0 < v2s_length f \<and> owns m p f))
    | Inr r \<Rightarrow> p < v2_piece_count m \<and>
        (\<exists>f. {f \<in> set fs. 0 < v2s_length f \<and> owns m p f} = {f} \<and>
           v2r_file_index r = v2s_file_index f \<and> v2r_path r = v2s_path f \<and> v2r_pad r = v2s_pad f \<and>
           unat (v2s_piece_offset f) + unat (v2r_file_offset r) = unat p * unat pl \<and>
           unat (v2r_length r) = min (v2_end f - unat p * unat pl) (unat pl))"
proof -
  note i = v2_new_Inr [OF assms]
  show ?thesis
  proof (cases "p < v2_piece_count m")
    case False
    then show ?thesis by (simp add: piece_to_file_def check_piece_def not_less)
  next
    case p: True
    show ?thesis
    proof (cases "\<exists>f \<in> set (v2_files m). owns m p f")
      case False
      then show ?thesis using piece_to_file_gap [OF i(1) p] p i(3) by auto
    next
      case True
      then obtain f where f: "f \<in> set (v2_files m)" "owns m p f" by blast
      then have "{f \<in> set fs. 0 < v2s_length f \<and> owns m p f} = {f}"
        using owner_unique [OF i(1)] i(3) by auto
      with f p show ?thesis
        unfolding piece_to_file_owner [OF i(1) p f]
        using v2_region_nat(1,2) [OF i(1) p f] i(2)
        by (auto simp: owns_def v2_region_def)
    qed
  qed
qed

text \<open>
  Every byte of every non-empty file is reachable: the piece at its position maps back to that
  file, to a region that holds the byte.
\<close>

theorem v2_bytes_covered:
  assumes "v2_new pl fs = Inr m" and "f \<in> set fs" and "k < unat (v2s_length f)"
  shows "\<exists>r. piece_to_file m (of_nat ((unat (v2s_piece_offset f) + k) div unat pl)) = Inr r \<and>
    v2r_file_index r = v2s_file_index f \<and>
    unat (v2r_file_offset r) \<le> k \<and> k < unat (v2r_file_offset r) + unat (v2r_length r)"
proof -
  note i = v2_new_Inr [OF assms(1)]
  have f: "f \<in> set (v2_files m)" using assms(2,3) i(3) by (simp add: word_less_nat_alt)
  let ?p = "of_nat ((unat (v2s_piece_offset f) + k) div unat pl) :: u32" and ?pl = "unat pl"
  note u = v2_piece_index [OF i(1) f assms(3), unfolded i(2)]
  note o = v2_byte_owner [OF i(1) f assms(3), of ?p, unfolded i(2), OF u]
  note n = v2_region_nat(1,2) [OF i(1) o(2) f o(1), unfolded i(2)]
  have pl: "0 < ?pl" using i(1,2) by (simp add: v2_inv_def)
  have "unat ?p * ?pl \<le> unat (v2s_piece_offset f) + k" unfolding u by (rule div_times_less_eq_dividend)
  moreover have "unat (v2s_piece_offset f) + k < unat ?p * ?pl + ?pl"
    unfolding u using dividend_less_div_times [OF pl, of "unat (v2s_piece_offset f) + k"] by simp
  moreover have "unat (v2s_piece_offset f) \<le> unat ?p * ?pl" using o(1) i(2) by (simp add: owns_def)
  ultimately have "unat (v2r_file_offset (v2_region m ?p f)) \<le> k"
    "k < unat (v2r_file_offset (v2_region m ?p f)) + unat (v2r_length (v2_region m ?p f))"
    unfolding n v2_end_def using assms(3) by linarith+
  then show ?thesis using piece_to_file_owner [OF i(1) o(2) f o(1)] by (auto simp: v2_region_def)
qed

definition v2_two_files :: "nat v2_file_span list" where
  "v2_two_files = [\<lparr>v2s_file_index = 1, v2s_path = 11, v2s_piece_offset = 8, v2s_length = 5, v2s_pad = False\<rparr>,
     \<lparr>v2s_file_index = 0, v2s_path = 10, v2s_piece_offset = 0, v2s_length = 3, v2s_pad = False\<rparr>]"

definition v2_two_map :: "nat v2_piece_map" where
  "v2_two_map = \<lparr>v2_piece_length = 4, v2_logical_length = 13, v2_piece_count = 4,
     v2_files = [\<lparr>v2s_file_index = 0, v2s_path = 10, v2s_piece_offset = 0, v2s_length = 3, v2s_pad = False\<rparr>,
       \<lparr>v2s_file_index = 1, v2s_path = 11, v2s_piece_offset = 8, v2s_length = 5, v2s_pad = False\<rparr>]\<rparr>"

lemma v2_two_map_built: "v2_new 4 v2_two_files = Inr v2_two_map"
  by (simp add: v2_new_def v2_two_files_def v2_two_map_def checked_add_def is_multiple_of_def div_ceil_def
      u32_try_from_def Let_def word_less_nat_alt u32_max_u64 max_def)

theorem v2_piece_owner_witness:
  "case piece_to_file v2_two_map 2 of Inl e \<Rightarrow> False | Inr r \<Rightarrow> v2r_file_index r = 1 \<and> unat (v2r_length r) = 4"
proof -
  have "{f \<in> set v2_two_files. 0 < v2s_length f \<and> owns v2_two_map 2 f} = {v2_two_files ! 0}"
    by (auto simp: v2_two_files_def v2_two_map_def owns_def v2_end_def)
  then show ?thesis
    using v2_piece_owner [OF v2_two_map_built, of 2]
    by (auto simp: v2_two_files_def v2_two_map_def owns_def v2_end_def split: sum.splits)
qed

theorem v2_bytes_covered_witness:
  "\<exists>r. piece_to_file v2_two_map 3 = Inr r \<and> v2r_file_index r = 1 \<and>
     unat (v2r_file_offset r) \<le> 4 \<and> 4 < unat (v2r_file_offset r) + unat (v2r_length r)"
  using v2_bytes_covered [OF v2_two_map_built, where f = "v2_two_files ! 0" and k = 4]
  by (simp add: v2_two_files_def)


lemma piece_to_file_out: "\<not> p < v2_piece_count m \<Longrightarrow> piece_to_file m p = Inl (PieceOutOfRange p (v2_piece_count m))"
  by (simp add: piece_to_file_def check_piece_def not_less)

lemma v2_validate_inside:
  assumes "v2_inv m" "p < v2_piece_count m" "f \<in> set (v2_files m)" "owns m p f"
    and "unat b + unat l \<le> unat (v2r_length (v2_region m p f))" "l \<noteq> 0" "\<not> l > MAX_BLOCK_SIZE"
  obtains off where "v2_validate_request m p b l = Inr ((v2_region m p f)\<lparr>v2r_file_offset := off, v2r_length := l\<rparr>)"
    "unat (v2s_piece_offset f) + unat off = unat p * unat (v2_piece_length m) + unat b"
    "unat off + unat l \<le> unat (v2s_length f)"
proof -
  let ?r = "v2_region m p f" and ?s = "unat p * unat (v2_piece_length m)"
  note n = v2_region_nat(1,2) [OF assms(1-4)]
  have e: "unat (v2s_piece_offset f) \<le> ?s" "?s < v2_end f" using assms(4) by (simp_all add: owns_def)
  have inside: "unat (v2r_file_offset ?r) + unat b + unat l \<le> unat (v2s_length f)"
    using assms(5) e unfolding n v2_end_def by linarith
  then have "unat (v2r_file_offset ?r) + unat b < 2 ^ 64" using unat_u64_bound [of "v2s_length f"] by linarith
  then obtain off where off: "checked_add (v2r_file_offset ?r) (u64_from b) = Some off"
    "unat off = unat (v2r_file_offset ?r) + unat b"
    using checked_add_None_iff [of "v2r_file_offset ?r" "u64_from b"]
    by (cases "checked_add (v2r_file_offset ?r) (u64_from b)") (auto simp: checked_add_Some_iff unat_u64_from)
  show ?thesis
  proof (rule that)
    show "v2_validate_request m p b l = Inr (?r\<lparr>v2r_file_offset := off, v2r_length := l\<rparr>)"
      using assms(5-7) piece_to_file_owner [OF assms(1-4)] request_sum off(1) by (simp add: v2_validate_request_def)
    show "unat (v2s_piece_offset f) + unat off = ?s + unat b" using off(2) n(1) e(1) by simp
    show "unat off + unat l \<le> unat (v2s_length f)" using off(2) inside by simp
  qed
qed

text \<open>
  A block request on a v2 piece is accepted exactly when it has between 1 byte and 16 KiB and ends
  inside the piece's part of the owning file; the region returned is then the requested block,
  inside that file. No check overflows.
\<close>

theorem v2_validate_request_correct:
  assumes "v2_new pl fs = Inr m"
  shows "case v2_validate_request m p b l of
      Inr r \<Rightarrow> 0 < l \<and> l \<le> MAX_BLOCK_SIZE \<and> v2r_length r = l \<and>
        (\<exists>f \<in> set fs. owns m p f \<and> v2r_file_index r = v2s_file_index f \<and>
           unat (v2s_piece_offset f) + unat (v2r_file_offset r) = unat p * unat pl + unat b \<and>
           unat (v2r_file_offset r) + unat l \<le> unat (v2s_length f))
    | Inl e \<Rightarrow> (\<forall>s. e \<noteq> IntegerOverflow s) \<and>
        \<not> (0 < l \<and> l \<le> MAX_BLOCK_SIZE \<and> p < v2_piece_count m \<and>
          (\<exists>f \<in> set fs. owns m p f \<and> unat b + unat l \<le> min (v2_end f - unat p * unat pl) (unat pl)))"
proof (cases "0 < l \<and> l \<le> MAX_BLOCK_SIZE")
  case False
  moreover have "l = 0 \<longleftrightarrow> \<not> 0 < l" by (simp add: word_gt_0)
  ultimately show ?thesis by (auto simp: v2_validate_request_def)
next
  case True
  note i = v2_new_Inr [OF assms]
  from True have l: "l \<noteq> 0" "\<not> l > MAX_BLOCK_SIZE" by (auto simp: not_less)
  have own: "f \<in> set (v2_files m)" if "f \<in> set fs" "owns m p f" for f
    using that i(3) by (auto simp: owns_def v2_end_def word_less_nat_alt)
  show ?thesis
  proof (cases "p < v2_piece_count m \<and> (\<exists>f \<in> set (v2_files m). owns m p f)")
    case False
    then have "piece_to_file m p = Inl (NoV2FileForPiece p) \<or> piece_to_file m p = Inl (PieceOutOfRange p (v2_piece_count m))"
      using piece_to_file_gap [OF i(1), of p] by (cases "p < v2_piece_count m") (auto simp: piece_to_file_out)
    moreover have "\<not> (p < v2_piece_count m \<and> (\<exists>f \<in> set fs. owns m p f))" using False own by blast
    ultimately show ?thesis using l by (auto simp: v2_validate_request_def)
  next
    case po: True
    then obtain f where p: "p < v2_piece_count m" and f: "f \<in> set (v2_files m)" "owns m p f" by blast
    let ?r = "v2_region m p f"
    note n = v2_region_nat(1,2) [OF i(1) p f, unfolded i(2)]
    have u: "g = f" if "g \<in> set fs" "owns m p g" for g using owner_unique [OF i(1) own f(1) _ f(2)] that by blast
    show ?thesis
    proof (cases "unat b + unat l \<le> unat (v2r_length ?r)")
      case False
      then have "v2_validate_request m p b l = Inl (RequestOutOfBounds b l (v2r_length ?r))"
        using l piece_to_file_owner [OF i(1) p f] request_sum by (simp add: v2_validate_request_def)
      then show ?thesis using False n(2) u by auto
    next
      case ok: True
      obtain off where "v2_validate_request m p b l = Inr (?r\<lparr>v2r_file_offset := off, v2r_length := l\<rparr>)"
        "unat (v2s_piece_offset f) + unat off = unat p * unat pl + unat b" "unat off + unat l \<le> unat (v2s_length f)"
        by (rule v2_validate_inside [OF i(1) p f ok l, unfolded i(2)])
      moreover have "f \<in> set fs" using f(1) i(3) by auto
      ultimately show ?thesis using True f(2) by (auto simp: v2_region_def)
    qed
  qed
qed


theorem v2_validate_request_correct_witness:
  "case v2_validate_request v2_two_map 2 1 3 of Inl e \<Rightarrow> False | Inr r \<Rightarrow> v2r_length r = 3"
proof -
  have "(3 :: u32) \<le> MAX_BLOCK_SIZE" by (simp add: MAX_BLOCK_SIZE_def)
  then show ?thesis
    using v2_validate_request_correct [OF v2_two_map_built, where p = 2 and b = 1 and l = 3]
    by (auto simp: v2_two_files_def v2_two_map_def owns_def v2_end_def split: sum.splits)
qed

lemma v2_range_owner:
  assumes "v2_inv m" "f \<in> set (v2_files m)"
  shows "unat (v2s_piece_offset f) div unat (v2_piece_length m) \<le> unat p \<and>
      unat p < div_up (v2_end f) (unat (v2_piece_length m)) \<longleftrightarrow> owns m p f"
proof -
  let ?pl = "unat (v2_piece_length m)"
  have pl: "0 < ?pl" and "?pl dvd unat (v2s_piece_offset f)" using assms by (auto simp: v2_inv_def)
  then obtain q where q: "unat (v2s_piece_offset f) = q * ?pl" by (metis dvd_def mult.commute)
  have "unat p < div_up (v2_end f) ?pl \<longleftrightarrow> unat p * ?pl < v2_end f" using pl by (rule div_up_less_iff)
  then show ?thesis using pl unfolding owns_def q by simp
qed

lemma v2_piece_ranges_loop_ok:
  assumes "v2_inv m" "sorted idx"
  shows "set fs \<subseteq> set (v2_files m) \<Longrightarrow> \<exists>rs. v2_piece_ranges_loop m idx fs acc = Inr rs \<and>
    (\<forall>p. piece_in p rs \<longleftrightarrow> piece_in p acc \<or> (\<exists>f \<in> set fs. v2s_file_index f \<in> set idx \<and> owns m p f))"
proof (induction fs arbitrary: acc)
  case (Cons f fs)
  then have f: "f \<in> set (v2_files m)" by simp
  have l: "v2s_length f \<noteq> 0" and lg: "v2_end f \<le> unat (v2_logical_length m)"
    using assms(1) f by (auto simp: v2_inv_def)
  let ?pl = "unat (v2_piece_length m)"
  have pl: "0 < ?pl" "v2_piece_length m \<noteq> 0" using assms(1) by (auto simp: v2_inv_def)
  show ?case
  proof (cases "v2s_file_index f \<in> set idx")
    case False
    then show ?thesis using Cons.IH [of acc] Cons.prems by (auto simp: binary_search_found_iff [OF assms(2)])
  next
    case True
    note e = v2_end_ok [OF assms(1) f]
    have c: "div_up (v2_end f) ?pl \<le> unat (v2_piece_count m)"
      using assms(1) div_up_mono [OF lg, of ?pl] by (simp add: v2_inv_def)
    moreover have "unat (v2s_piece_offset f) div ?pl \<le> div_up (v2_end f) ?pl"
      by (rule div_le_div_up [OF pl(1)]) (simp add: v2_end_def)
    ultimately have b: "unat (v2s_piece_offset f) div ?pl < 2 ^ 32" "div_up (v2_end f) ?pl < 2 ^ 32"
      using unat_u32_bound [of "v2_piece_count m"] by linarith+
    define a where "a = (ucast (v2s_piece_offset f div v2_piece_length m) :: u32)"
    define z where "z = (ucast (div_ceil (v2s_piece_offset f + v2s_length f) (v2_piece_length m)) :: u32)"
    have a: "u32_try_from (v2s_piece_offset f div v2_piece_length m) = Some a"
      using b(1) by (simp add: u32_try_from_def a_def unat_div)
    have z: "u32_try_from (div_ceil (v2s_piece_offset f + v2s_length f) (v2_piece_length m)) = Some z"
      using b(2) e(2) by (simp add: u32_try_from_def z_def unat_div_up [OF pl(2)])
    have az: "unat a = unat (v2s_piece_offset f) div ?pl" "unat z = div_up (v2_end f) ?pl"
      using a z e(2) by (simp_all add: u32_try_from_Some_iff unat_div unat_div_up [OF pl(2)])
    let ?acc = "if a < z then acc @ [(a, z)] else acc"
    have "piece_in p ?acc \<longleftrightarrow> piece_in p acc \<or> owns m p f" for p
      using v2_range_owner [OF assms(1) f, of p] az
      by (auto simp: piece_in_def word_le_nat_alt word_less_nat_alt)
    moreover obtain rs where "v2_piece_ranges_loop m idx fs ?acc = Inr rs"
      "\<forall>p. piece_in p rs \<longleftrightarrow> piece_in p ?acc \<or> (\<exists>f \<in> set fs. v2s_file_index f \<in> set idx \<and> owns m p f)"
      using Cons.IH [of ?acc] Cons.prems by auto
    ultimately show ?thesis
      using True l e(1) a z by (auto simp: binary_search_found_iff [OF assms(2)])
  qed
qed simp

text \<open>
  The v2 piece ranges of a set of file indices are exactly the pieces that map to one of them.
\<close>

theorem v2_piece_ranges_exact:
  assumes "v2_new pl fs = Inr m" and "sorted idx"
  shows "\<exists>ranges. v2_piece_ranges_for_file_indices m idx = Inr ranges \<and>
    (\<forall>p < v2_piece_count m. piece_in p ranges \<longleftrightarrow>
       (\<exists>r. piece_to_file m p = Inr r \<and> v2r_file_index r \<in> set idx))"
proof -
  note i = v2_new_Inr [OF assms(1)]
  from v2_piece_ranges_loop_ok [OF i(1) assms(2), of "v2_files m" "[]"] obtain ranges where
    r: "v2_piece_ranges_for_file_indices m idx = Inr ranges"
      "\<And>p. piece_in p ranges \<longleftrightarrow> (\<exists>f \<in> set (v2_files m). v2s_file_index f \<in> set idx \<and> owns m p f)"
    by (auto simp: v2_piece_ranges_for_file_indices_def piece_in_def)
  have "piece_in p ranges \<longleftrightarrow> (\<exists>r. piece_to_file m p = Inr r \<and> v2r_file_index r \<in> set idx)"
    if p: "p < v2_piece_count m" for p
  proof (cases "\<exists>f \<in> set (v2_files m). owns m p f")
    case True
    then obtain f where f: "f \<in> set (v2_files m)" "owns m p f" by blast
    have "piece_in p ranges \<longleftrightarrow> v2s_file_index f \<in> set idx"
      unfolding r(2) using f owner_unique [OF i(1) f(1) _ f(2)] by blast
    then show ?thesis using piece_to_file_owner [OF i(1) p f] by (simp add: v2_region_def)
  next
    case False
    then show ?thesis using r(2) [of p] piece_to_file_gap [OF i(1) p] by auto
  qed
  with r(1) show ?thesis by blast
qed

theorem v2_piece_ranges_exact_witness:
  "\<exists>ranges. v2_piece_ranges_for_file_indices v2_two_map [1] = Inr ranges \<and>
    (\<forall>p < v2_piece_count v2_two_map. piece_in p ranges \<longleftrightarrow>
       (\<exists>r. piece_to_file v2_two_map p = Inr r \<and> v2r_file_index r \<in> set [1]))"
  by (rule v2_piece_ranges_exact [OF v2_two_map_built]) simp

end
