(* ===== verification/Resource_Governor.thy ===== *)
theory Resource_Governor
  imports TNG_Prelude "HOL-Library.Multiset"
begin

text \<open>
  The memory admission of \<open>crates/rt-metrics/src/resource.rs\<close>: per-class and total byte counters with
  caps, leases that charge them, and the pressure level. The arrays indexed by \<open>MemoryClass\<close> are
  functions of the class. The first part is the code as one thread runs it; the second part takes the
  atomic operations of concurrent callers apart and interleaves them. Each loop of \<open>reserve\<close> is one atomic
  step there; \<open>Governor_Cas\<close> takes the loops apart and refines to these steps.
\<close>

subsection \<open>Classes and configuration\<close>

datatype memory_class =
    StorageFrame | PieceAssembly | PeerBuffer | WebseedBody | Metadata
  | TrackerPeers | DhtTable | QueuedDisk | ApiSnapshot | PieceIndex

definition MEMORY_CLASS_COUNT :: nat where
  "MEMORY_CLASS_COUNT = 10"

definition ALL_CLASSES :: "memory_class list" where
  "ALL_CLASSES = [StorageFrame, PieceAssembly, PeerBuffer, WebseedBody, Metadata, TrackerPeers, DhtTable,
     QueuedDisk, ApiSnapshot, PieceIndex]"

fun class_as_str :: "memory_class \<Rightarrow> string" where
  "class_as_str StorageFrame = ''storage_frame''"
| "class_as_str PieceAssembly = ''piece_assembly''"
| "class_as_str PeerBuffer = ''peer_buffer''"
| "class_as_str WebseedBody = ''webseed_body''"
| "class_as_str Metadata = ''metadata''"
| "class_as_str TrackerPeers = ''tracker_peers''"
| "class_as_str DhtTable = ''dht_table''"
| "class_as_str QueuedDisk = ''queued_disk''"
| "class_as_str ApiSnapshot = ''api_snapshot''"
| "class_as_str PieceIndex = ''piece_index''"

fun class_index :: "memory_class \<Rightarrow> nat" where
  "class_index StorageFrame = 0"
| "class_index PieceAssembly = 1"
| "class_index PeerBuffer = 2"
| "class_index WebseedBody = 3"
| "class_index Metadata = 4"
| "class_index TrackerPeers = 5"
| "class_index DhtTable = 6"
| "class_index QueuedDisk = 7"
| "class_index ApiSnapshot = 8"
| "class_index PieceIndex = 9"

text \<open>The index picks the class out of the table, so arrays by index and functions of the class agree.\<close>

lemma ALL_CLASSES_index: "length ALL_CLASSES = MEMORY_CLASS_COUNT \<and> class_index c < MEMORY_CLASS_COUNT \<and> ALL_CLASSES ! class_index c = c"
  by (cases c) (simp_all add: ALL_CLASSES_def MEMORY_CLASS_COUNT_def)

datatype memory_pressure = Normal | Constrained | Critical

fun pressure_as_str :: "memory_pressure \<Rightarrow> string" where
  "pressure_as_str Normal = ''normal''"
| "pressure_as_str Constrained = ''constrained''"
| "pressure_as_str Critical = ''critical''"

record governor_config =
  total_cap_bytes :: u64
  class_caps_bytes :: "memory_class \<Rightarrow> u64"
  pressure_constrained_pct :: u8
  pressure_critical_pct :: u8

definition default_config :: governor_config where
  "default_config =
     (let mib = 1024 * 1024 in
      \<lparr>total_cap_bytes = 512 * mib,
       class_caps_bytes = (\<lambda>c. [128 * mib, 128 * mib, 128 * mib, 32 * mib, 32 * mib, 32 * mib, 32 * mib,
         32 * mib, 16 * mib, 128 * mib] ! class_index c),
       pressure_constrained_pct = 75, pressure_critical_pct = 90\<rparr>)"

record governor =
  gconfig :: governor_config
  total_used :: u64
  class_used :: "memory_class \<Rightarrow> u64"
  denied :: "memory_class \<Rightarrow> u64"

record memory_lease =
  lease_class :: memory_class
  lease_bytes :: u64

definition governor_new :: "governor_config \<Rightarrow> governor" where
  "governor_new cfg = \<lparr>gconfig = cfg, total_used = 0, class_used = (\<lambda>_. 0), denied = (\<lambda>_. 0)\<rparr>"

subsection \<open>Operations\<close>

text \<open>The last round of the compare-and-swap loop of \<open>reserve\<close>: the new counter, or a refusal. The theory
  \<open>Governor_Cas\<close> has the rounds that fail.\<close>

definition reserve :: "u64 \<Rightarrow> u64 \<Rightarrow> u64 \<Rightarrow> u64 option" where
  "reserve current bytes cap =
     (case checked_add current bytes of
        None \<Rightarrow> None
      | Some next \<Rightarrow> if next > cap then None else Some next)"

definition deny :: "memory_class \<Rightarrow> governor \<Rightarrow> governor" where
  "deny c g = g\<lparr>denied := (denied g)(c := denied g c + 1)\<rparr>"

definition try_acquire :: "governor \<Rightarrow> memory_class \<Rightarrow> u64 \<Rightarrow> memory_lease option \<times> governor" where
  "try_acquire g c bytes =
     (if bytes = 0 then (Some \<lparr>lease_class = c, lease_bytes = bytes\<rparr>, g)
      else let class_cap = class_caps_bytes (gconfig g) c in
      if class_cap = 0 \<or> bytes > class_cap \<or> bytes > total_cap_bytes (gconfig g) then (None, deny c g)
      else case reserve (class_used g c) bytes class_cap of
             None \<Rightarrow> (None, deny c g)
           | Some next_class \<Rightarrow>
      let g1 = g\<lparr>class_used := (class_used g)(c := next_class)\<rparr> in
      case reserve (total_used g1) bytes (total_cap_bytes (gconfig g)) of
        None \<Rightarrow>
          (None, deny c (g1\<lparr>class_used := (class_used g1)(c := class_used g1 c - bytes)\<rparr>))
      | Some next_total \<Rightarrow>
          (Some \<lparr>lease_class = c, lease_bytes = bytes\<rparr>, g1\<lparr>total_used := next_total\<rparr>))"

definition release :: "governor \<Rightarrow> memory_class \<Rightarrow> u64 \<Rightarrow> governor" where
  "release g c bytes =
     (if bytes = 0 then g
      else g\<lparr>class_used := (class_used g)(c := class_used g c - bytes), total_used := total_used g - bytes\<rparr>)"

definition drop_lease :: "governor \<Rightarrow> memory_lease \<Rightarrow> governor" where
  "drop_lease g l = release g (lease_class l) (lease_bytes l)"

definition try_grow :: "governor \<Rightarrow> memory_lease \<Rightarrow> u64 \<Rightarrow> bool \<times> memory_lease \<times> governor" where
  "try_grow g l additional =
     (case checked_add (lease_bytes l) additional of
        None \<Rightarrow> (False, l, g)
      | Some new_bytes \<Rightarrow>
          if additional = 0 then (True, l, g)
          else case try_acquire g (lease_class l) additional of
                 (None, g') \<Rightarrow> (False, l, g')
               | (Some _, g') \<Rightarrow> (True, l\<lparr>lease_bytes := new_bytes\<rparr>, g'))"

definition saturating_mul :: "u64 \<Rightarrow> u64 \<Rightarrow> u64" where
  "saturating_mul a b = (case checked_mul a b of None \<Rightarrow> - 1 | Some c \<Rightarrow> c)"

definition pressure_for :: "u64 \<Rightarrow> u64 \<Rightarrow> u8 \<Rightarrow> u8 \<Rightarrow> memory_pressure" where
  "pressure_for used cap constrained_pct critical_pct =
     (if cap = 0 then Critical
      else let used_pct = saturating_mul used 100 div cap in
      if used_pct \<ge> ucast critical_pct then Critical
      else if used_pct \<ge> ucast constrained_pct then Constrained
      else Normal)"

definition pressure :: "governor \<Rightarrow> memory_pressure" where
  "pressure g = pressure_for (total_used g) (total_cap_bytes (gconfig g))
     (pressure_constrained_pct (gconfig g)) (pressure_critical_pct (gconfig g))"

record memory_class_snapshot =
  snap_class :: memory_class
  snap_cap_bytes :: u64
  snap_used_bytes :: u64
  snap_denied_allocations :: u64

record resource_snapshot =
  snap_total_cap_bytes :: u64
  snap_total_used_bytes :: u64
  snap_pressure :: memory_pressure
  snap_classes :: "memory_class_snapshot list"

definition snapshot :: "governor \<Rightarrow> resource_snapshot" where
  "snapshot g =
     \<lparr>snap_total_cap_bytes = total_cap_bytes (gconfig g), snap_total_used_bytes = total_used g,
      snap_pressure = pressure g,
      snap_classes = map (\<lambda>c. \<lparr>snap_class = c, snap_cap_bytes = class_caps_bytes (gconfig g) c,
        snap_used_bytes = class_used g c, snap_denied_allocations = denied g c\<rparr>) ALL_CLASSES\<rparr>"

subsection \<open>Concurrent callers\<close>

text \<open>
  A call in progress between two of its atomic operations: the class counter is charged and the total
  is next; the total was refused and the class charge is to be taken back; a refusal is to be counted;
  the class part of a drop is done and the total part is next.
\<close>

datatype phase =
    ClassReserved memory_class u64
  | RollingBack memory_class u64
  | Denying memory_class
  | ClassReleased memory_class u64

record shared =
  gov :: governor
  inflight :: "phase multiset"
  leases :: "(memory_class \<times> u64) multiset"

definition admissible :: "governor \<Rightarrow> memory_class \<Rightarrow> u64 \<Rightarrow> bool" where
  "admissible g c bytes \<longleftrightarrow> class_caps_bytes (gconfig g) c \<noteq> 0 \<and> bytes \<le> class_caps_bytes (gconfig g) c \<and>
     bytes \<le> total_cap_bytes (gconfig g)"

inductive step :: "shared \<Rightarrow> shared \<Rightarrow> bool" where
  acquire_zero: "step s (s\<lparr>leases := add_mset (c, 0) (leases s)\<rparr>)"
| acquire_refused: "bytes \<noteq> 0 \<Longrightarrow>
    \<not> admissible (gov s) c bytes \<or> reserve (class_used (gov s) c) bytes (class_caps_bytes (gconfig (gov s)) c) = None \<Longrightarrow>
    step s (s\<lparr>inflight := add_mset (Denying c) (inflight s)\<rparr>)"
| acquire_class: "bytes \<noteq> 0 \<Longrightarrow> admissible (gov s) c bytes \<Longrightarrow>
    reserve (class_used (gov s) c) bytes (class_caps_bytes (gconfig (gov s)) c) = Some next_class \<Longrightarrow>
    step s (s\<lparr>gov := (gov s)\<lparr>class_used := (class_used (gov s))(c := next_class)\<rparr>,
              inflight := add_mset (ClassReserved c bytes) (inflight s)\<rparr>)"
| acquire_total: "inflight s = add_mset (ClassReserved c bytes) rest \<Longrightarrow>
    reserve (total_used (gov s)) bytes (total_cap_bytes (gconfig (gov s))) = Some next_total \<Longrightarrow>
    step s (s\<lparr>gov := (gov s)\<lparr>total_used := next_total\<rparr>, inflight := rest,
              leases := add_mset (c, bytes) (leases s)\<rparr>)"
| total_refused: "inflight s = add_mset (ClassReserved c bytes) rest \<Longrightarrow>
    reserve (total_used (gov s)) bytes (total_cap_bytes (gconfig (gov s))) = None \<Longrightarrow>
    step s (s\<lparr>inflight := add_mset (RollingBack c bytes) rest\<rparr>)"
| roll_back: "inflight s = add_mset (RollingBack c bytes) rest \<Longrightarrow>
    step s (s\<lparr>gov := (gov s)\<lparr>class_used := (class_used (gov s))(c := class_used (gov s) c - bytes)\<rparr>,
              inflight := add_mset (Denying c) rest\<rparr>)"
| count_denied: "inflight s = add_mset (Denying c) rest \<Longrightarrow>
    step s (s\<lparr>gov := deny c (gov s), inflight := rest\<rparr>)"
| drop_zero: "leases s = add_mset (c, 0) rest \<Longrightarrow> step s (s\<lparr>leases := rest\<rparr>)"
| drop_class: "leases s = add_mset (c, bytes) rest \<Longrightarrow> bytes \<noteq> 0 \<Longrightarrow>
    step s (s\<lparr>gov := (gov s)\<lparr>class_used := (class_used (gov s))(c := class_used (gov s) c - bytes)\<rparr>,
              inflight := add_mset (ClassReleased c bytes) (inflight s), leases := rest\<rparr>)"
| drop_total: "inflight s = add_mset (ClassReleased c bytes) rest \<Longrightarrow>
    step s (s\<lparr>gov := (gov s)\<lparr>total_used := total_used (gov s) - bytes\<rparr>, inflight := rest\<rparr>)"
| grow: "leases s = add_mset (c, held) (add_mset (c, additional) rest) \<Longrightarrow>
    checked_add held additional = Some new_bytes \<Longrightarrow>
    step s (s\<lparr>leases := add_mset (c, new_bytes) rest\<rparr>)"

inductive reachable :: "governor_config \<Rightarrow> shared \<Rightarrow> bool" for cfg where
  start: "reachable cfg \<lparr>gov = governor_new cfg, inflight = {#}, leases = {#}\<rparr>"
| step: "reachable cfg s \<Longrightarrow> step s t \<Longrightarrow> reachable cfg t"

subsection \<open>Accounting\<close>

fun class_charge :: "memory_class \<Rightarrow> phase \<Rightarrow> nat" where
  "class_charge c (ClassReserved c' b) = (if c' = c then unat b else 0)"
| "class_charge c (RollingBack c' b) = (if c' = c then unat b else 0)"
| "class_charge c (Denying c') = 0"
| "class_charge c (ClassReleased c' b) = 0"

fun total_charge :: "phase \<Rightarrow> nat" where
  "total_charge (ClassReleased c b) = unat b"
| "total_charge (ClassReserved c b) = 0"
| "total_charge (RollingBack c b) = 0"
| "total_charge (Denying c) = 0"

definition class_leased :: "memory_class \<Rightarrow> (memory_class \<times> u64) multiset \<Rightarrow> nat" where
  "class_leased c L = (\<Sum>(c', b) \<in># L. if c' = c then unat b else 0)"

definition total_leased :: "(memory_class \<times> u64) multiset \<Rightarrow> nat" where
  "total_leased L = (\<Sum>(c, b) \<in># L. unat b)"

lemma leased_simps [simp]:
  "class_leased c {#} = 0"
  "class_leased c (add_mset (c', b) L) = (if c' = c then unat b else 0) + class_leased c L"
  "total_leased {#} = 0"
  "total_leased (add_mset (c', b) L) = unat b + total_leased L"
  by (simp_all add: class_leased_def total_leased_def)

definition accounted :: "governor_config \<Rightarrow> shared \<Rightarrow> bool" where
  "accounted cfg s \<longleftrightarrow>
     gconfig (gov s) = cfg \<and>
     (\<forall>c. unat (class_used (gov s) c) = class_leased c (leases s) + (\<Sum>p \<in># inflight s. class_charge c p) \<and>
          class_used (gov s) c \<le> class_caps_bytes cfg c) \<and>
     unat (total_used (gov s)) = total_leased (leases s) + (\<Sum>p \<in># inflight s. total_charge p) \<and>
     total_used (gov s) \<le> total_cap_bytes cfg"

lemma reserve_Some: "reserve current bytes cap = Some n \<Longrightarrow> unat n = unat current + unat bytes \<and> n \<le> cap"
  by (auto simp: reserve_def checked_add_Some_iff not_less split: option.splits if_splits)

lemma reserve_None_iff: "reserve current bytes cap = None \<longleftrightarrow> unat cap < unat current + unat bytes"
proof (cases "checked_add current bytes")
  case None
  then have "2 ^ 64 \<le> unat current + unat bytes" by (simp add: checked_add_None_iff)
  moreover have "unat cap < 2 ^ 64" by (rule order.strict_trans2 [OF unsigned_less]) simp
  ultimately show ?thesis using None by (simp add: reserve_def)
next
  case (Some n)
  then have "unat n = unat current + unat bytes" by (simp add: checked_add_Some_iff)
  with Some show ?thesis by (simp add: reserve_def word_less_nat_alt)
qed

lemma give_back: "unat x = unat b + k \<Longrightarrow> unat (x - b) = k \<and> x - b \<le> (x :: u64)"
  using unat_sub_le [of b x] by (simp add: word_le_nat_alt)

lemma step_accounted: "step s t \<Longrightarrow> accounted cfg s \<Longrightarrow> accounted cfg t"
proof (induction rule: step.induct)
  case (acquire_class bytes s c n)
  from reserve_Some [OF acquire_class(3)] acquire_class(4) show ?case by (auto simp: accounted_def)
next
  case (acquire_total s c bytes rest n)
  from reserve_Some [OF acquire_total(2)] acquire_total(1,3) show ?case by (auto simp: accounted_def)
next
  case (roll_back s c bytes rest)
  then have "unat (class_used (gov s) c) = unat bytes +
      (class_leased c (leases s) + (\<Sum>p \<in># rest. class_charge c p))" by (simp add: accounted_def)
  from give_back [OF this] roll_back show ?case by (auto simp: accounted_def intro: order_trans)
next
  case (drop_class s c bytes rest)
  then have "unat (class_used (gov s) c) = unat bytes +
      (class_leased c rest + (\<Sum>p \<in># inflight s. class_charge c p))" by (simp add: accounted_def)
  from give_back [OF this] drop_class show ?case by (auto simp: accounted_def intro: order_trans)
next
  case (drop_total s c bytes rest)
  then have "unat (total_used (gov s)) = unat bytes +
      (total_leased (leases s) + (\<Sum>p \<in># rest. total_charge p))" by (simp add: accounted_def)
  from give_back [OF this] drop_total show ?case by (auto simp: accounted_def intro: order_trans)
next
  case (grow s c held additional rest n)
  then show ?case by (auto simp: accounted_def checked_add_Some_iff)
qed (auto simp: accounted_def deny_def)

lemma reachable_accounted: "reachable cfg s \<Longrightarrow> accounted cfg s"
proof (induction rule: reachable.induct)
  case start
  show ?case by (simp add: accounted_def governor_new_def)
next
  case (step s t)
  then show ?case by (blast intro: step_accounted)
qed


subsection \<open>A whole call is a run of atomic steps\<close>

abbreviation run :: "shared \<Rightarrow> shared \<Rightarrow> bool" where
  "run \<equiv> step\<^sup>*\<^sup>*"

lemma run_deny: "run (s\<lparr>inflight := add_mset (Denying c) I\<rparr>) (s\<lparr>gov := deny c (gov s), inflight := I\<rparr>)"
  using count_denied [of "s\<lparr>inflight := add_mset (Denying c) I\<rparr>" c I] by (simp add: r_into_rtranclp)

lemma take_back: "reserve x b cap = Some n \<Longrightarrow> n - b = x"
  by (auto simp: reserve_def checked_add_def split: option.splits if_splits)

lemma run_try_acquire:
  "try_acquire g c bytes = (r, g') \<Longrightarrow>
     run \<lparr>gov = g, inflight = I, leases = L\<rparr>
         \<lparr>gov = g', inflight = I,
          leases = (case r of None \<Rightarrow> L | Some l \<Rightarrow> add_mset (lease_class l, lease_bytes l) L)\<rparr>"
proof -
  assume res: "try_acquire g c bytes = (r, g')"
  let ?s = "\<lparr>gov = g, inflight = I, leases = L\<rparr>"
  let ?cap = "class_caps_bytes (gconfig g) c" and ?tcap = "total_cap_bytes (gconfig g)"
  have refuse: "run ?s (?s\<lparr>gov := deny c g\<rparr>)"
    if "bytes \<noteq> 0" "\<not> admissible g c bytes \<or> reserve (class_used g c) bytes ?cap = None"
  proof -
    have "step ?s (?s\<lparr>inflight := add_mset (Denying c) I\<rparr>)"
      using acquire_refused [where s = ?s and c = c and bytes = bytes] that by simp
    then show ?thesis using run_deny [where s = ?s and c = c and I = I] by (simp add: converse_rtranclp_into_rtranclp)
  qed
  consider (zero) "bytes = 0" | (refused) "bytes \<noteq> 0" "\<not> admissible g c bytes \<or> reserve (class_used g c) bytes ?cap = None"
    | (go) n where "bytes \<noteq> 0" "admissible g c bytes" "reserve (class_used g c) bytes ?cap = Some n"
    by (cases "reserve (class_used g c) bytes ?cap") auto
  then show ?thesis
  proof cases
    case zero
    then show ?thesis using res acquire_zero [where s = ?s and c = c] by (auto simp: try_acquire_def)
  next
    case refused
    then have "(r, g') = (None, deny c g)"
      using res by (auto simp: try_acquire_def admissible_def Let_def not_less split: option.splits if_splits)
    then show ?thesis using refuse [OF refused] by simp
  next
    case go
    let ?g1 = "g\<lparr>class_used := (class_used g)(c := n)\<rparr>"
    let ?s1 = "?s\<lparr>gov := ?g1, inflight := add_mset (ClassReserved c bytes) I\<rparr>"
    have adm: "\<not> (?cap = 0 \<or> bytes > ?cap \<or> bytes > ?tcap)"
      using go(2) by (simp add: admissible_def not_less)
    have s1: "step ?s ?s1" using acquire_class [where s = ?s and c = c and bytes = bytes and next_class = n] go by simp
    show ?thesis
    proof (cases "reserve (total_used g) bytes ?tcap")
      case (Some t)
      then have "(r, g') = (Some \<lparr>lease_class = c, lease_bytes = bytes\<rparr>, ?g1\<lparr>total_used := t\<rparr>)"
        using res go(1,3) adm Some by (simp add: try_acquire_def Let_def)
      moreover have "step ?s1 (?s\<lparr>gov := ?g1\<lparr>total_used := t\<rparr>, leases := add_mset (c, bytes) L\<rparr>)"
        using acquire_total [where s = ?s1 and c = c and bytes = bytes and rest = I and next_total = t] Some by simp
      ultimately show ?thesis using s1 by (auto intro: converse_rtranclp_into_rtranclp)
    next
      case None
      let ?g2 = "?g1\<lparr>class_used := (class_used ?g1)(c := n - bytes)\<rparr>"
      have "(r, g') = (None, deny c ?g2)"
        using res go(1,3) adm None by (simp add: try_acquire_def Let_def)
      moreover have "step ?s1 (?s\<lparr>gov := ?g1, inflight := add_mset (RollingBack c bytes) I\<rparr>)"
        using total_refused [where s = ?s1 and c = c and bytes = bytes and rest = I] None by simp
      moreover have "step (?s\<lparr>gov := ?g1, inflight := add_mset (RollingBack c bytes) I\<rparr>)
          (?s\<lparr>gov := ?g2, inflight := add_mset (Denying c) I\<rparr>)"
        using roll_back [where s = "?s\<lparr>gov := ?g1, inflight := add_mset (RollingBack c bytes) I\<rparr>" and c = c and rest = I] by simp
      moreover have "run (?s\<lparr>gov := ?g2, inflight := add_mset (Denying c) I\<rparr>) (?s\<lparr>gov := deny c ?g2\<rparr>)"
        using run_deny [where s = "?s\<lparr>gov := ?g2\<rparr>" and c = c and I = I] by simp
      ultimately show ?thesis using s1 by (auto intro: converse_rtranclp_into_rtranclp)
    qed
  qed
qed

lemma try_acquire_None_iff:
  "fst (try_acquire g c bytes) = None \<longleftrightarrow> bytes \<noteq> 0 \<and>
     (unat (class_caps_bytes (gconfig g) c) < unat (class_used g c) + unat bytes \<or>
      unat (total_cap_bytes (gconfig g)) < unat (total_used g) + unat bytes)"
proof (cases "bytes = 0")
  case False
  then have b: "0 < unat bytes" by (simp add: unat_gt_0)
  show ?thesis
  proof (cases "reserve (class_used g c) bytes (class_caps_bytes (gconfig g) c)")
    case None
    moreover from this have "unat (class_caps_bytes (gconfig g) c) < unat (class_used g c) + unat bytes"
      by (simp only: reserve_None_iff)
    ultimately show ?thesis using False by (auto simp: try_acquire_def Let_def)
  next
    case (Some n)
    then have "\<not> unat (class_caps_bytes (gconfig g) c) < unat (class_used g c) + unat bytes"
      using reserve_None_iff [of "class_used g c" bytes] by (metis option.distinct(1))
    moreover from this b have "class_caps_bytes (gconfig g) c \<noteq> 0" "\<not> bytes > class_caps_bytes (gconfig g) c"
      by (auto simp: word_less_nat_alt)
    ultimately show ?thesis using False Some reserve_None_iff [of "total_used g" bytes "total_cap_bytes (gconfig g)"]
      by (cases "reserve (total_used g) bytes (total_cap_bytes (gconfig g))")
        (auto simp: try_acquire_def Let_def word_less_nat_alt)
  qed
qed (simp add: try_acquire_def)

subsection \<open>Properties\<close>

text \<open>
  C8. Under every interleaving of acquisitions, refusals, growth and drops by concurrent callers, the
  counters never exceed the caps and never wrap; the bytes charged are exactly those of the live
  leases and of the calls in progress, so when no call is in progress they are those of the leases and
  nothing is left charged when all leases are gone.
\<close>

theorem governor_accounting:
  assumes "reachable cfg s"
  shows "(\<forall>c. class_used (gov s) c \<le> class_caps_bytes cfg c) \<and> total_used (gov s) \<le> total_cap_bytes cfg \<and>
    (inflight s = {#} \<longrightarrow>
       (\<forall>c. unat (class_used (gov s) c) = class_leased c (leases s)) \<and>
       unat (total_used (gov s)) = total_leased (leases s))"
  using reachable_accounted [OF assms] by (simp add: accounted_def)

text \<open>A run of two callers: the second is refused by the total cap while the first holds a lease.\<close>

definition tight :: governor_config where
  "tight = \<lparr>total_cap_bytes = 3, class_caps_bytes = (\<lambda>_. 3), pressure_constrained_pct = 75, pressure_critical_pct = 90\<rparr>"

definition tight_state :: shared where
  "tight_state = \<lparr>gov = (governor_new tight)\<lparr>class_used := (\<lambda>_. 0)(PeerBuffer := 2), total_used := 2\<rparr>,
     inflight = {#}, leases = {#(PeerBuffer, 2)#}\<rparr>"

lemma tight_reachable: "reachable tight tight_state"
proof -
  let ?s0 = "\<lparr>gov = governor_new tight, inflight = {#}, leases = {#}\<rparr>"
  let ?s1 = "?s0\<lparr>gov := (governor_new tight)\<lparr>class_used := (\<lambda>_. 0)(PeerBuffer := 2)\<rparr>,
    inflight := {#ClassReserved PeerBuffer 2#}\<rparr>"
  have "step ?s0 ?s1"
    using acquire_class [where s = ?s0 and c = PeerBuffer and bytes = 2 and next_class = 2]
    by (simp add: admissible_def governor_new_def tight_def reserve_def checked_add_def)
  moreover have "step ?s1 tight_state"
    using acquire_total [where s = ?s1 and c = PeerBuffer and bytes = 2 and next_total = 2 and rest = "{#}"]
    by (simp add: tight_state_def governor_new_def tight_def reserve_def checked_add_def)
  ultimately show ?thesis by (blast intro: reachable.intros)
qed

theorem governor_accounting_witness:
  "class_used (gov tight_state) PeerBuffer \<le> 3 \<and> unat (total_used (gov tight_state)) = 2"
  using governor_accounting [OF tight_reachable] by (simp add: tight_state_def tight_def)

text \<open>
  C27. An acquisition as one call refines the interleaved steps: it is a run of them that leaves the
  other callers alone and adds the lease it returns; and it is refused exactly when the request is not
  empty and would exceed the class cap or the total cap.
\<close>

theorem try_acquire_refines:
  "(case try_acquire g c bytes of (r, g') \<Rightarrow>
      step\<^sup>*\<^sup>* \<lparr>gov = g, inflight = I, leases = L\<rparr>
        \<lparr>gov = g', inflight = I,
         leases = (case r of None \<Rightarrow> L | Some l \<Rightarrow> add_mset (lease_class l, lease_bytes l) L)\<rparr>) \<and>
   (fst (try_acquire g c bytes) = None \<longleftrightarrow> bytes \<noteq> 0 \<and>
      (unat (class_caps_bytes (gconfig g) c) < unat (class_used g c) + unat bytes \<or>
       unat (total_cap_bytes (gconfig g)) < unat (total_used g) + unat bytes))"
  using run_try_acquire [of g c bytes] try_acquire_None_iff [of g c bytes]
  by (cases "try_acquire g c bytes") simp

end
