(* ===== verification/Governor_Cas.thy ===== *)
theory Governor_Cas
  imports Resource_Governor
begin

text \<open>
  The compare-and-swap loops of \<open>reserve\<close> in \<open>crates/rt-metrics/src/resource.rs\<close>, taken apart. Here a call in
  progress is between any two of its atomic operations, also between the load of a counter and the
  compare-and-swap that depends on it; other calls may change the counter in between, and then the loop
  goes round again. These steps refine the interleaving of \<open>Resource_Governor\<close>, whose steps make a
  successful round at once, and no schedule keeps the calls in their loops.
\<close>

subsection \<open>Calls between their atomic operations\<close>

text \<open>
  \<open>ClassLoad\<close> and \<open>TotalLoad\<close> are at the head of the loop, \<open>ClassSwap\<close> and \<open>TotalSwap\<close> hold the \<open>current\<close> and
  the \<open>next\<close> value of the round; the others are the roll-back and the refusal of \<open>try_acquire\<close> and the second
  half of \<open>release\<close>.
\<close>

datatype call_state =
    ClassLoad memory_class u64
  | ClassSwap memory_class u64 u64 u64
  | TotalLoad memory_class u64
  | TotalSwap memory_class u64 u64 u64
  | RollBack memory_class u64
  | CountDenied memory_class
  | ReleaseTotal memory_class u64

record threads =
  mem :: governor
  calls :: "call_state multiset"
  live :: "(memory_class \<times> u64) multiset"

text \<open>A caller enters \<open>try_acquire\<close>, drops a lease, or merges the lease of a successful \<open>try_grow\<close> into its own.\<close>

inductive begin_call :: "threads \<Rightarrow> threads \<Rightarrow> bool" where
  begin_zero: "begin_call s (s\<lparr>live := add_mset (c, 0) (live s)\<rparr>)"
| begin_refused: "bytes \<noteq> 0 \<Longrightarrow> \<not> admissible (mem s) c bytes \<Longrightarrow>
    begin_call s (s\<lparr>calls := add_mset (CountDenied c) (calls s)\<rparr>)"
| begin_acquire: "bytes \<noteq> 0 \<Longrightarrow> admissible (mem s) c bytes \<Longrightarrow>
    begin_call s (s\<lparr>calls := add_mset (ClassLoad c bytes) (calls s)\<rparr>)"
| begin_drop_zero: "live s = add_mset (c, 0) rest \<Longrightarrow> begin_call s (s\<lparr>live := rest\<rparr>)"
| begin_drop: "live s = add_mset (c, bytes) rest \<Longrightarrow> bytes \<noteq> 0 \<Longrightarrow>
    begin_call s (s\<lparr>mem := (mem s)\<lparr>class_used := (class_used (mem s))(c := class_used (mem s) c - bytes)\<rparr>,
                    calls := add_mset (ReleaseTotal c bytes) (calls s), live := rest\<rparr>)"
| begin_grow: "live s = add_mset (c, own) (add_mset (c, additional) rest) \<Longrightarrow>
    checked_add own additional = Some new_bytes \<Longrightarrow>
    begin_call s (s\<lparr>live := add_mset (c, new_bytes) rest\<rparr>)"

text \<open>A call in progress makes its next atomic operation.\<close>

inductive call_step :: "threads \<Rightarrow> threads \<Rightarrow> bool" where
  class_load: "calls s = add_mset (ClassLoad c bytes) rest \<Longrightarrow>
    call_step s (s\<lparr>calls := add_mset
      (case reserve (class_used (mem s) c) bytes (class_caps_bytes (gconfig (mem s)) c) of
         None \<Rightarrow> CountDenied c
       | Some next \<Rightarrow> ClassSwap c bytes (class_used (mem s) c) next) rest\<rparr>)"
| class_swap: "calls s = add_mset (ClassSwap c bytes current next) rest \<Longrightarrow> class_used (mem s) c = current \<Longrightarrow>
    call_step s (s\<lparr>mem := (mem s)\<lparr>class_used := (class_used (mem s))(c := next)\<rparr>,
                   calls := add_mset (TotalLoad c bytes) rest\<rparr>)"
| class_retry: "calls s = add_mset (ClassSwap c bytes current next) rest \<Longrightarrow> class_used (mem s) c \<noteq> current \<Longrightarrow>
    call_step s (s\<lparr>calls := add_mset (ClassLoad c bytes) rest\<rparr>)"
| total_load: "calls s = add_mset (TotalLoad c bytes) rest \<Longrightarrow>
    call_step s (s\<lparr>calls := add_mset
      (case reserve (total_used (mem s)) bytes (total_cap_bytes (gconfig (mem s))) of
         None \<Rightarrow> RollBack c bytes
       | Some next \<Rightarrow> TotalSwap c bytes (total_used (mem s)) next) rest\<rparr>)"
| total_swap: "calls s = add_mset (TotalSwap c bytes current next) rest \<Longrightarrow> total_used (mem s) = current \<Longrightarrow>
    call_step s (s\<lparr>mem := (mem s)\<lparr>total_used := next\<rparr>, calls := rest, live := add_mset (c, bytes) (live s)\<rparr>)"
| total_retry: "calls s = add_mset (TotalSwap c bytes current next) rest \<Longrightarrow> total_used (mem s) \<noteq> current \<Longrightarrow>
    call_step s (s\<lparr>calls := add_mset (TotalLoad c bytes) rest\<rparr>)"
| class_roll_back: "calls s = add_mset (RollBack c bytes) rest \<Longrightarrow>
    call_step s (s\<lparr>mem := (mem s)\<lparr>class_used := (class_used (mem s))(c := class_used (mem s) c - bytes)\<rparr>,
                   calls := add_mset (CountDenied c) rest\<rparr>)"
| denied_add: "calls s = add_mset (CountDenied c) rest \<Longrightarrow>
    call_step s (s\<lparr>mem := deny c (mem s), calls := rest\<rparr>)"
| release_total: "calls s = add_mset (ReleaseTotal c bytes) rest \<Longrightarrow>
    call_step s (s\<lparr>mem := (mem s)\<lparr>total_used := total_used (mem s) - bytes\<rparr>, calls := rest\<rparr>)"

text \<open>\<open>compare_exchange_weak\<close> may fail although the counter still has the loaded value.\<close>

inductive weak_failure :: "threads \<Rightarrow> threads \<Rightarrow> bool" where
  class_weak: "calls s = add_mset (ClassSwap c bytes current next) rest \<Longrightarrow>
    weak_failure s (s\<lparr>calls := add_mset (ClassLoad c bytes) rest\<rparr>)"
| total_weak: "calls s = add_mset (TotalSwap c bytes current next) rest \<Longrightarrow>
    weak_failure s (s\<lparr>calls := add_mset (TotalLoad c bytes) rest\<rparr>)"

inductive cas_reachable :: "governor_config \<Rightarrow> threads \<Rightarrow> bool" for cfg where
  cas_start: "cas_reachable cfg \<lparr>mem = governor_new cfg, calls = {#}, live = {#}\<rparr>"
| cas_begin: "cas_reachable cfg s \<Longrightarrow> begin_call s t \<Longrightarrow> cas_reachable cfg t"
| cas_call: "cas_reachable cfg s \<Longrightarrow> call_step s t \<Longrightarrow> cas_reachable cfg t"
| cas_weak: "cas_reachable cfg s \<Longrightarrow> weak_failure s t \<Longrightarrow> cas_reachable cfg t"

text \<open>\<open>drains n k s t\<close>: no new call begins, and those in progress make \<open>n\<close> operations and fail weakly \<open>k\<close> times.\<close>

inductive drains :: "nat \<Rightarrow> nat \<Rightarrow> threads \<Rightarrow> threads \<Rightarrow> bool" where
  drains_refl: "drains 0 0 s s"
| drains_call: "drains n k s t \<Longrightarrow> call_step t u \<Longrightarrow> drains (Suc n) k s u"
| drains_weak: "drains n k s t \<Longrightarrow> weak_failure t u \<Longrightarrow> drains n (Suc k) s u"

subsection \<open>Refinement of the atomic rounds\<close>

fun phases_of :: "call_state \<Rightarrow> phase multiset" where
  "phases_of (ClassLoad c b) = {#}"
| "phases_of (ClassSwap c b x y) = {#}"
| "phases_of (TotalLoad c b) = {#ClassReserved c b#}"
| "phases_of (TotalSwap c b x y) = {#ClassReserved c b#}"
| "phases_of (RollBack c b) = {#RollingBack c b#}"
| "phases_of (CountDenied c) = {#Denying c#}"
| "phases_of (ReleaseTotal c b) = {#ClassReleased c b#}"

definition atomic :: "threads \<Rightarrow> shared" where
  "atomic s = \<lparr>gov = mem s, inflight = (\<Sum>p \<in># calls s. phases_of p), leases = live s\<rparr>"

fun call_sound :: "governor \<Rightarrow> call_state \<Rightarrow> bool" where
  "call_sound g (ClassLoad c b) = (b \<noteq> 0 \<and> admissible g c b)"
| "call_sound g (ClassSwap c b x y) = (b \<noteq> 0 \<and> admissible g c b \<and> reserve x b (class_caps_bytes (gconfig g) c) = Some y)"
| "call_sound g (TotalSwap c b x y) = (reserve x b (total_cap_bytes (gconfig g)) = Some y)"
| "call_sound g p = True"

definition calls_sound :: "threads \<Rightarrow> bool" where
  "calls_sound s \<longleftrightarrow> (\<forall>p \<in># calls s. call_sound (mem s) p)"

lemma call_sound_config: "gconfig g = gconfig g' \<Longrightarrow> call_sound g p = call_sound g' p"
  by (cases p) (simp_all add: admissible_def)

lemma deny_config [simp]: "gconfig (deny c g) = gconfig g"
  by (simp add: deny_def)

lemma call_sound_updates [simp]:
  "call_sound (g\<lparr>class_used := u\<rparr>) = call_sound g" "call_sound (g\<lparr>total_used := n\<rparr>) = call_sound g" "call_sound (deny c g) = call_sound g"
  by (rule ext, rule call_sound_config, simp)+

lemma begin_call_atomic:
  assumes "begin_call s t" "calls_sound s"
  shows "step\<^sup>*\<^sup>* (atomic s) (atomic t) \<and> calls_sound t"
  using assms
proof (induction rule: begin_call.induct)
  case (begin_zero s c)
  then show ?case using acquire_zero [of "atomic s" c] by (auto simp: atomic_def calls_sound_def)
next
  case (begin_refused bytes s c)
  then show ?case using acquire_refused [of bytes "atomic s" c] by (auto simp: atomic_def calls_sound_def)
next
  case (begin_acquire bytes s c)
  then show ?case by (auto simp: atomic_def calls_sound_def)
next
  case (begin_drop_zero s c rest)
  then show ?case using drop_zero [of "atomic s" c rest] by (auto simp: atomic_def calls_sound_def)
next
  case (begin_drop s c bytes rest)
  then show ?case using drop_class [of "atomic s" c bytes rest] by (auto simp: atomic_def calls_sound_def)
next
  case (begin_grow s c own additional rest new_bytes)
  then show ?case using grow [of "atomic s" c own additional rest new_bytes] by (auto simp: atomic_def calls_sound_def)
qed

lemma call_step_atomic:
  assumes "call_step s t" "calls_sound s"
  shows "step\<^sup>*\<^sup>* (atomic s) (atomic t) \<and> calls_sound t"
  using assms
proof (induction rule: call_step.induct)
  case (class_load s c bytes rest)
  then show ?case using acquire_refused [of bytes "atomic s" c]
    by (cases "reserve (class_used (mem s) c) bytes (class_caps_bytes (gconfig (mem s)) c)") (auto simp: atomic_def calls_sound_def)
next
  case (class_swap s c bytes current next_class rest)
  then show ?case using acquire_class [of bytes "atomic s" c next_class] by (auto simp: atomic_def calls_sound_def)
next
  case (total_load s c bytes rest)
  then show ?case using total_refused [of "atomic s" c bytes "\<Sum>p \<in># rest. phases_of p"]
    by (cases "reserve (total_used (mem s)) bytes (total_cap_bytes (gconfig (mem s)))") (auto simp: atomic_def calls_sound_def)
next
  case (total_swap s c bytes current next_total rest)
  then show ?case using acquire_total [of "atomic s" c bytes "\<Sum>p \<in># rest. phases_of p" next_total]
    by (auto simp: atomic_def calls_sound_def)
next
  case (class_roll_back s c bytes rest)
  then show ?case using roll_back [of "atomic s" c bytes "\<Sum>p \<in># rest. phases_of p"] by (auto simp: atomic_def calls_sound_def)
next
  case (denied_add s c rest)
  then show ?case using count_denied [of "atomic s" c "\<Sum>p \<in># rest. phases_of p"] by (auto simp: atomic_def calls_sound_def)
next
  case (release_total s c bytes rest)
  then show ?case using drop_total [of "atomic s" c bytes "\<Sum>p \<in># rest. phases_of p"] by (auto simp: atomic_def calls_sound_def)
qed (auto simp: atomic_def calls_sound_def)

lemma weak_failure_atomic:
  assumes "weak_failure s t" "calls_sound s"
  shows "atomic t = atomic s \<and> calls_sound t"
  using assms by (induction rule: weak_failure.induct) (auto simp: atomic_def calls_sound_def)

lemma reachable_run: "step\<^sup>*\<^sup>* s t \<Longrightarrow> reachable cfg s \<Longrightarrow> reachable cfg t"
  by (induction rule: rtranclp_induct) (auto intro: reachable.step)

lemma cas_reachable_atomic: "cas_reachable cfg s \<Longrightarrow> reachable cfg (atomic s) \<and> calls_sound s"
proof (induction rule: cas_reachable.induct)
  case cas_start
  show ?case using reachable.start [of cfg] by (simp add: atomic_def calls_sound_def)
next
  case (cas_begin s t)
  then show ?case using begin_call_atomic [of s t] reachable_run [of "atomic s" "atomic t" cfg] by blast
next
  case (cas_call s t)
  then show ?case using call_step_atomic [of s t] reachable_run [of "atomic s" "atomic t" cfg] by blast
next
  case (cas_weak s t)
  then show ?case using weak_failure_atomic [of s t] by simp
qed

subsection \<open>The loops end\<close>

text \<open>
  \<open>major\<close> counts the operations that a call still makes when its rounds succeed, \<open>minor\<close> the operations up
  to the next of them: a failed round costs a retry and a load, and only another call's progress makes
  a round fail.
\<close>

fun major :: "call_state \<Rightarrow> nat" where
  "major (ClassLoad c b) = 4"
| "major (ClassSwap c b x y) = 4"
| "major (TotalLoad c b) = 3"
| "major (TotalSwap c b x y) = 3"
| "major (RollBack c b) = 2"
| "major (CountDenied c) = 1"
| "major (ReleaseTotal c b) = 1"

fun minor :: "governor \<Rightarrow> call_state \<Rightarrow> nat" where
  "minor g (ClassLoad c b) = 2"
| "minor g (ClassSwap c b x y) = (if class_used g c = x then 1 else 3)"
| "minor g (TotalLoad c b) = 2"
| "minor g (TotalSwap c b x y) = (if total_used g = x then 1 else 3)"
| "minor g p = 0"

definition majors :: "threads \<Rightarrow> nat" where
  "majors s = (\<Sum>p \<in># calls s. major p)"

definition minors :: "threads \<Rightarrow> nat" where
  "minors s = (\<Sum>p \<in># calls s. minor (mem s) p)"

definition potential :: "threads \<Rightarrow> nat" where
  "potential s = majors s * (3 * size (calls s) + 1) + minors s"

lemma majors_le: "majors s \<le> 4 * size (calls s)"
proof -
  have "major p \<le> 4" for p by (cases p) simp_all
  then have "(\<Sum>p \<in># M. major p) \<le> 4 * size M" for M by (induction M) (simp_all add: add_mono)
  then show ?thesis by (simp add: majors_def)
qed

lemma minors_le: "minors s \<le> 3 * size (calls s)"
proof -
  have "minor g p \<le> 3" for g p by (cases p) simp_all
  then have "(\<Sum>p \<in># M. minor g p) \<le> 3 * size M" for g M by (induction M) (simp_all add: add_mono)
  then show ?thesis by (simp add: minors_def)
qed

lemma potential_le: "potential s \<le> 12 * size (calls s) ^ 2 + 7 * size (calls s)"
proof -
  have "majors s * (3 * size (calls s) + 1) \<le> 4 * size (calls s) * (3 * size (calls s) + 1)"
    by (rule mult_right_mono [OF majors_le]) simp
  then show ?thesis using minors_le [of s] by (simp add: potential_def power2_eq_square algebra_simps)
qed

text \<open>An operation either brings its call forward or only its round, and then no counter has changed.\<close>

lemma call_step_measures:
  assumes "call_step s t"
  shows "size (calls t) \<le> size (calls s) \<and>
    (majors t < majors s \<or> majors t = majors s \<and> size (calls t) = size (calls s) \<and> minors t < minors s)"
  using assms
proof (induction rule: call_step.induct)
  case (class_load s c bytes rest)
  then show ?case by (auto simp: majors_def minors_def split: option.split)
next
  case (total_load s c bytes rest)
  then show ?case by (auto simp: majors_def minors_def split: option.split)
qed (auto simp: majors_def minors_def)

lemma call_step_potential:
  assumes "call_step s t"
  shows "potential t < potential s"
proof -
  consider "majors t < majors s" "size (calls t) \<le> size (calls s)"
    | "majors t = majors s" "size (calls t) = size (calls s)" "minors t < minors s"
    using call_step_measures [OF assms] by blast
  then show ?thesis
  proof cases
    case 1
    have "potential t < (majors t + 1) * (3 * size (calls t) + 1)"
      using minors_le [of t] by (simp add: potential_def)
    also have "\<dots> \<le> majors s * (3 * size (calls s) + 1)" using 1 by (intro mult_mono) simp_all
    finally show ?thesis by (simp add: potential_def)
  qed (simp add: potential_def)
qed

lemma weak_failure_potential: "weak_failure s t \<Longrightarrow> potential t \<le> Suc (potential s)"
  by (induction rule: weak_failure.induct) (auto simp: potential_def majors_def minors_def)

lemma drains_potential: "drains n k s t \<Longrightarrow> n + potential t \<le> potential s + k"
proof (induction rule: drains.induct)
  case (drains_call n k s t u)
  then show ?case using call_step_potential [of t u] by linarith
next
  case (drains_weak n k s t u)
  then show ?case using weak_failure_potential [of t u] by linarith
qed simp

lemma call_step_enabled: "(\<exists>u. call_step t u) \<longleftrightarrow> calls t \<noteq> {#}"
proof
  assume "calls t \<noteq> {#}"
  then obtain p rest where p: "calls t = add_mset p rest" by (metis multiset_cases)
  show "\<exists>u. call_step t u"
  proof (cases p)
    case (ClassSwap c b x y)
    then show ?thesis using class_swap [of t c b x y rest] class_retry [of t c b x y rest] p by blast
  next
    case (TotalSwap c b x y)
    then show ?thesis using total_swap [of t c b x y rest] total_retry [of t c b x y rest] p by blast
  qed (use p in \<open>auto intro: class_load total_load class_roll_back denied_add release_total\<close>)
qed (auto elim: call_step.cases)

lemma drains_reachable: "drains n k s t \<Longrightarrow> cas_reachable cfg s \<Longrightarrow> cas_reachable cfg t"
  by (induction rule: drains.induct) (auto intro: cas_call cas_weak)

lemma drains_live: "drains n k s t \<Longrightarrow> live s \<subseteq># live t"
proof (induction rule: drains.induct)
  case (drains_call n k s t u)
  from drains_call.hyps(2) have "live t \<subseteq># live u" by (induction rule: call_step.induct) auto
  with drains_call.IH show ?case by (rule subset_mset.order_trans)
next
  case (drains_weak n k s t u)
  from drains_weak.hyps(2) have "live u = live t" by (induction rule: weak_failure.induct) auto
  with drains_weak.IH show ?case by simp
qed simp

subsection \<open>Properties\<close>

text \<open>
  C28. The governor is lock-free. When no new call begins, the calls in progress come to their end under
  every schedule: with \<open>m\<close> calls in progress at most \<open>12 m^2 + 7 m\<close> atomic operations follow, and one more
  for each weak failure of a compare-and-swap; as long as a call is in progress it can go on; no lease
  is lost; and when the last call has ended every counter is exactly the sum of the live leases and
  within its cap, so a refused call has given back what it charged.
\<close>

theorem governor_drains:
  assumes "cas_reachable cfg s" "drains n k s t"
  shows "n \<le> 12 * size (calls s) ^ 2 + 7 * size (calls s) + k \<and>
    ((\<nexists>u. call_step t u) \<longleftrightarrow> calls t = {#}) \<and> live s \<subseteq># live t \<and>
    (calls t = {#} \<longrightarrow>
       (\<forall>c. unat (class_used (mem t) c) = class_leased c (live t) \<and> class_used (mem t) c \<le> class_caps_bytes cfg c) \<and>
       unat (total_used (mem t)) = total_leased (live t) \<and> total_used (mem t) \<le> total_cap_bytes cfg)"
proof -
  have "n \<le> 12 * size (calls s) ^ 2 + 7 * size (calls s) + k"
    using drains_potential [OF assms(2)] potential_le [of s] by linarith
  moreover have "accounted cfg (atomic t)"
    using cas_reachable_atomic [OF drains_reachable [OF assms(2,1)]] reachable_accounted by blast
  ultimately show ?thesis
    using call_step_enabled [of t] drains_live [OF assms(2)] by (auto simp: accounted_def atomic_def)
qed

text \<open>Two callers load the class counter before either swaps it: the second round fails and is repeated.\<close>

definition race :: "u64 \<Rightarrow> u64 \<Rightarrow> u64 \<Rightarrow> call_state list \<Rightarrow> (memory_class \<times> u64) list \<Rightarrow> threads" where
  "race cu tu refused ps ls =
     \<lparr>mem = \<lparr>gconfig = tight, total_used = tu, class_used = (\<lambda>_. 0)(PeerBuffer := cu), denied = (\<lambda>_. 0)(PeerBuffer := refused)\<rparr>,
      calls = mset ps, live = mset ls\<rparr>"

lemma race_reachable: "cas_reachable tight (race 0 0 0 [ClassLoad PeerBuffer 2, ClassLoad PeerBuffer 2] [])"
proof -
  have z: "(\<lambda>_. 0)(PeerBuffer := 0) = (\<lambda>_ :: memory_class. 0 :: u64)" by (simp add: fun_eq_iff)
  have 0: "cas_reachable tight (race 0 0 0 [] [])" using cas_start [of tight] by (simp add: race_def governor_new_def z)
  have 1: "begin_call (race 0 0 0 ps []) (race 0 0 0 (ClassLoad PeerBuffer 2 # ps) [])" for ps
    using begin_acquire [of 2 "race 0 0 0 ps []" PeerBuffer] by (simp add: race_def admissible_def tight_def)
  show ?thesis by (rule cas_begin [OF cas_begin [OF 0 1] 1])
qed

lemma race_drains: "drains 8 0 (race 0 0 0 [ClassLoad PeerBuffer 2, ClassLoad PeerBuffer 2] []) (race 2 2 1 [] [(PeerBuffer, 2)])"
proof -
  let ?l = "ClassLoad PeerBuffer 2" and ?s = "ClassSwap PeerBuffer 2 0 2"
  note r = race_def tight_def reserve_def checked_add_def
  have 1: "call_step (race 0 0 0 [?l, ?l] []) (race 0 0 0 [?s, ?l] [])"
    using class_load [of "race 0 0 0 [?l, ?l] []" PeerBuffer 2 "{#?l#}"] by (simp add: r)
  have 2: "call_step (race 0 0 0 [?s, ?l] []) (race 0 0 0 [?s, ?s] [])"
    using class_load [of "race 0 0 0 [?s, ?l] []" PeerBuffer 2 "{#?s#}"] by (simp add: r add_mset_commute)
  have 3: "call_step (race 0 0 0 [?s, ?s] []) (race 2 0 0 [TotalLoad PeerBuffer 2, ?s] [])"
    using class_swap [of "race 0 0 0 [?s, ?s] []" PeerBuffer 2 0 2 "{#?s#}"] by (simp add: r)
  have 4: "call_step (race 2 0 0 [TotalLoad PeerBuffer 2, ?s] []) (race 2 0 0 [TotalLoad PeerBuffer 2, ?l] [])"
    using class_retry [of "race 2 0 0 [TotalLoad PeerBuffer 2, ?s] []" PeerBuffer 2 0 2 "{#TotalLoad PeerBuffer 2#}"]
    by (simp add: r add_mset_commute)
  have 5: "call_step (race 2 0 0 [TotalLoad PeerBuffer 2, ?l] []) (race 2 0 0 [TotalLoad PeerBuffer 2, CountDenied PeerBuffer] [])"
    using class_load [of "race 2 0 0 [TotalLoad PeerBuffer 2, ?l] []" PeerBuffer 2 "{#TotalLoad PeerBuffer 2#}"]
    by (simp add: r add_mset_commute)
  have 6: "call_step (race 2 0 0 [TotalLoad PeerBuffer 2, CountDenied PeerBuffer] []) (race 2 0 1 [TotalLoad PeerBuffer 2] [])"
    using denied_add [of "race 2 0 0 [TotalLoad PeerBuffer 2, CountDenied PeerBuffer] []" PeerBuffer "{#TotalLoad PeerBuffer 2#}"]
    by (simp add: r add_mset_commute deny_def)
  have 7: "call_step (race 2 0 1 [TotalLoad PeerBuffer 2] []) (race 2 0 1 [TotalSwap PeerBuffer 2 0 2] [])"
    using total_load [of "race 2 0 1 [TotalLoad PeerBuffer 2] []" PeerBuffer 2 "{#}"] by (simp add: r)
  have 8: "call_step (race 2 0 1 [TotalSwap PeerBuffer 2 0 2] []) (race 2 2 1 [] [(PeerBuffer, 2)])"
    using total_swap [of "race 2 0 1 [TotalSwap PeerBuffer 2 0 2] []" PeerBuffer 2 0 2 "{#}"] by (simp add: r)
  note c = drains_call
  have "drains (Suc (Suc (Suc (Suc (Suc (Suc (Suc (Suc 0)))))))) 0 (race 0 0 0 [?l, ?l] []) (race 2 2 1 [] [(PeerBuffer, 2)])"
    by (rule c [OF c [OF c [OF c [OF c [OF c [OF c [OF c [OF drains_refl 1] 2] 3] 4] 5] 6] 7] 8])
  then show ?thesis by (simp add: numeral_eq_Suc)
qed

theorem governor_drains_witness:
  "\<exists>s t. cas_reachable tight s \<and> size (calls s) = 2 \<and> drains 8 0 s t \<and> (\<nexists>u. call_step t u) \<and>
     unat (class_used (mem t) PeerBuffer) = class_leased PeerBuffer (live t) \<and> unat (total_used (mem t)) = 2"
  using governor_drains [OF race_reachable race_drains] race_reachable race_drains
  by (intro exI [of _ "race 0 0 0 [ClassLoad PeerBuffer 2, ClassLoad PeerBuffer 2] []"] exI [of _ "race 2 2 1 [] [(PeerBuffer, 2)]"])
    (simp add: race_def)

end
