(* ===== verification/Peer_Message.thy ===== *)
theory Peer_Message
  imports TNG_Text
begin

text \<open>
  The peer wire messages of \<open>crates/rt-peer-wire\<close> (\<open>message.rs\<close>, \<open>error.rs\<close>): the message type of BEP 3
  with the Fast, extension and hash messages, the length-prefixed encoder and the parser. A fixed-size
  array of the source is a byte list here and its size is part of \<open>wf_message\<close>.
\<close>

subsection \<open>Errors and messages\<close>

datatype wire_error =
    ProtocolMismatch
  | InfohashMismatch
  | MessageTooLarge u32
  | PeerBufferAllocationDenied u64
  | PeerBufferLengthOverflow
  | UnknownMessageId u8
  | InvalidMessage string
  | Io string

definition MAX_MESSAGE_LEN :: u32 where
  "MAX_MESSAGE_LEN = 2 * 1024 * 1024"

definition MAX_WIRE_BLOCK_SIZE :: u32 where
  "MAX_WIRE_BLOCK_SIZE = 16 * 1024"

definition HASH_EXCHANGE_HEADER_LEN :: nat where
  "HASH_EXCHANGE_HEADER_LEN = 32 + (4 * 4)"

datatype message =
    KeepAlive
  | Choke
  | Unchoke
  | Interested
  | NotInterested
  | Have u32
  | Bitfield bytes
  | Request u32 u32 u32
  | Piece u32 u32 bytes
  | Cancel u32 u32 u32
  | Reject u32 u32 u32
  | AllowedFast u32
  | HaveAll
  | HaveNone
  | Extended u8 bytes
  | HashRequest bytes u32 u32 u32 u32
  | Hashes bytes u32 u32 u32 u32 "bytes list"
  | HashReject bytes u32 u32 u32 u32

subsection \<open>Encoding\<close>

definition usize_checked_add :: "nat \<Rightarrow> nat \<Rightarrow> nat option" where
  "usize_checked_add a b = (if a + b < 2 ^ 64 then Some (a + b) else None)"

definition usize_checked_mul :: "nat \<Rightarrow> nat \<Rightarrow> nat option" where
  "usize_checked_mul a b = (if a * b < 2 ^ 64 then Some (a * b) else None)"

fun message_len :: "message \<Rightarrow> nat option" where
  "message_len KeepAlive = Some 0"
| "message_len Choke = Some 1"
| "message_len Unchoke = Some 1"
| "message_len Interested = Some 1"
| "message_len NotInterested = Some 1"
| "message_len HaveAll = Some 1"
| "message_len HaveNone = Some 1"
| "message_len (Have i) = Some 5"
| "message_len (AllowedFast i) = Some 5"
| "message_len (Bitfield bits) = usize_checked_add 1 (length bits)"
| "message_len (Request p b l) = Some 13"
| "message_len (Cancel p b l) = Some 13"
| "message_len (Reject p b l) = Some 13"
| "message_len (Piece p b d) = usize_checked_add 9 (length d)"
| "message_len (Extended e payload) = usize_checked_add 2 (length payload)"
| "message_len (HashRequest r bl i l pl) = usize_checked_add 1 HASH_EXCHANGE_HEADER_LEN"
| "message_len (HashReject r bl i l pl) = usize_checked_add 1 HASH_EXCHANGE_HEADER_LEN"
| "message_len (Hashes r bl i l pl hs) =
     Option.bind (usize_checked_add 1 HASH_EXCHANGE_HEADER_LEN) (\<lambda>a.
     Option.bind (usize_checked_mul (length hs) 32) (\<lambda>b. usize_checked_add a b))"

definition encoded_len :: "message \<Rightarrow> nat option" where
  "encoded_len m =
     (case message_len m of None \<Rightarrow> None | Some len \<Rightarrow>
      if len > unat MAX_MESSAGE_LEN then None else usize_checked_add 4 len)"

definition put_u32 :: "nat \<Rightarrow> bytes" where
  "put_u32 n = u32_to_be_bytes (of_nat n)"

definition put_fixed :: "bytes \<Rightarrow> u8 \<Rightarrow> bytes \<Rightarrow> bytes" where
  "put_fixed dst i body = dst @ put_u32 (1 + length body) @ [i] @ body"

definition encode_3u32 :: "u32 \<Rightarrow> u32 \<Rightarrow> u32 \<Rightarrow> bytes" where
  "encode_3u32 a b c = u32_to_be_bytes a @ u32_to_be_bytes b @ u32_to_be_bytes c"

record hash_exchange_header =
  pieces_root :: bytes
  base_layer :: u32
  hindex :: u32
  hlength :: u32
  proof_layers :: u32

definition put_hash_exchange :: "bytes \<Rightarrow> u8 \<Rightarrow> hash_exchange_header \<Rightarrow> bytes \<Rightarrow> bytes" where
  "put_hash_exchange dst i h hashes =
     dst @ put_u32 (1 + HASH_EXCHANGE_HEADER_LEN + length hashes) @ [i] @ pieces_root h
       @ u32_to_be_bytes (base_layer h) @ u32_to_be_bytes (hindex h) @ u32_to_be_bytes (hlength h)
       @ u32_to_be_bytes (proof_layers h) @ hashes"

definition hash_header :: "bytes \<Rightarrow> u32 \<Rightarrow> u32 \<Rightarrow> u32 \<Rightarrow> u32 \<Rightarrow> hash_exchange_header" where
  "hash_header r bl i l pl = \<lparr>pieces_root = r, base_layer = bl, hindex = i, hlength = l, proof_layers = pl\<rparr>"

text \<open>The match of \<open>encode_into\<close>, after the length check.\<close>

fun put_message :: "message \<Rightarrow> bytes \<Rightarrow> bytes" where
  "put_message KeepAlive dst = dst @ u32_to_be_bytes 0"
| "put_message Choke dst = put_fixed dst 0 []"
| "put_message Unchoke dst = put_fixed dst 1 []"
| "put_message Interested dst = put_fixed dst 2 []"
| "put_message NotInterested dst = put_fixed dst 3 []"
| "put_message (Have idx) dst = put_fixed dst 4 (u32_to_be_bytes idx)"
| "put_message (AllowedFast idx) dst = put_fixed dst 17 (u32_to_be_bytes idx)"
| "put_message (Bitfield bits) dst = dst @ put_u32 (1 + length bits) @ [5] @ bits"
| "put_message (Request p b l) dst = put_fixed dst 6 (encode_3u32 p b l)"
| "put_message (Piece p b d) dst =
     dst @ put_u32 (1 + 4 + 4 + length d) @ [7] @ u32_to_be_bytes p @ u32_to_be_bytes b @ d"
| "put_message (Cancel p b l) dst = put_fixed dst 8 (encode_3u32 p b l)"
| "put_message (Reject p b l) dst = put_fixed dst 16 (encode_3u32 p b l)"
| "put_message HaveAll dst = put_fixed dst 14 []"
| "put_message HaveNone dst = put_fixed dst 15 []"
| "put_message (Extended e payload) dst = dst @ put_u32 (1 + 1 + length payload) @ [20] @ [e] @ payload"
| "put_message (HashRequest r bl i l pl) dst = put_hash_exchange dst 21 (hash_header r bl i l pl) []"
| "put_message (Hashes r bl i l pl hs) dst =
     dst @ put_u32 (1 + HASH_EXCHANGE_HEADER_LEN + min (length hs * 32) (2 ^ 64 - 1)) @ [22] @ r
       @ u32_to_be_bytes bl @ u32_to_be_bytes i @ u32_to_be_bytes l @ u32_to_be_bytes pl @ concat hs"
| "put_message (HashReject r bl i l pl) dst = put_hash_exchange dst 23 (hash_header r bl i l pl) []"

definition message_encode_into :: "message \<Rightarrow> bytes \<Rightarrow> wire_error + bytes" where
  "message_encode_into m dst =
     (case encoded_len m of None \<Rightarrow> Inl (MessageTooLarge (- 1)) | Some _ \<Rightarrow> Inr (put_message m dst))"

definition try_encode :: "message \<Rightarrow> wire_error + bytes" where
  "try_encode m =
     (case encoded_len m of None \<Rightarrow> Inl (MessageTooLarge (- 1)) | Some _ \<Rightarrow> message_encode_into m [])"

text \<open>\<open>Message::encode\<close> panics where \<open>try_encode\<close> fails; the panic is \<open>None\<close>.\<close>

definition message_encode :: "message \<Rightarrow> bytes option" where
  "message_encode m = (case try_encode m of Inl _ \<Rightarrow> None | Inr bs \<Rightarrow> Some bs)"

subsection \<open>Parsing\<close>

definition expect_len :: "bytes \<Rightarrow> nat \<Rightarrow> string \<Rightarrow> wire_error + unit" where
  "expect_len body expected name =
     (if length body \<noteq> expected
      then Inl (InvalidMessage (name @ '' expected '' @ fmt_dec expected @ '' body bytes, got '' @ fmt_dec (length body)))
      else Inr ())"

definition parse_3u32 :: "bytes \<Rightarrow> u32 \<times> u32 \<times> u32" where
  "parse_3u32 b =
     (u32_from_be_bytes (subslice b 0 4), u32_from_be_bytes (subslice b 4 8), u32_from_be_bytes (subslice b 8 12))"

definition validate_length :: "u32 \<Rightarrow> wire_error + unit" where
  "validate_length len =
     (if len = 0 \<or> len > MAX_WIRE_BLOCK_SIZE
      then Inl (InvalidMessage (''request length '' @ fmt_dec (unat len) @ '' not in 1..='' @ fmt_dec (unat MAX_WIRE_BLOCK_SIZE)))
      else Inr ())"

fun chunks32 :: "bytes \<Rightarrow> bytes list" where
  "chunks32 bs = (if length bs < 32 then [] else take 32 bs # chunks32 (drop 32 bs))"

declare chunks32.simps [simp del]

definition parse_hash_exchange ::
    "bytes \<Rightarrow> bool \<Rightarrow> wire_error + (bytes \<times> u32 \<times> u32 \<times> u32 \<times> u32 \<times> bytes list)" where
  "parse_hash_exchange body with_hashes =
     (if length body < HASH_EXCHANGE_HEADER_LEN
      then Inl (InvalidMessage (''BEP 52 hash message expected at least '' @ fmt_dec HASH_EXCHANGE_HEADER_LEN
                @ '' body bytes, got '' @ fmt_dec (length body)))
      else if \<not> with_hashes \<and> length body \<noteq> HASH_EXCHANGE_HEADER_LEN
      then Inl (InvalidMessage (''BEP 52 hash request/reject expected '' @ fmt_dec HASH_EXCHANGE_HEADER_LEN
                @ '' body bytes, got '' @ fmt_dec (length body)))
      else let hash_bytes = drop HASH_EXCHANGE_HEADER_LEN body in
      if \<not> 32 dvd length hash_bytes
      then Inl (InvalidMessage ''BEP 52 hashes payload is not a multiple of 32 bytes'')
      else Inr (take 32 body, u32_from_be_bytes (subslice body 32 36), u32_from_be_bytes (subslice body 36 40),
                u32_from_be_bytes (subslice body 40 44), u32_from_be_bytes (subslice body 44 48),
                chunks32 hash_bytes))"

definition plain :: "bytes \<Rightarrow> string \<Rightarrow> message \<Rightarrow> wire_error + message" where
  "plain body name m = (case expect_len body 0 name of Inl e \<Rightarrow> Inl e | Inr _ \<Rightarrow> Inr m)"

definition indexed :: "bytes \<Rightarrow> string \<Rightarrow> (u32 \<Rightarrow> message) \<Rightarrow> wire_error + message" where
  "indexed body name mk =
     (case expect_len body 4 name of Inl e \<Rightarrow> Inl e | Inr _ \<Rightarrow> Inr (mk (u32_from_be_bytes (take 4 body))))"

definition block_msg ::
    "bytes \<Rightarrow> string \<Rightarrow> bool \<Rightarrow> (u32 \<Rightarrow> u32 \<Rightarrow> u32 \<Rightarrow> message) \<Rightarrow> wire_error + message" where
  "block_msg body name validated mk =
     (case expect_len body 12 name of Inl e \<Rightarrow> Inl e | Inr _ \<Rightarrow>
      let (p, b, l) = parse_3u32 body in
      if validated then (case validate_length l of Inl e \<Rightarrow> Inl e | Inr _ \<Rightarrow> Inr (mk p b l))
      else Inr (mk p b l))"

definition parse_piece :: "bytes \<Rightarrow> wire_error + message" where
  "parse_piece body =
     (if length body < 8 then Inl (InvalidMessage ''Piece body too short'')
      else let data_len = length body - 8 in
      if (of_nat data_len :: u32) > MAX_WIRE_BLOCK_SIZE
      then Inl (InvalidMessage (''Piece block '' @ fmt_dec data_len @ '' bytes exceeds MAX_BLOCK_SIZE ''
                @ fmt_dec (unat MAX_WIRE_BLOCK_SIZE)))
      else Inr (Piece (u32_from_be_bytes (take 4 body)) (u32_from_be_bytes (subslice body 4 8)) (drop 8 body)))"

definition hash_msg ::
    "bytes \<Rightarrow> bool \<Rightarrow> (bytes \<Rightarrow> u32 \<Rightarrow> u32 \<Rightarrow> u32 \<Rightarrow> u32 \<Rightarrow> bytes list \<Rightarrow> message) \<Rightarrow> wire_error + message" where
  "hash_msg body with_hashes mk =
     (case parse_hash_exchange body with_hashes of Inl e \<Rightarrow> Inl e
      | Inr (r, bl, i, l, pl, hs) \<Rightarrow> Inr (mk r bl i l pl hs))"

definition message_parse :: "bytes \<Rightarrow> wire_error + message" where
  "message_parse payload =
     (case payload of [] \<Rightarrow> Inr KeepAlive
      | i # body \<Rightarrow>
        if i = 0 then plain body ''Choke'' Choke
        else if i = 1 then plain body ''Unchoke'' Unchoke
        else if i = 2 then plain body ''Interested'' Interested
        else if i = 3 then plain body ''NotInterested'' NotInterested
        else if i = 4 then indexed body ''Have'' Have
        else if i = 5 then Inr (Bitfield body)
        else if i = 6 then block_msg body ''Request'' True Request
        else if i = 7 then parse_piece body
        else if i = 8 then block_msg body ''Cancel'' False Cancel
        else if i = 16 then block_msg body ''Reject'' True Reject
        else if i = 17 then indexed body ''AllowedFast'' AllowedFast
        else if i = 14 then plain body ''HaveAll'' HaveAll
        else if i = 15 then plain body ''HaveNone'' HaveNone
        else if i = 20 then
          (case body of [] \<Rightarrow> Inl (InvalidMessage ''Extended body missing extension id'')
           | e # rest \<Rightarrow> Inr (Extended e rest))
        else if i = 21 then hash_msg body False (\<lambda>r bl i l pl hs. HashRequest r bl i l pl)
        else if i = 22 then hash_msg body True Hashes
        else if i = 23 then hash_msg body False (\<lambda>r bl i l pl hs. HashReject r bl i l pl)
        else Inl (UnknownMessageId i))"

subsection \<open>The payload of a message\<close>

fun payload :: "message \<Rightarrow> bytes" where
  "payload KeepAlive = []"
| "payload Choke = [0]"
| "payload Unchoke = [1]"
| "payload Interested = [2]"
| "payload NotInterested = [3]"
| "payload (Have i) = 4 # u32_to_be_bytes i"
| "payload (AllowedFast i) = 17 # u32_to_be_bytes i"
| "payload (Bitfield bits) = 5 # bits"
| "payload (Request p b l) = 6 # encode_3u32 p b l"
| "payload (Piece p b d) = 7 # u32_to_be_bytes p @ u32_to_be_bytes b @ d"
| "payload (Cancel p b l) = 8 # encode_3u32 p b l"
| "payload (Reject p b l) = 16 # encode_3u32 p b l"
| "payload HaveAll = [14]"
| "payload HaveNone = [15]"
| "payload (Extended e d) = 20 # e # d"
| "payload (HashRequest r bl i l pl) =
     21 # r @ u32_to_be_bytes bl @ u32_to_be_bytes i @ u32_to_be_bytes l @ u32_to_be_bytes pl"
| "payload (Hashes r bl i l pl hs) =
     22 # r @ u32_to_be_bytes bl @ u32_to_be_bytes i @ u32_to_be_bytes l @ u32_to_be_bytes pl @ concat hs"
| "payload (HashReject r bl i l pl) =
     23 # r @ u32_to_be_bytes bl @ u32_to_be_bytes i @ u32_to_be_bytes l @ u32_to_be_bytes pl"

text \<open>
  The messages that cross the wire: arrays of the declared size, blocks and requests within 16 KiB,
  and a payload within the frame limit.
\<close>

fun wf_fields :: "message \<Rightarrow> bool" where
  "wf_fields (Request p b l) \<longleftrightarrow> l \<noteq> 0 \<and> l \<le> MAX_WIRE_BLOCK_SIZE"
| "wf_fields (Reject p b l) \<longleftrightarrow> l \<noteq> 0 \<and> l \<le> MAX_WIRE_BLOCK_SIZE"
| "wf_fields (Piece p b d) \<longleftrightarrow> length d \<le> unat MAX_WIRE_BLOCK_SIZE"
| "wf_fields (HashRequest r bl i l pl) \<longleftrightarrow> length r = 32"
| "wf_fields (HashReject r bl i l pl) \<longleftrightarrow> length r = 32"
| "wf_fields (Hashes r bl i l pl hs) \<longleftrightarrow> length r = 32 \<and> list_all (\<lambda>h. length h = 32) hs"
| "wf_fields _ \<longleftrightarrow> True"

definition wf_message :: "message \<Rightarrow> bool" where
  "wf_message m \<longleftrightarrow> wf_fields m \<and> length (payload m) \<le> unat MAX_MESSAGE_LEN"

lemma max_lens: "unat MAX_MESSAGE_LEN = 2097152" "unat MAX_WIRE_BLOCK_SIZE = 16384"
  by (simp_all add: MAX_MESSAGE_LEN_def MAX_WIRE_BLOCK_SIZE_def)

lemma length_encode_3u32 [simp]: "length (encode_3u32 a b c) = 12"
  by (simp add: encode_3u32_def)

lemma length_concat_32: "list_all (\<lambda>h. length h = 32) hs \<Longrightarrow> length (concat hs) = length hs * 32"
  by (induction hs) auto

lemma message_len_payload:
  assumes "wf_message m"
  shows "message_len m = Some (length (payload m))"
  using assms
  by (cases m) (auto simp: wf_message_def usize_checked_add_def usize_checked_mul_def max_lens
      HASH_EXCHANGE_HEADER_LEN_def length_concat_32)

lemma put_message_payload:
  "wf_message m \<Longrightarrow> put_message m dst = dst @ put_u32 (length (payload m)) @ payload m"
  by (cases m) (auto simp: wf_message_def put_fixed_def put_hash_exchange_def hash_header_def put_u32_def
      HASH_EXCHANGE_HEADER_LEN_def length_concat_32 max_lens)

lemma encoded_len_payload: "wf_message m \<Longrightarrow> encoded_len m = Some (4 + length (payload m))"
  using message_len_payload [of m]
  by (auto simp: encoded_len_def wf_message_def usize_checked_add_def max_lens)

subsection \<open>Parsing reads the payload back\<close>

lemma chunks32_concat: "list_all (\<lambda>h. length h = 32) hs \<Longrightarrow> chunks32 (concat hs) = hs"
  by (induction hs) (simp_all add: chunks32.simps)

lemma concat_chunks32:
  "32 dvd length bs \<Longrightarrow> concat (chunks32 bs) = bs \<and> list_all (\<lambda>h. length h = 32) (chunks32 bs)"
proof (induction bs rule: chunks32.induct)
  case (1 bs)
  show ?case
  proof (cases "length bs < 32")
    case True
    with 1(2) have "bs = []" by (auto dest: dvd_imp_le)
    then show ?thesis by (simp add: chunks32.simps)
  next
    case False
    with 1 have "32 dvd length (drop 32 bs)" by (simp add: dvd_diff_nat)
    with 1(1) [OF False] False show ?thesis by (subst (1 2) chunks32.simps) simp
  qed
qed

lemma parse_3u32_encode: "parse_3u32 (encode_3u32 a b c) = (a, b, c)"
  by (simp add: parse_3u32_def encode_3u32_def subslice_def u32_from_to_be_bytes)

lemma parse_hash_exchange_header:
  assumes "length r = 32" "list_all (\<lambda>h. length h = 32) hs" "\<not> wh \<longrightarrow> hs = []"
  shows "parse_hash_exchange (r @ u32_to_be_bytes bl @ u32_to_be_bytes i @ u32_to_be_bytes l @ u32_to_be_bytes pl
      @ concat hs) wh = Inr (r, bl, i, l, pl, hs)"
  using assms
  by (auto simp: parse_hash_exchange_def HASH_EXCHANGE_HEADER_LEN_def subslice_def Let_def
      u32_from_to_be_bytes length_concat_32 chunks32_concat)

lemma parse_payload:
  assumes "wf_fields m"
  shows "message_parse (payload m) = Inr m"
proof (cases m)
  case (Piece p b d)
  have "unat (of_nat (length d) :: u32) = length d"
    using assms Piece by (simp add: max_lens unat_of_nat)
  with assms Piece show ?thesis
    by (simp add: message_parse_def parse_piece_def Let_def subslice_def u32_from_to_be_bytes word_less_nat_alt max_lens)
next
  case (HashRequest r bl i l pl)
  with assms show ?thesis
    using parse_hash_exchange_header [of r "[]" False bl i l pl] by (simp add: message_parse_def hash_msg_def)
next
  case (HashReject r bl i l pl)
  with assms show ?thesis
    using parse_hash_exchange_header [of r "[]" False bl i l pl] by (simp add: message_parse_def hash_msg_def)
next
  case (Hashes r bl i l pl hs)
  with assms show ?thesis
    using parse_hash_exchange_header [of r hs True bl i l pl] by (simp add: message_parse_def hash_msg_def)
qed (use assms in \<open>simp_all add: message_parse_def plain_def indexed_def block_msg_def expect_len_def
    validate_length_def parse_3u32_encode u32_from_to_be_bytes not_less\<close>)

lemma be_triple:
  assumes "length body = 12"
  shows "encode_3u32 (u32_from_be_bytes (subslice body 0 4)) (u32_from_be_bytes (subslice body 4 8))
    (u32_from_be_bytes (subslice body 8 12)) = body"
proof -
  have "subslice body 0 4 @ subslice body 4 8 @ subslice body 8 12 = body"
    using assms by (simp add: subslice_append) (simp add: subslice_def)
  then show ?thesis using assms by (simp add: encode_3u32_def u32_to_from_be_bytes)
qed

lemma hash_header_bytes:
  assumes "48 \<le> length body"
  shows "body = take 32 body @ u32_to_be_bytes (u32_from_be_bytes (subslice body 32 36))
    @ u32_to_be_bytes (u32_from_be_bytes (subslice body 36 40)) @ u32_to_be_bytes (u32_from_be_bytes (subslice body 40 44))
    @ u32_to_be_bytes (u32_from_be_bytes (subslice body 44 48)) @ drop 48 body"
proof -
  have "(((take 32 body @ subslice body 32 36) @ subslice body 36 40) @ subslice body 40 44) @ subslice body 44 48
      = take 48 body" by (simp only: take_subslice)
  then have "((((take 32 body @ subslice body 32 36) @ subslice body 36 40) @ subslice body 40 44) @ subslice body 44 48)
      @ drop 48 body = body" by simp
  then show ?thesis using assms by (simp add: u32_to_from_be_bytes)
qed

lemma parse_hash_exchange_Inr:
  assumes "parse_hash_exchange body wh = Inr (r, bl, i, l, pl, hs)"
  shows "body = r @ u32_to_be_bytes bl @ u32_to_be_bytes i @ u32_to_be_bytes l @ u32_to_be_bytes pl @ concat hs"
    "length r = 32" "list_all (\<lambda>h. length h = 32) hs" "\<not> wh \<longrightarrow> hs = []"
proof -
  have len: "48 \<le> length body" "\<not> wh \<longrightarrow> length body = 48" "32 dvd length (drop 48 body)"
    and eq: "(r, bl, i, l, pl, hs) = (take 32 body, u32_from_be_bytes (subslice body 32 36),
      u32_from_be_bytes (subslice body 36 40), u32_from_be_bytes (subslice body 40 44),
      u32_from_be_bytes (subslice body 44 48), chunks32 (drop 48 body))"
    using assms unfolding parse_hash_exchange_def HASH_EXCHANGE_HEADER_LEN_def Let_def
    by (simp_all only: split: if_splits) auto
  note c = concat_chunks32 [OF len(3)]
  show "body = r @ u32_to_be_bytes bl @ u32_to_be_bytes i @ u32_to_be_bytes l @ u32_to_be_bytes pl @ concat hs"
    using hash_header_bytes [OF len(1)] c eq by simp
  show "length r = 32" using len(1) eq by simp
  show "list_all (\<lambda>h. length h = 32) hs" using c eq by simp
  show "\<not> wh \<longrightarrow> hs = []" using len(2) eq by (simp add: chunks32.simps)
qed

lemma parse_piece_Inr:
  assumes "parse_piece body = Inr m" "length body < 2 ^ 32"
  shows "payload m = 7 # body \<and> wf_fields m"
proof -
  have len: "8 \<le> length body" and sz: "\<not> (of_nat (length body - 8) :: u32) > MAX_WIRE_BLOCK_SIZE"
    and m: "m = Piece (u32_from_be_bytes (take 4 body)) (u32_from_be_bytes (subslice body 4 8)) (drop 8 body)"
    using assms(1) unfolding parse_piece_def Let_def by (simp_all only: split: if_splits) simp_all
  have "(take 4 body @ subslice body 4 8) @ drop 8 body = body" by (simp only: take_subslice) simp
  moreover have "length body - 8 \<le> unat MAX_WIRE_BLOCK_SIZE"
    using sz assms(2) by (simp add: word_less_nat_alt unat_of_nat)
  ultimately show ?thesis using len by (simp add: m u32_to_from_be_bytes)
qed

lemma block_msg_Inr:
  assumes "block_msg body nm v mk = Inr m"
  obtains p b l where "m = mk p b l" "body = encode_3u32 p b l" "v \<Longrightarrow> l \<noteq> 0 \<and> l \<le> MAX_WIRE_BLOCK_SIZE"
proof (rule that)
  let ?w = "\<lambda>i j. u32_from_be_bytes (subslice body i j)"
  show "m = mk (?w 0 4) (?w 4 8) (?w 8 12)" "body = encode_3u32 (?w 0 4) (?w 4 8) (?w 8 12)"
    "v \<Longrightarrow> ?w 8 12 \<noteq> 0 \<and> ?w 8 12 \<le> MAX_WIRE_BLOCK_SIZE"
    using assms be_triple [of body]
    by (auto simp: block_msg_def expect_len_def parse_3u32_def validate_length_def not_less split: if_splits)
qed

lemma hash_msg_Inr:
  assumes "hash_msg body wh mk = Inr m"
  obtains r bl i l pl hs where "m = mk r bl i l pl hs" "length r = 32" "list_all (\<lambda>h. length h = 32) hs" "\<not> wh \<longrightarrow> hs = []"
    "body = r @ u32_to_be_bytes bl @ u32_to_be_bytes i @ u32_to_be_bytes l @ u32_to_be_bytes pl @ concat hs"
  using assms parse_hash_exchange_Inr [of body wh] by (fastforce simp: hash_msg_def split: sum.splits)

lemma payload_parse:
  assumes "message_parse bs = Inr m" "length bs < 2 ^ 32"
  shows "payload m = bs \<and> wf_fields m"
proof (cases bs)
  case Nil
  with assms show ?thesis by (simp add: message_parse_def)
next
  case (Cons i body)
  have pc: "length body < 2 ^ 32" using assms(2) Cons by simp
  consider "i \<in> {6, 8, 16}" | "i = 7" | "i \<in> {21, 22, 23}" | "i \<notin> {6, 8, 16, 7, 21, 22, 23}" by blast
  then show ?thesis
  proof cases
    case 1
    then show ?thesis using assms(1) Cons by (auto simp: message_parse_def elim!: block_msg_Inr)
  next
    case 2
    then show ?thesis using assms(1) Cons parse_piece_Inr [OF _ pc] by (simp add: message_parse_def)
  next
    case 3
    then show ?thesis using assms(1) Cons by (auto simp: message_parse_def elim!: hash_msg_Inr)
  next
    case 4
    then show ?thesis using assms(1) Cons
      by (auto simp: message_parse_def plain_def indexed_def expect_len_def u32_to_from_be_bytes split: if_splits list.splits)
  qed
qed

end
