(* ===== verification/Codec_Interface.thy ===== *)
theory Codec_Interface
  imports TNG_Prelude "HOL-Library.Sublist"
begin

text \<open>
  The contracts the wire formats of the program share. A \<open>byte_codec\<close> parses what it encodes, a
  \<open>canonical_codec\<close> also encodes what it parses, and a \<open>framed_codec\<close> takes messages off a byte stream
  that arrives in pieces. The peer messages, the handshake and the uTP packets are instances.
\<close>

subsection \<open>Encoding and parsing\<close>

locale byte_codec =
  fixes enc :: "'a \<Rightarrow> bytes"
    and dec :: "bytes \<Rightarrow> 'e + 'a"
    and valid :: "'a \<Rightarrow> bool"
  assumes dec_enc: "valid x \<Longrightarrow> dec (enc x) = Inr x"
begin

lemma enc_inj: "valid x \<Longrightarrow> valid y \<Longrightarrow> enc x = enc y \<Longrightarrow> x = y"
  by (metis dec_enc sum.inject(2))

lemma rejected_not_encoding: "dec bs = Inl e \<Longrightarrow> valid x \<Longrightarrow> enc x \<noteq> bs"
  by (metis dec_enc sum.distinct(1))

end

text \<open>\<open>raw\<close> is what the caller guarantees of the bytes it passes to the parser.\<close>

locale canonical_codec = byte_codec +
  fixes raw :: "bytes \<Rightarrow> bool"
  assumes enc_raw: "valid x \<Longrightarrow> raw (enc x)"
    and enc_dec: "raw bs \<Longrightarrow> dec bs = Inr x \<Longrightarrow> valid x \<and> enc x = bs"
begin

lemma accepts_iff: "raw bs \<and> dec bs = Inr x \<longleftrightarrow> valid x \<and> enc x = bs"
  by (metis dec_enc enc_dec enc_raw)

lemma dec_inj: "raw bs \<Longrightarrow> raw cs \<Longrightarrow> dec bs = Inr x \<Longrightarrow> dec cs = Inr x \<Longrightarrow> bs = cs"
  by (metis enc_dec)

end

subsection \<open>Frames on a stream\<close>

text \<open>
  \<open>read_frames\<close> asks for frames until none is complete, as a framed reader does after every read;
  \<open>feed\<close> does so for each piece of the stream as it arrives, keeping the unread bytes in between. The
  reader has a state of its own, and it stops at the first error; the frames it has returned by then are
  part of the result.
\<close>

fun read_frames ::
    "nat \<Rightarrow> ('s \<Rightarrow> bytes \<Rightarrow> 's \<times> ('e + ('a \<times> bytes) option)) \<Rightarrow> 's \<Rightarrow> bytes \<Rightarrow> 's \<times> 'a list \<times> ('e + bytes)" where
  "read_frames 0 next_frame s buf = (s, [], Inr buf)"
| "read_frames (Suc n) next_frame s buf =
     (case next_frame s buf of
        (s', Inl e) \<Rightarrow> (s', [], Inl e)
      | (s', Inr None) \<Rightarrow> (s', [], Inr buf)
      | (s', Inr (Some (x, rest))) \<Rightarrow>
          (case read_frames n next_frame s' rest of (s'', xs, r) \<Rightarrow> (s'', x # xs, r)))"

fun feed ::
    "('s \<Rightarrow> bytes \<Rightarrow> 's \<times> ('e + ('a \<times> bytes) option)) \<Rightarrow> 's \<Rightarrow> bytes \<Rightarrow> bytes list \<Rightarrow> 's \<times> 'a list \<times> ('e + bytes)" where
  "feed next_frame s buf [] = (s, [], Inr buf)"
| "feed next_frame s buf (c # cs) =
     (case read_frames (Suc (length (buf @ c))) next_frame s (buf @ c) of
        (s', xs, Inl e) \<Rightarrow> (s', xs, Inl e)
      | (s', xs, Inr rest) \<Rightarrow>
          (case feed next_frame s' rest cs of (s'', ys, r) \<Rightarrow> (s'', xs @ ys, r)))"

text \<open>The bytes of the next frame that have arrived when only complete frames have been taken off.\<close>

definition cut_frame :: "('a \<Rightarrow> bytes) \<Rightarrow> 'a list \<Rightarrow> bytes \<Rightarrow> bool" where
  "cut_frame frame zs rest \<longleftrightarrow> (case zs of [] \<Rightarrow> rest = [] | z # _ \<Rightarrow> strict_prefix rest (frame z))"

text \<open>
  A reader may refuse to buffer an incomplete frame: \<open>refusal\<close> says with which errors. Any other outcome
  than the frame, the wait for more bytes or such a refusal breaks the contract.
\<close>

locale framed_codec =
  fixes frame :: "'a \<Rightarrow> bytes"
    and next_frame :: "'s \<Rightarrow> bytes \<Rightarrow> 's \<times> ('e + ('a \<times> bytes) option)"
    and valid :: "'a \<Rightarrow> bool"
    and inv :: "'s \<Rightarrow> bool"
    and refusal :: "'e \<Rightarrow> bool"
  assumes next_frame: "inv s \<Longrightarrow> valid x \<Longrightarrow> \<exists>s'. next_frame s (frame x @ rest) = (s', Inr (Some (x, rest))) \<and> inv s'"
    and next_frame_partial: "inv s \<Longrightarrow> buf = [] \<or> valid x \<and> strict_prefix buf (frame x) \<Longrightarrow>
      \<exists>s' r. next_frame s buf = (s', r) \<and> inv s' \<and> (r = Inr None \<or> (\<exists>e. r = Inl e \<and> refusal e))"
    and frame_nonempty: "valid x \<Longrightarrow> frame x \<noteq> []"
begin

lemma read_frames_waits:
  assumes "inv s" "cut_frame frame xs buf" "list_all valid xs" "read_frames (Suc n) next_frame s buf = (s', ys, r)"
  shows "inv s' \<and> ys = [] \<and> (r = Inr buf \<or> (\<exists>e. r = Inl e \<and> refusal e))"
proof -
  have "buf = [] \<or> valid (hd xs) \<and> strict_prefix buf (frame (hd xs))"
    using assms(2,3) by (cases xs) (auto simp: cut_frame_def)
  from next_frame_partial [OF assms(1) this] assms(4) show ?thesis by auto
qed

lemma read_frames_prefix:
  assumes "list_all valid xs" "concat (map frame xs) = buf @ more" "length buf < n" "inv s"
    "read_frames n next_frame s buf = (s', ys, r)"
  shows "inv s' \<and> (\<exists>zs. xs = ys @ zs \<and>
    (case r of Inl e \<Rightarrow> refusal e | Inr rest \<Rightarrow> concat (map frame zs) = rest @ more \<and> cut_frame frame zs rest))"
  using assms
proof (induction xs arbitrary: n buf s s' ys r)
  case Nil
  then obtain m where n: "n = Suc m" by (cases n) auto
  have b: "buf = []" "more = []" using Nil.prems(2) by simp_all
  have lo: "cut_frame frame [] buf" by (simp add: cut_frame_def b)
  from read_frames_waits [OF Nil.prems(4) lo _ Nil.prems(5) [unfolded n]] show ?case using lo by (auto simp: b)
next
  case (Cons x xs)
  obtain m where n: "n = Suc m" using Cons.prems(3) by (cases n) auto
  have v: "valid x" using Cons.prems(1) by simp
  from Cons.prems(2) consider us where "buf = frame x @ us" "concat (map frame xs) = us @ more"
    | us where "frame x = buf @ us" "us \<noteq> []" "us @ concat (map frame xs) = more"
    by (auto simp: append_eq_append_conv2) (metis append_Nil2 append_Nil)
  then show ?case
  proof cases
    case 1
    obtain s1 where s1: "next_frame s buf = (s1, Inr (Some (x, us)))" "inv s1"
      using next_frame [OF Cons.prems(4) v, of us] 1 by auto
    obtain ys1 where ys1: "read_frames m next_frame s1 us = (s', ys1, r)" "ys = x # ys1"
      using Cons.prems(5) n s1(1) by (auto split: prod.splits)
    have "length us < m" using 1 n Cons.prems(3) frame_nonempty [OF v] by (cases "frame x") auto
    from Cons.IH [OF _ 1(2) this s1(2) ys1(1)] Cons.prems(1) ys1(2) show ?thesis by auto
  next
    case 2
    then have lo: "cut_frame frame (x # xs) buf" by (auto simp: cut_frame_def strict_prefix_def)
    from read_frames_waits [OF Cons.prems(4) lo Cons.prems(1) Cons.prems(5) [unfolded n]] lo Cons.prems(2)
    show ?thesis by auto
  qed
qed

lemma feed_concat:
  assumes "list_all valid xs" "concat (map frame xs) = buf @ concat chunks" "cut_frame frame xs buf" "inv s"
    "feed next_frame s buf chunks = (s', ys, r)"
  shows "case r of Inr rest \<Rightarrow> ys = xs \<and> rest = [] | Inl e \<Rightarrow> prefix ys xs \<and> refusal e"
  using assms
proof (induction chunks arbitrary: xs buf s ys)
  case Nil
  then show ?case by (cases xs) (auto simp: cut_frame_def strict_prefix_def prefix_def)
next
  case (Cons c cs)
  obtain s1 us q where f: "read_frames (Suc (length (buf @ c))) next_frame s (buf @ c) = (s1, us, q)" by (metis prod.exhaust)
  from read_frames_prefix [OF Cons.prems(1) _ _ Cons.prems(4) f, of "concat cs"] Cons.prems(2)
  obtain zs where z: "inv s1" "xs = us @ zs"
    "case q of Inl e \<Rightarrow> refusal e | Inr rest \<Rightarrow> concat (map frame zs) = rest @ concat cs \<and> cut_frame frame zs rest" by auto
  show ?case
  proof (cases q)
    case (Inl e)
    then show ?thesis using f z Cons.prems(5) by auto
  next
    case (Inr rest)
    then obtain vs where vs: "feed next_frame s1 rest cs = (s', vs, r)" "ys = us @ vs"
      using f Cons.prems(5) by (auto split: prod.splits)
    from Cons.IH [OF _ _ _ z(1) vs(1), of zs] z Inr Cons.prems(1) vs(2) show ?thesis by (auto split: sum.splits)
  qed
qed

text \<open>However the stream is cut into pieces, the messages come out as they went in, up to a refusal.\<close>

lemma feed_stream:
  assumes "list_all valid xs" "concat chunks = concat (map frame xs)" "inv s" "feed next_frame s [] chunks = (s', ys, r)"
  shows "case r of Inr rest \<Rightarrow> ys = xs \<and> rest = [] | Inl e \<Rightarrow> prefix ys xs \<and> refusal e"
proof (rule feed_concat [OF assms(1) _ _ assms(3,4)])
  show "cut_frame frame xs []"
    using assms(1) frame_nonempty by (cases xs) (auto simp: cut_frame_def strict_prefix_def dest: sym)
qed (use assms(2) in simp)

end

end
