(* ===== verification/Peer_Codec.thy ===== *)
theory Peer_Codec
  imports Peer_Message Codec_Interface Resource_Governor
begin

text \<open>
  The framed codec of \<open>crates/rt-peer-wire/src/codec.rs\<close> and the handshake of \<open>handshake.rs\<close>. The codec
  charges the retained read and write buffers to the engine's memory governor before they grow. The
  \<open>BytesMut\<close> of the \<open>bytes\<close> crate is its contents and its capacity; the capacity the crate chooses
  after each operation is the parameter \<open>cap\<close> of the definitions, of which only the documented law
  of \<open>reserve\<close> is used.
\<close>

subsection \<open>Buffers\<close>

record bytes_mut =
  bm_data :: bytes
  bm_cap :: nat

datatype bm_op = Reserve nat | Advance nat | SplitTo nat | Put nat

type_synonym capacity_policy = "bytes_mut \<Rightarrow> bm_op \<Rightarrow> nat"

definition bm_reserve :: "capacity_policy \<Rightarrow> bytes_mut \<Rightarrow> nat \<Rightarrow> bytes_mut" where
  "bm_reserve cap b additional = b\<lparr>bm_cap := cap b (Reserve additional)\<rparr>"

definition bm_advance :: "capacity_policy \<Rightarrow> bytes_mut \<Rightarrow> nat \<Rightarrow> bytes_mut" where
  "bm_advance cap b n = \<lparr>bm_data = drop n (bm_data b), bm_cap = cap b (Advance n)\<rparr>"

definition bm_split_to :: "capacity_policy \<Rightarrow> bytes_mut \<Rightarrow> nat \<Rightarrow> bytes \<times> bytes_mut" where
  "bm_split_to cap b n =
     (take n (bm_data b), \<lparr>bm_data = drop n (bm_data b), bm_cap = cap b (SplitTo n)\<rparr>)"

text \<open>Documented: after \<open>reserve(n)\<close> the capacity holds the contents and \<open>n\<close> more bytes.\<close>

definition lawful_policy :: "capacity_policy \<Rightarrow> bool" where
  "lawful_policy cap \<longleftrightarrow> (\<forall>b n. length (bm_data b) + n \<le> cap b (Reserve n))"

subsection \<open>The codec\<close>

text \<open>\<open>resources\<close> says whether the codec holds the shared governor, which is passed along.\<close>

record peer_codec =
  resources :: bool
  memory_leases :: "memory_lease list"
  read_reserved_bytes :: u64
  write_reserved_bytes :: u64

definition codec_default :: peer_codec where
  "codec_default = \<lparr>resources = False, memory_leases = [], read_reserved_bytes = 0, write_reserved_bytes = 0\<rparr>"

definition with_resources :: peer_codec where
  "with_resources = codec_default\<lparr>resources := True\<rparr>"

definition required_bytes :: "nat \<Rightarrow> u64 option" where
  "required_bytes accounted_capacity =
     Option.bind (if accounted_capacity < 2 ^ 64 then Some (of_nat accounted_capacity) else None) (\<lambda>bytes. checked_mul bytes 2)"

definition reserve_capacity ::
    "capacity_policy \<Rightarrow> governor \<Rightarrow> peer_codec \<Rightarrow> bytes_mut \<Rightarrow> nat
       \<Rightarrow> governor \<times> peer_codec \<times> bytes_mut \<times> (wire_error + unit)" where
  "reserve_capacity cap g c src required =
     (let accounted_capacity = max (bm_cap src) required;
          grown = (if required > bm_cap src then bm_reserve cap src (required - length (bm_data src)) else src) in
      if \<not> resources c then (g, c, grown, Inr ())
      else case required_bytes accounted_capacity of
             None \<Rightarrow> (g, c, src, Inl PeerBufferLengthOverflow)
           | Some req \<Rightarrow>
      if req > read_reserved_bytes c then
        (case try_acquire g PeerBuffer (req - read_reserved_bytes c) of
           (None, g') \<Rightarrow> (g', c, src, Inl (PeerBufferAllocationDenied req))
         | (Some lease, g') \<Rightarrow>
             (g', c\<lparr>memory_leases := memory_leases c @ [lease], read_reserved_bytes := req\<rparr>, grown, Inr ()))
      else (g, c, grown, Inr ()))"

definition reserve_write_capacity ::
    "capacity_policy \<Rightarrow> governor \<Rightarrow> peer_codec \<Rightarrow> bytes_mut \<Rightarrow> nat
       \<Rightarrow> governor \<times> peer_codec \<times> bytes_mut \<times> (wire_error + unit)" where
  "reserve_write_capacity cap g c dst required =
     (let accounted_capacity = max (bm_cap dst) required;
          grown = (if required > bm_cap dst then bm_reserve cap dst (required - length (bm_data dst)) else dst) in
      if \<not> resources c then (g, c, grown, Inr ())
      else case required_bytes accounted_capacity of
             None \<Rightarrow> (g, c, dst, Inl PeerBufferLengthOverflow)
           | Some req \<Rightarrow>
      if req > write_reserved_bytes c then
        (case try_acquire g PeerBuffer (req - write_reserved_bytes c) of
           (None, g') \<Rightarrow> (g', c, dst, Inl (PeerBufferAllocationDenied req))
         | (Some lease, g') \<Rightarrow>
             (g', c\<lparr>memory_leases := memory_leases c @ [lease], write_reserved_bytes := req\<rparr>, grown, Inr ()))
      else (g, c, grown, Inr ()))"

definition codec_decode ::
    "capacity_policy \<Rightarrow> governor \<Rightarrow> peer_codec \<Rightarrow> bytes_mut
       \<Rightarrow> governor \<times> peer_codec \<times> bytes_mut \<times> (wire_error + message option)" where
  "codec_decode cap g c src =
     (if length (bm_data src) < 4 then
        (case reserve_capacity cap g c src 4 of
           (g', c', src', Inl e) \<Rightarrow> (g', c', src', Inl e)
         | (g', c', src', Inr _) \<Rightarrow> (g', c', src', Inr None))
      else let len = u32_from_be_bytes (take 4 (bm_data src)) in
      if len > MAX_MESSAGE_LEN then (g, c, src, Inl (MessageTooLarge len))
      else let total = 4 + unat len in
      if length (bm_data src) < total then
        (case reserve_capacity cap g c src total of
           (g', c', src', Inl e) \<Rightarrow> (g', c', src', Inl e)
         | (g', c', src', Inr _) \<Rightarrow> (g', c', src', Inr None))
      else case bm_split_to cap (bm_advance cap src 4) (unat len) of
             (body, src') \<Rightarrow>
               (case message_parse body of
                  Inl e \<Rightarrow> (g, c, src', Inl e)
                | Inr msg \<Rightarrow> (g, c, src', Inr (Some msg))))"

definition codec_encode ::
    "capacity_policy \<Rightarrow> governor \<Rightarrow> peer_codec \<Rightarrow> message \<Rightarrow> bytes_mut
       \<Rightarrow> governor \<times> peer_codec \<times> bytes_mut \<times> (wire_error + unit)" where
  "codec_encode cap g c item dst =
     (case encoded_len item of
        None \<Rightarrow> (g, c, dst, Inl (MessageTooLarge (- 1)))
      | Some n \<Rightarrow>
          (case reserve_write_capacity cap g c dst n of
             (g', c', dst', Inl e) \<Rightarrow> (g', c', dst', Inl e)
           | (g', c', dst', Inr _) \<Rightarrow>
               (case message_encode_into item (bm_data dst') of
                  Inl e \<Rightarrow> (g', c', dst', Inl e)
                | Inr bs \<Rightarrow> (g', c', \<lparr>bm_data = bs, bm_cap = cap dst' (Put (length bs - length (bm_data dst')))\<rparr>, Inr ()))))"

subsection \<open>The handshake\<close>

definition HANDSHAKE_LEN :: nat where
  "HANDSHAKE_LEN = 68"

definition PROTOCOL :: bytes where
  "PROTOCOL = ascii ''BitTorrent protocol''"

definition PROTOCOL_LEN :: u8 where
  "PROTOCOL_LEN = 19"

text \<open>\<open>ExtensionFlags\<close>: the eight reserved bytes.\<close>

type_synonym extension_flags = bytes

definition supports_extension_protocol :: "extension_flags \<Rightarrow> bool" where
  "supports_extension_protocol f \<longleftrightarrow> and (f ! 5) 0x10 \<noteq> 0"

definition supports_fast_extension :: "extension_flags \<Rightarrow> bool" where
  "supports_fast_extension f \<longleftrightarrow> and (f ! 7) 0x04 \<noteq> 0"

definition supports_v2 :: "extension_flags \<Rightarrow> bool" where
  "supports_v2 f \<longleftrightarrow> and (f ! 7) 0x10 \<noteq> 0"

definition with_extension_protocol :: extension_flags where
  "with_extension_protocol = (let flags = replicate 8 0 in flags[5 := or (flags ! 5) 0x10])"

definition with_extension_protocol_and_fast :: extension_flags where
  "with_extension_protocol_and_fast = (let flags = with_extension_protocol in flags[7 := or (flags ! 7) 0x04])"

definition with_extension_protocol_and_fast_and_v2 :: extension_flags where
  "with_extension_protocol_and_fast_and_v2 =
     (let flags = with_extension_protocol_and_fast in flags[7 := or (flags ! 7) 0x10])"

definition with_v2_support :: extension_flags where
  "with_v2_support = with_extension_protocol_and_fast_and_v2"

record handshake =
  hs_reserved :: extension_flags
  hs_info_hash :: bytes
  hs_peer_id :: bytes

definition handshake_new :: "bytes \<Rightarrow> bytes \<Rightarrow> handshake" where
  "handshake_new ih pid = \<lparr>hs_reserved = replicate 8 0, hs_info_hash = ih, hs_peer_id = pid\<rparr>"

definition handshake_encode :: "handshake \<Rightarrow> bytes" where
  "handshake_encode h =
     (let buf = replicate HANDSHAKE_LEN 0;
          buf = buf[0 := PROTOCOL_LEN];
          buf = copy_at 1 PROTOCOL buf;
          buf = copy_at 20 (hs_reserved h) buf;
          buf = copy_at 28 (hs_info_hash h) buf in
      copy_at 48 (hs_peer_id h) buf)"

definition handshake_parse :: "bytes \<Rightarrow> wire_error + handshake" where
  "handshake_parse buf =
     (if buf ! 0 \<noteq> PROTOCOL_LEN \<or> subslice buf 1 20 \<noteq> PROTOCOL then Inl ProtocolMismatch
      else Inr \<lparr>hs_reserved = subslice buf 20 28, hs_info_hash = subslice buf 28 48, hs_peer_id = subslice buf 48 68\<rparr>)"

subsection \<open>Frames\<close>

definition frame_bytes :: "message \<Rightarrow> bytes" where
  "frame_bytes m = (case message_encode m of None \<Rightarrow> [] | Some bs \<Rightarrow> bs)"

lemma message_encode_payload: "wf_message m \<Longrightarrow> message_encode m = Some (put_u32 (length (payload m)) @ payload m)"
  by (simp add: message_encode_def try_encode_def message_encode_into_def encoded_len_payload put_message_payload)

lemma length_put_u32 [simp]: "length (put_u32 n) = 4"
  by (simp add: put_u32_def)

lemma put_u32_read: "n \<le> unat MAX_MESSAGE_LEN \<Longrightarrow> u32_from_be_bytes (put_u32 n) = of_nat n \<and> unat (of_nat n :: u32) = n"
  by (simp add: put_u32_def max_lens unat_of_nat)

lemma frame_payload: "wf_message m \<Longrightarrow> frame_bytes m = put_u32 (length (payload m)) @ payload m"
  by (simp add: frame_bytes_def message_encode_payload)

lemma length_frame: "wf_message m \<Longrightarrow> length (frame_bytes m) = 4 + length (payload m)"
  by (simp add: frame_payload)

text \<open>
  The codec at work in a framed reader. The governor is shared, so other users may change it between two
  calls, and the reader chooses the capacity of the buffer: \<open>env i\<close> is the governor and the capacity that the
  \<open>i\<close>-th call finds, whatever they are. The codec itself is carried from call to call.
\<close>

definition next_frame ::
    "capacity_policy \<Rightarrow> (nat \<Rightarrow> governor \<times> nat) \<Rightarrow> nat \<times> peer_codec \<Rightarrow> bytes
       \<Rightarrow> (nat \<times> peer_codec) \<times> (wire_error + (message \<times> bytes) option)" where
  "next_frame cap env = (\<lambda>(i, c) buf.
     (case env i of (g, k) \<Rightarrow>
      case codec_decode cap g c \<lparr>bm_data = buf, bm_cap = k\<rparr> of
        (_, c', _, Inl e) \<Rightarrow> ((Suc i, c'), Inl e)
      | (_, c', _, Inr None) \<Rightarrow> ((Suc i, c'), Inr None)
      | (_, c', src', Inr (Some m)) \<Rightarrow> ((Suc i, c'), Inr (Some (m, bm_data src')))))"

fun buffer_refusal :: "wire_error \<Rightarrow> bool" where
  "buffer_refusal PeerBufferLengthOverflow = True"
| "buffer_refusal (PeerBufferAllocationDenied n) = True"
| "buffer_refusal e = False"

text \<open>The governor can grant a read buffer of capacity \<open>k\<close>, for which the codec charges twice the bytes.\<close>

definition has_room :: "governor \<Rightarrow> nat \<Rightarrow> bool" where
  "has_room g k \<longleftrightarrow> 2 * k < 2 ^ 64 \<and>
     unat (class_used g PeerBuffer) + 2 * k \<le> unat (class_caps_bytes (gconfig g) PeerBuffer) \<and>
     unat (total_used g) + 2 * k \<le> unat (total_cap_bytes (gconfig g))"

definition roomy :: "(nat \<Rightarrow> governor \<times> nat) \<Rightarrow> bool" where
  "roomy env \<longleftrightarrow> (\<forall>i. has_room (fst (env i)) (max (snd (env i)) (4 + unat MAX_MESSAGE_LEN)))"

lemma has_room_mono: "has_room g k \<Longrightarrow> j \<le> k \<Longrightarrow> has_room g j"
  by (simp add: has_room_def)

lemma required_bytes_iff: "required_bytes n = (if 2 * n < 2 ^ 64 then Some (of_nat (2 * n)) else None)"
proof (cases "n < 2 ^ 64")
  case True
  then have "unat (of_nat n :: u64) = n" by (simp add: unat_of_nat)
  then show ?thesis using True by (simp add: required_bytes_def checked_mul_def mult.commute)
qed (simp add: required_bytes_def)

lemma reserve_capacity_outcome:
  assumes "reserve_capacity cap g c src n = (g', c', src', r)"
  shows "resources c' = resources c \<and>
    (r = Inr () \<or> (\<exists>e. r = Inl e \<and> buffer_refusal e \<and> resources c \<and> \<not> has_room g (max (bm_cap src) n)))"
proof (cases "resources c \<and> has_room g (max (bm_cap src) n)")
  case True
  let ?k = "max (bm_cap src) n"
  let ?req = "of_nat (2 * ?k) :: u64"
  have k: "2 * ?k < 2 ^ 64" using True by (simp add: has_room_def)
  then have "unat ?req = 2 * ?k" by (simp only: unat_of_nat) simp
  then have "unat (?req - read_reserved_bytes c) \<le> 2 * ?k" if "?req > read_reserved_bytes c"
    using unat_sub [of "read_reserved_bytes c" ?req] that by simp
  then have "fst (try_acquire g PeerBuffer (?req - read_reserved_bytes c)) \<noteq> None" if "?req > read_reserved_bytes c"
    using True that unfolding try_acquire_None_iff has_room_def by fastforce
  then show ?thesis using assms True k
    by (auto simp: reserve_capacity_def required_bytes_iff Let_def split: if_splits prod.splits option.splits)
qed (use assms in \<open>auto simp: reserve_capacity_def Let_def split: if_splits prod.splits option.splits\<close>)

lemma decode_frame:
  assumes "wf_message m" "bm_data src = frame_bytes m @ rest"
  shows "\<exists>k. codec_decode cap g c src = (g, c, \<lparr>bm_data = rest, bm_cap = k\<rparr>, Inr (Some m))"
proof -
  let ?n = "length (payload m)"
  have n: "?n \<le> unat MAX_MESSAGE_LEN" and wf: "wf_fields m" using assms(1) by (simp_all add: wf_message_def)
  have len: "length (bm_data src) = 4 + ?n + length rest" using assms by (simp add: length_frame)
  have "u32_from_be_bytes (take 4 (bm_data src)) = of_nat ?n" "\<not> of_nat ?n > MAX_MESSAGE_LEN"
    using put_u32_read [OF n] n assms by (simp_all add: frame_payload word_less_nat_alt)
  then show ?thesis using len assms put_u32_read [OF n] parse_payload [OF wf]
    by (simp add: codec_decode_def bm_split_to_def bm_advance_def frame_payload)
qed

lemma partial_frame:
  assumes "bm_data src = [] \<or> wf_message m \<and> strict_prefix (bm_data src) (frame_bytes m)"
  shows "\<exists>n \<le> 4 + unat MAX_MESSAGE_LEN. codec_decode cap g c src =
    (case reserve_capacity cap g c src n of
       (g', c', src', Inl e) \<Rightarrow> (g', c', src', Inl e)
     | (g', c', src', Inr _) \<Rightarrow> (g', c', src', Inr None))"
proof (cases "length (bm_data src) < 4")
  case True
  then show ?thesis by (intro exI [of _ 4]) (simp add: codec_decode_def)
next
  case False
  then have wf: "wf_message m" and sp: "strict_prefix (bm_data src) (frame_bytes m)" using assms by auto
  let ?n = "length (payload m)"
  have n: "?n \<le> unat MAX_MESSAGE_LEN" using wf by (simp add: wf_message_def)
  obtain us where us: "frame_bytes m = bm_data src @ us" "us \<noteq> []"
    using sp by (auto simp: strict_prefix_def prefix_def)
  then have len: "length (bm_data src) < 4 + ?n" using us length_frame [OF wf] by (cases us) auto
  have "take 4 (bm_data src) = put_u32 ?n" using arg_cong [OF us(1), of "take 4"] False wf by (simp add: frame_payload)
  then have "u32_from_be_bytes (take 4 (bm_data src)) = of_nat ?n" "\<not> of_nat ?n > MAX_MESSAGE_LEN"
    using put_u32_read [OF n] n by (simp_all add: word_less_nat_alt)
  then show ?thesis using len False put_u32_read [OF n] n
    by (intro exI [of _ "4 + ?n"]) (simp add: codec_decode_def Let_def)
qed

interpretation peer_frames: framed_codec frame_bytes "next_frame cap env" wf_message "\<lambda>(i, c). resources c = governed"
  "\<lambda>e. buffer_refusal e \<and> governed \<and> \<not> roomy env" for cap env governed
proof
  fix s :: "nat \<times> peer_codec" and m rest
  assume s: "(\<lambda>(i, c). resources c = governed) s" and m: "wf_message m"
  obtain i c g k where i: "s = (i, c)" "env i = (g, k)" by (metis prod.exhaust)
  show "\<exists>s'. next_frame cap env s (frame_bytes m @ rest) = (s', Inr (Some (m, rest))) \<and> (\<lambda>(i, c). resources c = governed) s'"
    using decode_frame [OF m, of "\<lparr>bm_data = frame_bytes m @ rest, bm_cap = k\<rparr>" rest cap g c] s i
    by (auto simp: next_frame_def)
next
  fix s :: "nat \<times> peer_codec" and buf m
  assume s: "(\<lambda>(i, c). resources c = governed) s" and b: "buf = [] \<or> wf_message m \<and> strict_prefix buf (frame_bytes m)"
  obtain i c g k where i: "s = (i, c)" "env i = (g, k)" by (metis prod.exhaust)
  let ?src = "\<lparr>bm_data = buf, bm_cap = k\<rparr>"
  obtain n where n: "n \<le> 4 + unat MAX_MESSAGE_LEN" "codec_decode cap g c ?src =
      (case reserve_capacity cap g c ?src n of
         (g', c', src', Inl e) \<Rightarrow> (g', c', src', Inl e) | (g', c', src', Inr _) \<Rightarrow> (g', c', src', Inr None))"
    using partial_frame [of ?src m cap g c] b by auto
  obtain g' c' src' r where r: "reserve_capacity cap g c ?src n = (g', c', src', r)" by (metis prod.exhaust)
  have "\<not> roomy env" if "\<not> has_room g (max k n)"
    using that has_room_mono [of g "max k (4 + unat MAX_MESSAGE_LEN)" "max k n"] n(1) i(2)
    unfolding roomy_def by (metis fst_conv max.mono order_refl snd_conv)
  then show "\<exists>s' r. next_frame cap env s buf = (s', r) \<and> (\<lambda>(i, c). resources c = governed) s' \<and>
      (r = Inr None \<or> (\<exists>e. r = Inl e \<and> buffer_refusal e \<and> governed \<and> \<not> roomy env))"
    using reserve_capacity_outcome [OF r] s i n(2) r by (auto simp: next_frame_def)
next
  fix m
  assume "wf_message m"
  then show "frame_bytes m \<noteq> []" using length_frame [of m] by auto
qed

interpretation peer_messages: canonical_codec payload message_parse wf_message "\<lambda>bs. length bs \<le> unat MAX_MESSAGE_LEN"
proof
  fix m
  assume "wf_message m"
  then show "message_parse (payload m) = Inr m" "length (payload m) \<le> unat MAX_MESSAGE_LEN"
    by (auto simp: wf_message_def parse_payload)
next
  fix bs m
  assume "length bs \<le> unat MAX_MESSAGE_LEN" "message_parse bs = Inr m"
  with payload_parse [of bs m] show "wf_message m \<and> payload m = bs" by (simp add: wf_message_def max_lens)
qed

subsection \<open>The handshake\<close>

definition wf_handshake :: "handshake \<Rightarrow> bool" where
  "wf_handshake h \<longleftrightarrow> length (hs_reserved h) = 8 \<and> length (hs_info_hash h) = 20 \<and> length (hs_peer_id h) = 20"

lemma PROTOCOL_length [simp]: "length PROTOCOL = 19"
  by (simp add: PROTOCOL_def ascii_def)

lemma handshake_encode_append:
  assumes "wf_handshake h"
  shows "handshake_encode h = [PROTOCOL_LEN] @ PROTOCOL @ hs_reserved h @ hs_info_hash h @ hs_peer_id h"
  using assms by (simp add: handshake_encode_def copy_at_def wf_handshake_def HANDSHAKE_LEN_def Let_def take_Cons' drop_Cons' numeral_eq_Suc)

lemma handshake_slices:
  assumes "length bs = 68"
  shows "bs = [bs ! 0] @ subslice bs 1 20 @ subslice bs 20 28 @ subslice bs 28 48 @ subslice bs 48 68"
proof -
  have "(((take 1 bs @ subslice bs 1 20) @ subslice bs 20 28) @ subslice bs 28 48) @ subslice bs 48 68 = take 68 bs"
    by (simp only: take_subslice)
  moreover have "take 1 bs = [bs ! 0]" using assms by (cases bs) simp_all
  ultimately show ?thesis using assms by simp
qed

interpretation handshakes: canonical_codec handshake_encode handshake_parse wf_handshake "\<lambda>bs. length bs = HANDSHAKE_LEN"
proof
  fix h
  assume wf: "wf_handshake h"
  show "handshake_parse (handshake_encode h) = Inr h"
    using wf by (simp add: handshake_encode_append [OF wf] handshake_parse_def subslice_def wf_handshake_def)
  show "length (handshake_encode h) = HANDSHAKE_LEN"
    using wf by (simp add: handshake_encode_append [OF wf] HANDSHAKE_LEN_def wf_handshake_def)
next
  fix bs h
  assume len: "length bs = HANDSHAKE_LEN" and p: "handshake_parse bs = Inr h"
  have wf: "wf_handshake h" using len p by (auto simp: handshake_parse_def wf_handshake_def HANDSHAKE_LEN_def split: if_splits)
  have "handshake_encode h = bs"
    using handshake_slices [of bs] len p
    by (simp add: handshake_encode_append [OF wf] HANDSHAKE_LEN_def) (auto simp: handshake_parse_def split: if_splits)
  with wf show "wf_handshake h \<and> handshake_encode h = bs" by simp
qed

subsection \<open>Charging the buffers\<close>

definition lease_entry :: "memory_lease \<Rightarrow> memory_class \<times> u64" where
  "lease_entry l = (lease_class l, lease_bytes l)"

definition held :: "peer_codec \<Rightarrow> (memory_class \<times> u64) multiset" where
  "held c = mset (map lease_entry (memory_leases c))"

definition reserved :: "peer_codec \<Rightarrow> nat" where
  "reserved c = unat (read_reserved_bytes c) + unat (write_reserved_bytes c)"

text \<open>The leases of a codec are peer-buffer leases of the bytes it has recorded as reserved.\<close>

definition codec_ok :: "peer_codec \<Rightarrow> bool" where
  "codec_ok c \<longleftrightarrow> class_leased PeerBuffer (held c) = reserved c"

lemma try_acquire_lease: "try_acquire g c b = (Some l, g') \<Longrightarrow> l = \<lparr>lease_class = c, lease_bytes = b\<rparr>"
  by (auto simp: try_acquire_def Let_def split: if_splits option.splits)

lemma codec_ok_new: "codec_ok with_resources" "held with_resources = {#}" "reserved with_resources = 0"
  by (simp_all add: codec_ok_def held_def reserved_def with_resources_def codec_default_def)

text \<open>What an operation of the codec does to the governor is a run of it that adds the new leases.\<close>

definition charges :: "governor \<Rightarrow> peer_codec \<Rightarrow> governor \<Rightarrow> peer_codec \<Rightarrow> bool" where
  "charges g c g' c' \<longleftrightarrow> (codec_ok c \<longrightarrow> codec_ok c') \<and>
     (\<forall>I L. run \<lparr>gov = g, inflight = I, leases = held c + L\<rparr> \<lparr>gov = g', inflight = I, leases = held c' + L\<rparr>)"

lemma charges_refl: "charges g c g c"
  by (simp add: charges_def)

lemma charges_denied: "try_acquire g cl b = (None, g') \<Longrightarrow> charges g c g' c"
  using run_try_acquire [of g cl b None g'] by (simp add: charges_def)

lemma charges_lease:
  assumes acq: "try_acquire g PeerBuffer b = (Some l, g')"
    and c': "memory_leases c' = memory_leases c @ [l]" "reserved c' = reserved c + unat b"
  shows "charges g c g' c'"
proof -
  have h: "held c' = add_mset (PeerBuffer, b) (held c)"
    using try_acquire_lease [OF acq] c' by (simp add: held_def lease_entry_def)
  show ?thesis
    unfolding charges_def
  proof (intro conjI allI impI)
    assume "codec_ok c"
    then show "codec_ok c'" using h c'(2) by (simp add: codec_ok_def)
  next
    fix I L
    show "run \<lparr>gov = g, inflight = I, leases = held c + L\<rparr> \<lparr>gov = g', inflight = I, leases = held c' + L\<rparr>"
      using run_try_acquire [OF acq, of I "held c + L"] try_acquire_lease [OF acq] h by simp
  qed
qed

lemma unat_minus_le: "b < (a :: u64) \<Longrightarrow> unat b + unat (a - b) = unat a"
  by (simp add: unat_sub order.strict_implies_order word_less_nat_alt)

lemma reserve_capacity_charges:
  assumes "reserve_capacity cap g c src n = (g', c', src', r)"
  shows "charges g c g' c'"
proof (cases "required_bytes (max (bm_cap src) n)")
  case (Some req)
  show ?thesis
  proof (cases "resources c \<and> req > read_reserved_bytes c")
    case True
    then have u: "unat (read_reserved_bytes c) + unat (req - read_reserved_bytes c) = unat req"
      by (intro unat_minus_le) simp
    show ?thesis using assms Some True u
      by (auto simp: reserve_capacity_def Let_def reserved_def split: prod.splits option.splits
          intro: charges_denied charges_lease)
  qed (use assms Some in \<open>auto simp: reserve_capacity_def Let_def charges_refl split: if_splits\<close>)
qed (use assms in \<open>auto simp: reserve_capacity_def Let_def charges_refl split: if_splits\<close>)

lemma reserve_write_capacity_charges:
  assumes "reserve_write_capacity cap g c dst n = (g', c', dst', r)"
  shows "charges g c g' c'"
proof (cases "required_bytes (max (bm_cap dst) n)")
  case (Some req)
  show ?thesis
  proof (cases "resources c \<and> req > write_reserved_bytes c")
    case True
    then have u: "unat (write_reserved_bytes c) + unat (req - write_reserved_bytes c) = unat req"
      by (intro unat_minus_le) simp
    show ?thesis using assms Some True u
      by (auto simp: reserve_write_capacity_def Let_def reserved_def split: prod.splits option.splits
          intro: charges_denied charges_lease)
  qed (use assms Some in \<open>auto simp: reserve_write_capacity_def Let_def charges_refl split: if_splits\<close>)
qed (use assms in \<open>auto simp: reserve_write_capacity_def Let_def charges_refl split: if_splits\<close>)

lemma codec_decode_charges:
  "codec_decode cap g c src = (g', c', src', r) \<Longrightarrow> charges g c g' c'"
  by (auto simp: codec_decode_def Let_def charges_refl split: if_splits prod.splits sum.splits
      dest: reserve_capacity_charges)

lemma codec_encode_charges:
  "codec_encode cap g c m dst = (g', c', dst', r) \<Longrightarrow> charges g c g' c'"
  by (auto simp: codec_encode_def charges_refl split: option.splits prod.splits sum.splits
      dest: reserve_write_capacity_charges)

subsection \<open>Many connections, one governor\<close>

text \<open>
  The connections of the engine share the governor with its other users. A closed connection's leases
  pass to the drop of the codec, which is a governor step like those of the others.
\<close>

definition all_held :: "peer_codec list \<Rightarrow> (memory_class \<times> u64) multiset" where
  "all_held cs = sum_list (map held cs)"

inductive connections :: "capacity_policy \<Rightarrow> governor_config \<Rightarrow> shared \<Rightarrow> peer_codec list \<Rightarrow> bool" for cap cfg where
  begin_: "connections cap cfg \<lparr>gov = governor_new cfg, inflight = {#}, leases = {#}\<rparr> []"
| others: "connections cap cfg s cs \<Longrightarrow> step s t \<Longrightarrow> all_held cs \<subseteq># leases t \<Longrightarrow> connections cap cfg t cs"
| connect: "connections cap cfg s cs \<Longrightarrow> connections cap cfg s (with_resources # cs)"
| close: "connections cap cfg s (xs @ c # ys) \<Longrightarrow> connections cap cfg s (xs @ ys)"
| readn: "connections cap cfg s (xs @ c # ys) \<Longrightarrow> codec_decode cap (gov s) c src = (g', c', src', r) \<Longrightarrow>
    connections cap cfg (s\<lparr>gov := g', leases := leases s - held c + held c'\<rparr>) (xs @ c' # ys)"
| wrote: "connections cap cfg s (xs @ c # ys) \<Longrightarrow> codec_encode cap (gov s) c m dst = (g', c', dst', r) \<Longrightarrow>
    connections cap cfg (s\<lparr>gov := g', leases := leases s - held c + held c'\<rparr>) (xs @ c' # ys)"

lemma run_accounted: "run s t \<Longrightarrow> accounted cfg s \<Longrightarrow> accounted cfg t"
  by (induction rule: rtranclp_induct) (auto intro: step_accounted)

lemma charges_accounted:
  assumes "charges (gov s) c g' c'" "accounted cfg s" "all_held (xs @ c # ys) \<subseteq># leases s"
  shows "accounted cfg (s\<lparr>gov := g', leases := leases s - held c + held c'\<rparr>)"
    "all_held (xs @ c' # ys) \<subseteq># leases s - held c + held c'"
proof -
  obtain L where L: "leases s = held c + (all_held xs + all_held ys + L)"
    using assms(3) by (auto simp: all_held_def subset_mset.le_iff_add ac_simps)
  then show "all_held (xs @ c' # ys) \<subseteq># leases s - held c + held c'"
    by (simp add: all_held_def subset_mset.le_iff_add ac_simps)
  obtain g I where s: "s = \<lparr>gov = g, inflight = I, leases = held c + (all_held xs + all_held ys + L)\<rparr>"
    using L by (cases s) simp
  have "run s (s\<lparr>gov := g', leases := held c' + (all_held xs + all_held ys + L)\<rparr>)"
    using assms(1) by (simp add: charges_def s)
  from run_accounted [OF this assms(2)] L
  show "accounted cfg (s\<lparr>gov := g', leases := leases s - held c + held c'\<rparr>)" by (simp add: ac_simps)
qed

lemma connections_accounted:
  "connections cap cfg s cs \<Longrightarrow> accounted cfg s \<and> all_held cs \<subseteq># leases s \<and> list_all codec_ok cs"
proof (induction rule: connections.induct)
  case begin_
  show ?case by (simp add: accounted_def governor_new_def all_held_def)
next
  case (others s cs t)
  then show ?case by (blast intro: step_accounted)
next
  case (connect s cs)
  then show ?case by (simp add: codec_ok_new all_held_def)
next
  case (close s xs c ys)
  then have "all_held (xs @ ys) \<subseteq># all_held (xs @ c # ys)" by (simp add: all_held_def)
  with close show ?case by (auto intro: subset_mset.order_trans)
next
  case (readn s xs c ys src g' c' src' r)
  note ch = codec_decode_charges [OF readn(2)]
  from charges_accounted [OF ch, of cfg xs ys] readn ch show ?case by (auto simp: charges_def)
next
  case (wrote s xs c ys m dst g' c' dst' r)
  note ch = codec_encode_charges [OF wrote(2)]
  from charges_accounted [OF ch, of cfg xs ys] wrote ch show ?case by (auto simp: charges_def)
qed

lemma class_leased_union: "class_leased c (A + B) = class_leased c A + class_leased c B"
  by (simp add: class_leased_def)

lemma class_leased_mono: "A \<subseteq># B \<Longrightarrow> class_leased c A \<le> class_leased c B"
  by (auto simp: subset_mset.le_iff_add class_leased_union)

lemma all_held_reserved: "list_all codec_ok cs \<Longrightarrow> class_leased PeerBuffer (all_held cs) = sum_list (map reserved cs)"
  by (induction cs) (auto simp: all_held_def class_leased_union codec_ok_def class_leased_def)

subsection \<open>What a buffered write has charged\<close>

lemma required_bytes_Some: "required_bytes n = Some req \<Longrightarrow> unat req = 2 * n"
  by (auto simp: required_bytes_def checked_mul_Some_iff unat_of_nat split: if_splits)

lemma reserve_write_capacity_Inr:
  assumes "reserve_write_capacity cap g c dst n = (g', c', dst', Inr ())" "resources c"
  shows "bm_data dst' = bm_data dst" "2 * max (bm_cap dst) n \<le> unat (write_reserved_bytes c')"
proof -
  show "bm_data dst' = bm_data dst"
    using assms by (auto simp: reserve_write_capacity_def Let_def bm_reserve_def split: if_splits option.splits prod.splits)
  obtain req where req: "required_bytes (max (bm_cap dst) n) = Some req" "req \<le> write_reserved_bytes c'"
    using assms by (auto simp: reserve_write_capacity_def Let_def not_less split: if_splits option.splits prod.splits)
  then show "2 * max (bm_cap dst) n \<le> unat (write_reserved_bytes c')"
    using required_bytes_Some [OF req(1)] by (simp add: word_le_nat_alt)
qed

lemma codec_encode_Inr:
  assumes "codec_encode cap g c m dst = (g', c', dst', Inr ())" "resources c" "wf_message m" "length (bm_data dst) \<le> bm_cap dst"
  shows "bm_data dst' = bm_data dst @ frame_bytes m" "length (bm_data dst') \<le> unat (write_reserved_bytes c')"
proof -
  note n = encoded_len_payload [OF assms(3)]
  obtain g1 d1 where r: "reserve_write_capacity cap g c dst (4 + length (payload m)) = (g1, c', d1, Inr ())"
    and d': "bm_data dst' = put_message m (bm_data d1)"
    using assms(1) n by (auto simp: codec_encode_def message_encode_into_def split: prod.splits sum.splits)
  note inr = reserve_write_capacity_Inr [OF r assms(2)]
  show eq: "bm_data dst' = bm_data dst @ frame_bytes m"
    using d' inr(1) assms(3) by (simp add: put_message_payload frame_payload)
  show "length (bm_data dst') \<le> unat (write_reserved_bytes c')"
    using inr(2) assms(4) by (simp add: eq length_frame [OF assms(3)] max_def split: if_splits)
qed

lemma reserve_write_capacity_Inl:
  "reserve_write_capacity cap g c dst n = (g', c', dst', Inl e) \<Longrightarrow>
     c' = c \<and> dst' = dst \<and> (e = PeerBufferLengthOverflow \<or> (\<exists>req. e = PeerBufferAllocationDenied req \<and>
       fst (try_acquire g PeerBuffer (req - write_reserved_bytes c)) = None))"
  by (auto simp: reserve_write_capacity_def Let_def split: if_splits option.splits prod.splits)

subsection \<open>Properties\<close>

text \<open>
  C4. The peer protocol as a stream, for a codec with or without a governor: a sender encodes any sequence of
  well-formed messages and the network delivers their bytes cut into pieces in any way; the receiving codec
  is called after each piece until no frame is complete, and other users of the governor may act between the
  calls. If no call fails, exactly those messages come out, in order, and no bytes are kept. A call fails
  only when a codec with a governor is refused the memory to buffer an incomplete frame, and never when the
  governor has room for twice a frame of the largest size, or the capacity of the buffer if that is more; the
  messages returned before the refusal are the first ones sent. No split of a frame is mistaken for an error.
\<close>

theorem peer_stream:
  assumes "list_all wf_message ms" "concat chunks = concat (map frame_bytes ms)"
    and "feed (next_frame cap env) (0, c) [] chunks = (s, got, r)"
  shows "case r of
      Inr rest \<Rightarrow> got = ms \<and> rest = []
    | Inl e \<Rightarrow> prefix got ms \<and> buffer_refusal e \<and> resources c \<and> \<not> roomy env"
  using peer_frames.feed_stream [OF assms(1,2) _ assms(3), of "resources c"] by simp

lemma frame_bytes_example:
  "frame_bytes (Have 7) = [0, 0, 0, 5, 4, 0, 0, 0, 7]" "frame_bytes KeepAlive = [0, 0, 0, 0]"
  by (simp_all add: frame_payload wf_message_def max_lens put_u32_def u32_to_be_bytes_def)

lemma default_roomy: "roomy (\<lambda>_. (governor_new default_config, 64))"
  by (simp add: roomy_def has_room_def governor_new_def default_config_def max_lens)

theorem peer_stream_witness:
  "snd (feed (next_frame (\<lambda>_ _. 64) (\<lambda>_. (governor_new default_config, 64))) (0, with_resources) []
      [[0, 0, 0], [5, 4, 0, 0], [0, 7, 0], [0, 0, 0]]) = ([Have 7, KeepAlive], Inr [])"
proof -
  let ?f = "feed (next_frame (\<lambda>_ _. 64) (\<lambda>_. (governor_new default_config, 64))) (0, with_resources) []
      [[0, 0, 0], [5, 4, 0, 0], [0, 7, 0], [0, 0, 0]]"
  obtain s got r where f: "?f = (s, got, r)" by (metis prod.exhaust)
  have "list_all wf_message [Have 7, KeepAlive]" by (simp add: wf_message_def max_lens)
  from peer_stream [OF this _ f] show ?thesis
    unfolding f using default_roomy by (cases r) (simp_all add: frame_bytes_example)
qed

text \<open>
  C29. The message format is canonical: a payload within the frame limit is accepted as a message exactly
  when that message is well-formed and its encoding is the length prefix followed by that payload, so
  every message has one encoding and every other payload is an error.
\<close>

theorem message_canonical:
  "length bs \<le> unat MAX_MESSAGE_LEN \<and> message_parse bs = Inr m \<longleftrightarrow>
     wf_message m \<and> message_encode m = Some (u32_to_be_bytes (of_nat (length bs)) @ bs)"
  using peer_messages.accepts_iff [of bs m] message_encode_payload [of m]
  by (auto simp: put_u32_def)

text \<open>
  C30. With any number of connections opening, reading, writing and closing, and any other users of the
  governor running in between, the bytes that the open connections have reserved for their read and
  write buffers together stay within the peer-buffer cap, and each connection holds leases for exactly
  what it has reserved.
\<close>

theorem peer_buffers_within_cap:
  assumes "connections cap cfg s cs"
  shows "sum_list (map reserved cs) \<le> unat (class_caps_bytes cfg PeerBuffer) \<and>
    list_all (\<lambda>c. class_leased PeerBuffer (held c) = reserved c) cs"
proof -
  have acc: "accounted cfg s" and sub: "all_held cs \<subseteq># leases s" and ok: "list_all codec_ok cs"
    using connections_accounted [OF assms] by simp_all
  have "sum_list (map reserved cs) \<le> class_leased PeerBuffer (leases s)"
    using class_leased_mono [OF sub, of PeerBuffer] all_held_reserved [OF ok] by simp
  also have "\<dots> \<le> unat (class_used (gov s) PeerBuffer)" using acc by (simp add: accounted_def)
  also have "\<dots> \<le> unat (class_caps_bytes cfg PeerBuffer)" using acc unfolding accounted_def word_le_nat_alt by blast
  finally show ?thesis using ok by (simp add: codec_ok_def [abs_def])
qed

definition first_read :: peer_codec where
  "first_read = \<lparr>resources = True, memory_leases = [\<lparr>lease_class = PeerBuffer, lease_bytes = 8\<rparr>],
     read_reserved_bytes = 8, write_reserved_bytes = 0\<rparr>"

lemma first_read_connections:
  "connections (\<lambda>_ _. 64) default_config
     \<lparr>gov = (governor_new default_config)\<lparr>class_used := (\<lambda>_. 0)(PeerBuffer := 8), total_used := 8\<rparr>,
      inflight = {#}, leases = {#(PeerBuffer, 8)#}\<rparr> [first_read, with_resources]"
proof -
  let ?s = "\<lparr>gov = governor_new default_config, inflight = {#}, leases = {#}\<rparr> :: shared"
  have "connections (\<lambda>_ _. 64) default_config ?s ([] @ with_resources # [with_resources])"
    using begin_ connect by fastforce
  moreover have "codec_decode (\<lambda>_ _. 64) (gov ?s) with_resources \<lparr>bm_data = [], bm_cap = 0\<rparr> =
     ((governor_new default_config)\<lparr>class_used := (\<lambda>_. 0)(PeerBuffer := 8), total_used := 8\<rparr>, first_read,
      \<lparr>bm_data = [], bm_cap = 64\<rparr>, Inr None)"
    by (simp add: codec_decode_def reserve_capacity_def with_resources_def codec_default_def required_bytes_def
        checked_mul_def try_acquire_def reserve_def checked_add_def governor_new_def default_config_def
        bm_reserve_def first_read_def Let_def)
  ultimately have "connections (\<lambda>_ _. 64) default_config
      (?s\<lparr>gov := (governor_new default_config)\<lparr>class_used := (\<lambda>_. 0)(PeerBuffer := 8), total_used := 8\<rparr>,
          leases := leases ?s - held with_resources + held first_read\<rparr>) ([] @ first_read # [with_resources])"
    by (rule readn)
  then show ?thesis by (simp add: codec_ok_new held_def first_read_def lease_entry_def)
qed

theorem peer_buffers_within_cap_witness:
  "sum_list (map reserved [first_read, with_resources]) \<le> unat (class_caps_bytes default_config PeerBuffer)"
  using peer_buffers_within_cap [OF first_read_connections] by simp

text \<open>
  C31. A successful write of the codec under a governor appends exactly the frame of the message, and the
  bytes then waiting in the write buffer are covered by what the codec has charged, also when earlier
  frames are still in the buffer. A refused write is one of the three documented errors and leaves the
  buffer and the codec as they were.
\<close>

theorem codec_encode_charged:
  assumes "codec_encode cap g c m dst = (g', c', dst', r)" "resources c" "wf_message m"
    "length (bm_data dst) \<le> bm_cap dst"
  shows "case r of
      Inr _ \<Rightarrow> bm_data dst' = bm_data dst @ frame_bytes m \<and> length (bm_data dst') \<le> unat (write_reserved_bytes c')
    | Inl e \<Rightarrow> dst' = dst \<and> c' = c \<and> (e = PeerBufferLengthOverflow \<or>
        (\<exists>req. e = PeerBufferAllocationDenied req \<and> fst (try_acquire g PeerBuffer (req - write_reserved_bytes c)) = None))"
proof (cases r)
  case (Inl e)
  then have "reserve_write_capacity cap g c dst (4 + length (payload m)) = (g', c', dst', Inl e)"
    using assms(1) encoded_len_payload [OF assms(3)]
    by (auto simp: codec_encode_def message_encode_into_def split: prod.splits sum.splits)
  from reserve_write_capacity_Inl [OF this] Inl show ?thesis by simp
next
  case (Inr u)
  then show ?thesis using codec_encode_Inr [OF _ assms(2-4)] assms(1) by simp
qed

theorem codec_encode_charged_witness:
  "\<exists>g' c' dst'. codec_encode (\<lambda>b _. bm_cap b + 64) (governor_new default_config) with_resources (Have 7)
      \<lparr>bm_data = [0, 0, 0, 0], bm_cap = 4\<rparr> = (g', c', dst', Inr ()) \<and>
    bm_data dst' = [0, 0, 0, 0, 0, 0, 0, 5, 4, 0, 0, 0, 7] \<and> 13 \<le> unat (write_reserved_bytes c')"
proof -
  let ?r = "codec_encode (\<lambda>b _. bm_cap b + 64) (governor_new default_config) with_resources (Have 7) \<lparr>bm_data = [0, 0, 0, 0], bm_cap = 4\<rparr>"
  have ok: "snd (snd (snd ?r)) = Inr ()"
    by (simp add: codec_encode_def reserve_write_capacity_def with_resources_def codec_default_def required_bytes_def
        checked_mul_def try_acquire_def reserve_def checked_add_def governor_new_def default_config_def
        bm_reserve_def Let_def encoded_len_def usize_checked_add_def max_lens message_encode_into_def)
  obtain g' c' dst' where r: "?r = (g', c', dst', Inr ())" using ok by (metis prod.exhaust_sel)
  from codec_encode_charged [OF r] show ?thesis
    using r by (auto simp: frame_bytes_example with_resources_def wf_message_def max_lens)
qed

text \<open>
  The 68-byte handshake is canonical: a buffer of that length is accepted exactly when it is the
  encoding of the handshake returned, whose reserved bytes, info hash and peer id have 8, 20 and 20
  bytes; and a handshake with the flags this client sends says that it supports the extension
  protocol, the Fast extension and version 2.
\<close>

theorem handshake_canonical:
  "(length bs = HANDSHAKE_LEN \<and> handshake_parse bs = Inr h \<longleftrightarrow> wf_handshake h \<and> handshake_encode h = bs) \<and>
   supports_extension_protocol with_v2_support \<and> supports_fast_extension with_v2_support \<and> supports_v2 with_v2_support \<and>
   supports_fast_extension with_extension_protocol_and_fast \<and> \<not> supports_v2 with_extension_protocol_and_fast"
proof (intro conjI)
  show "length bs = HANDSHAKE_LEN \<and> handshake_parse bs = Inr h \<longleftrightarrow> wf_handshake h \<and> handshake_encode h = bs"
    by (rule handshakes.accepts_iff)
qed code_simp+

end
