(* ===== verification/Peer_Extension.thy ===== *)
theory Peer_Extension
  imports Bencode_Laws Peer_Message "HOL-Library.AList"
begin

text \<open>
  The extension messages of \<open>crates/rt-peer-wire/src/extension.rs\<close> (BEP 10 and BEP 9): the extended
  handshake and the metadata exchange, bencoded dictionaries decoded with the limits of \<open>Bencode\<close>.
  A \<open>HashMap\<close> is an association list in the order of its iteration, which the code does not rely on.
\<close>

subsection \<open>Decoding an extension dictionary\<close>

definition EXT_HANDSHAKE_ID :: u8 where
  "EXT_HANDSHAKE_ID = 0"

definition UT_METADATA :: bytes where
  "UT_METADATA = ascii ''ut_metadata''"

definition UT_PEX :: bytes where
  "UT_PEX = ascii ''ut_pex''"

definition MAX_EXTENSION_BENCODE_NODES :: nat where
  "MAX_EXTENSION_BENCODE_NODES = 16 * 1024"

definition MAX_SCAN_DEPTH :: nat where
  "MAX_SCAN_DEPTH = 64"

text \<open>The messages of \<open>BencodeError\<close>, as they are put into an \<open>InvalidMessage\<close>.\<close>

fun bencode_error_msg :: "bencode_error \<Rightarrow> string" where
  "bencode_error_msg UnexpectedEof = ''unexpected end of input''"
| "bencode_error_msg (InvalidInteger s) = ''invalid integer: '' @ s"
| "bencode_error_msg (InvalidStringLength s) = ''invalid string length: '' @ s"
| "bencode_error_msg (StringTooLong len mx) = ''string too long: '' @ fmt_dec len @ '' > max '' @ fmt_dec mx"
| "bencode_error_msg (DepthExceeded n) = ''recursion depth exceeded: '' @ fmt_dec n"
| "bencode_error_msg (NodeLimitExceeded n mx) = ''node limit exceeded: '' @ fmt_dec n @ '' > max '' @ fmt_dec mx"
| "bencode_error_msg (AllocationBudgetExceeded n) = ''bencode allocation budget denied for '' @ fmt_dec n @ '' bytes''"
| "bencode_error_msg AllocationFailed = ''bencode allocation failed''"
| "bencode_error_msg UnsortedDictKeys = ''unsorted dictionary keys''"
| "bencode_error_msg (UnexpectedByte b off) = ''unexpected byte '' @ fmt_hex b @ '' at offset '' @ fmt_dec off"
| "bencode_error_msg TrailingData = ''trailing data after value''"

definition decode_extension_bencode :: "'q alloc_env \<Rightarrow> bytes \<Rightarrow> wire_error + bvalue" where
  "decode_extension_bencode env body =
     (case decoder_decode env (with_max_nodes MAX_EXTENSION_BENCODE_NODES (decoder_new body)) of
        Inl e \<Rightarrow> Inl (InvalidMessage (bencode_error_msg e))
      | Inr v \<Rightarrow> Inr v)"

definition dict_int :: "(bytes \<times> bvalue) list \<Rightarrow> bytes \<Rightarrow> int option" where
  "dict_int pairs key = Option.bind (find (\<lambda>(candidate, _). candidate = key) pairs) (\<lambda>(_, v). as_int v)"

definition u32_try_from_i64 :: "int \<Rightarrow> u32 option" where
  "u32_try_from_i64 n = (if 0 \<le> n \<and> n < 2 ^ 32 then Some (of_int n) else None)"

subsection \<open>The extended handshake\<close>

record extension_handshake =
  metadata_size :: "u32 option"
  extensions :: "(bytes \<times> u8) list"

definition ext_new :: "u32 option \<Rightarrow> extension_handshake" where
  "ext_new size_opt = \<lparr>metadata_size = size_opt, extensions = []\<rparr>"

definition with_ut_metadata :: "u8 \<Rightarrow> extension_handshake \<Rightarrow> extension_handshake" where
  "with_ut_metadata i h = h\<lparr>extensions := AList.update UT_METADATA i (extensions h)\<rparr>"

definition with_ut_pex :: "u8 \<Rightarrow> extension_handshake \<Rightarrow> extension_handshake" where
  "with_ut_pex i h = h\<lparr>extensions := AList.update UT_PEX i (extensions h)\<rparr>"

definition ut_metadata_id :: "extension_handshake \<Rightarrow> u8 option" where
  "ut_metadata_id h = map_of (extensions h) UT_METADATA"

definition ut_pex_id :: "extension_handshake \<Rightarrow> u8 option" where
  "ut_pex_id h = map_of (extensions h) UT_PEX"

definition ext_encode :: "extension_handshake \<Rightarrow> bytes" where
  "ext_encode h =
     (let extension_pairs = sort_key fst (map (\<lambda>(name, i). (name, BInt (uint i))) (extensions h));
          pairs = [(ascii ''m'', BDict extension_pairs)] @
            (case metadata_size h of None \<Rightarrow> [] | Some sz \<Rightarrow> [(ascii ''metadata_size'', BInt (uint sz))]) in
      encode (BDict (sort_key fst pairs)))"

definition ext_insert :: "bytes \<times> bvalue \<Rightarrow> (bytes \<times> u8) list \<Rightarrow> (bytes \<times> u8) list" where
  "ext_insert entry exts =
     (case entry of (name, v) \<Rightarrow>
      case as_int v of
        None \<Rightarrow> exts
      | Some i \<Rightarrow>
          if i \<le> 0 \<or> i > 255 then exts
          else if \<not> utf8_valid name then exts
          else AList.update name (of_int i) exts)"

definition ext_parse :: "'q alloc_env \<Rightarrow> bytes \<Rightarrow> wire_error + extension_handshake" where
  "ext_parse env body =
     (case decode_extension_bencode env body of
        Inl e \<Rightarrow> Inl e
      | Inr (BDict dict) \<Rightarrow>
          (let sz = (case dict_int dict (ascii ''metadata_size'') of
                       None \<Rightarrow> Inr None
                     | Some n \<Rightarrow> (case u32_try_from_i64 n of
                         None \<Rightarrow> Inl (InvalidMessage ''metadata_size out of range'')
                       | Some s \<Rightarrow> Inr (Some s)));
               exts = (case find (\<lambda>(k, _). k = ascii ''m'') dict of
                         Some (_, BDict pairs) \<Rightarrow> fold ext_insert pairs []
                       | _ \<Rightarrow> []) in
           case sz of Inl e \<Rightarrow> Inl e | Inr s \<Rightarrow> Inr \<lparr>metadata_size = s, extensions = exts\<rparr>)
      | Inr _ \<Rightarrow> Inl (InvalidMessage ''extension handshake must be a dict''))"

subsection \<open>Scanning the header of a metadata message\<close>

text \<open>
  The scanners return the position after what they read. The recursion through lists and dictionaries
  carries fuel; \<open>scan_fuel\<close> is shown to be enough for every payload.
\<close>

function scan_int :: "bytes \<Rightarrow> nat \<Rightarrow> string + nat" where
  "scan_int inp p =
     (if p < length inp then (if inp ! p = 0x65 then Inr (p + 1) else scan_int inp (p + 1))
      else Inl ''unterminated bencode int'')"
  by pat_completeness auto
termination
  by (relation "measure (\<lambda>(inp, p). length inp - p)") auto

function scan_bytes :: "bytes \<Rightarrow> nat \<Rightarrow> nat \<Rightarrow> string + nat" where
  "scan_bytes inp start p =
     (if p < length inp then
        (if inp ! p = 0x3A then
           let digits = subslice inp start p in
           if \<not> utf8_valid digits then Inl ''invalid bencode byte length''
           else case parse_usize digits of
                  Inl _ \<Rightarrow> Inl ''invalid bencode byte length''
                | Inr len \<Rightarrow>
                    if p + 1 + len > usize_max then Inl ''bencode byte length overflow''
                    else if p + 1 + len > length inp then Inl ''bencode byte string exceeds payload''
                    else Inr (p + 1 + len)
         else if \<not> is_ascii_digit (inp ! p) then Inl ''invalid bencode byte length''
         else scan_bytes inp start (p + 1))
      else Inl ''unterminated bencode byte length'')"
  by pat_completeness auto
termination
  by (relation "measure (\<lambda>(inp, start, p). length inp - p)") auto

declare scan_int.simps [simp del] scan_bytes.simps [simp del]

fun scan_value :: "nat \<Rightarrow> bytes \<Rightarrow> nat \<Rightarrow> nat \<Rightarrow> (string + nat) run"
  and scan_list :: "nat \<Rightarrow> bytes \<Rightarrow> nat \<Rightarrow> nat \<Rightarrow> (string + nat) run"
  and scan_dict :: "nat \<Rightarrow> bytes \<Rightarrow> nat \<Rightarrow> nat \<Rightarrow> (string + nat) run"
where
  "scan_value 0 inp p depth = OutOfFuel"
| "scan_value (Suc n) inp p depth =
     (if depth > MAX_SCAN_DEPTH then Ret (Inl ''bencode nesting too deep'')
      else if p \<ge> length inp then Ret (Inl ''empty bencode payload'')
      else let b = inp ! p in
        if b = 0x69 then Ret (scan_int inp (p + 1))
        else if b = 0x6C then scan_list n inp (p + 1) depth
        else if b = 0x64 then scan_dict n inp (p + 1) depth
        else if 0x30 \<le> b \<and> b \<le> 0x39 then Ret (scan_bytes inp p p)
        else Ret (Inl ''invalid bencode value''))"
| "scan_list 0 inp p depth = OutOfFuel"
| "scan_list (Suc n) inp p depth =
     (if p \<ge> length inp then Ret (Inl ''unterminated bencode list'')
      else if inp ! p = 0x65 then Ret (Inr (p + 1))
      else case scan_value n inp p (depth + 1) of
             Ret (Inr q) \<Rightarrow> scan_list n inp q depth
           | res \<Rightarrow> res)"
| "scan_dict 0 inp p depth = OutOfFuel"
| "scan_dict (Suc n) inp p depth =
     (if p \<ge> length inp then Ret (Inl ''unterminated bencode dict'')
      else let b = inp ! p in
        if b = 0x65 then Ret (Inr (p + 1))
        else if 0x30 \<le> b \<and> b \<le> 0x39 then
          (case scan_bytes inp p p of
             Inl e \<Rightarrow> Ret (Inl e)
           | Inr q \<Rightarrow> (case scan_value n inp q (depth + 1) of
                         Ret (Inr q') \<Rightarrow> scan_dict n inp q' depth
                       | res \<Rightarrow> res))
        else Ret (Inl ''invalid bencode dict key''))"

definition scan_fuel :: "bytes \<Rightarrow> nat" where
  "scan_fuel inp = 2 * length inp + 1"

definition bencode_value_len :: "bytes \<Rightarrow> (string + nat) run" where
  "bencode_value_len inp = scan_value (scan_fuel inp) inp 0 0"

subsection \<open>Metadata messages\<close>

datatype ut_metadata_message =
    UtRequest u32
  | UtData u32 u32 bytes
  | UtReject u32

definition metadata_header :: "int \<Rightarrow> u32 \<Rightarrow> u32 option \<Rightarrow> bytes" where
  "metadata_header msg_type piece tot =
     (let pairs = [(ascii ''msg_type'', BInt msg_type), (ascii ''piece'', BInt (uint piece))] @
            (case tot of None \<Rightarrow> [] | Some t \<Rightarrow> [(ascii ''total_size'', BInt (uint t))]) in
      encode (BDict (sort_key fst pairs)))"

fun ut_encode :: "ut_metadata_message \<Rightarrow> bytes" where
  "ut_encode (UtRequest piece) = metadata_header 0 piece None"
| "ut_encode (UtData piece tot body) = metadata_header 1 piece (Some tot) @ body"
| "ut_encode (UtReject piece) = metadata_header 2 piece None"

text \<open>The match on \<open>msg_type\<close>, with the fields read before it.\<close>

definition ut_message ::
    "int \<Rightarrow> u32 \<Rightarrow> (bytes \<times> bvalue) list \<Rightarrow> nat \<Rightarrow> bytes \<Rightarrow> wire_error + ut_metadata_message" where
  "ut_message msg_type piece pairs header_len body =
     (if msg_type = 0 then
        (if header_len \<noteq> length body then Inl (InvalidMessage ''ut_metadata request has trailing data'')
         else Inr (UtRequest piece))
      else if msg_type = 1 then
        (case dict_int pairs (ascii ''total_size'') of
           None \<Rightarrow> Inl (InvalidMessage ''ut_metadata total_size missing'')
         | Some t \<Rightarrow> (case u32_try_from_i64 t of
             None \<Rightarrow> Inl (InvalidMessage ''ut_metadata total_size out of range'')
           | Some tot \<Rightarrow> Inr (UtData piece tot (drop header_len body))))
      else if msg_type = 2 then
        (if header_len \<noteq> length body then Inl (InvalidMessage ''ut_metadata reject has trailing data'')
         else Inr (UtReject piece))
      else Inl (InvalidMessage (''unknown ut_metadata msg_type '' @ map (\<lambda>b. char_of (unat b)) (dec_int msg_type))))"

definition ut_parse :: "'q alloc_env \<Rightarrow> bytes \<Rightarrow> (wire_error + ut_metadata_message) run" where
  "ut_parse env body =
     (case bencode_value_len body of
        Ret (Inl e) \<Rightarrow> Ret (Inl (InvalidMessage e))
      | Ret (Inr header_len) \<Rightarrow> if header_len > length body then Panic else Ret
          (case decode_extension_bencode env (take header_len body) of
             Inl e \<Rightarrow> Inl e
           | Inr (BDict pairs) \<Rightarrow>
               (case dict_int pairs (ascii ''msg_type'') of
                  None \<Rightarrow> Inl (InvalidMessage ''ut_metadata msg_type missing'')
                | Some msg_type \<Rightarrow>
               (case dict_int pairs (ascii ''piece'') of
                  None \<Rightarrow> Inl (InvalidMessage ''ut_metadata piece missing'')
                | Some piece \<Rightarrow>
               (case u32_try_from_i64 piece of
                  None \<Rightarrow> Inl (InvalidMessage ''ut_metadata piece out of range'')
                | Some pc \<Rightarrow> ut_message msg_type pc pairs header_len body)))
           | Inr _ \<Rightarrow> Inl (InvalidMessage ''ut_metadata header must be a dict''))
      | Panic \<Rightarrow> Panic
      | OutOfFuel \<Rightarrow> OutOfFuel)"

subsection \<open>The scan ends and stays inside the payload\<close>

lemma scan_int_Inr: "scan_int inp p = Inr q \<Longrightarrow> p < q \<and> q \<le> length inp"
proof (induction inp p rule: scan_int.induct)
  case (1 inp p)
  then show ?case by (subst (asm) (2) scan_int.simps) (auto split: if_splits)
qed

lemma scan_bytes_Inr: "scan_bytes inp start p = Inr q \<Longrightarrow> p < q \<and> q \<le> length inp"
proof (induction inp start p rule: scan_bytes.induct)
  case (1 inp start p)
  then show ?case by (subst (asm) (2) scan_bytes.simps) (auto simp: Let_def split: if_splits sum.splits)
qed

definition good :: "bytes \<Rightarrow> nat \<Rightarrow> (string + nat) run \<Rightarrow> bool" where
  "good inp p r \<longleftrightarrow> (\<exists>e. r = Ret (Inl e)) \<or> (\<exists>q. r = Ret (Inr q) \<and> p < q \<and> q \<le> length inp)"

lemma good_later: "good inp q r \<Longrightarrow> p \<le> q \<Longrightarrow> good inp p r"
  by (auto simp: good_def)

lemma good_intros:
  "good inp p (Ret (Inl e))" "p < length inp \<Longrightarrow> good inp p (Ret (Inr (Suc p)))"
  "good inp p (Ret (scan_bytes inp p p))" "good inp p (Ret (scan_int inp p))"
  using scan_bytes_Inr [of inp p p] scan_int_Inr [of inp p]
  by (auto simp: good_def) (metis sum.exhaust)+

lemma scan_good:
  "(2 * (length inp - p) + 1 \<le> n \<longrightarrow> good inp p (scan_value n inp p depth)) \<and>
   (2 * (length inp - p) + 2 \<le> n \<longrightarrow> good inp p (scan_list n inp p depth) \<and> good inp p (scan_dict n inp p depth))"
proof (induction n arbitrary: p depth)
  case (Suc n)
  have val: "good inp p (scan_value (Suc n) inp p depth)" if n: "2 * (length inp - p) + 1 \<le> Suc n"
  proof -
    have i: "good inp p (Ret (scan_int inp (Suc p)))" by (rule good_later [OF good_intros(4)]) simp
    have l: "good inp p (scan_list n inp (Suc p) depth)" "good inp p (scan_dict n inp (Suc p) depth)" if "p < length inp"
      using Suc.IH [of "Suc p" depth] n that by (auto intro: good_later)
    show ?thesis using i l by (simp add: good_intros Let_def not_le)
  qed
  have more: "good inp p (case scan_value n inp p' (depth + 1) of Ret (Inr q) \<Rightarrow> f q | res \<Rightarrow> res)"
    if "2 * (length inp - p') + 1 \<le> n" "p \<le> p'" "\<And>q. p' < q \<Longrightarrow> q \<le> length inp \<Longrightarrow> good inp q (f q)" for p' f
  proof -
    have "good inp p' (scan_value n inp p' (depth + 1))" using Suc.IH [of p' "depth + 1"] that(1) by blast
    then show ?thesis using that(2) that(3) by (auto simp: good_def intro: good_later [unfolded good_def]) (smt (verit) less_trans le_less_trans)
  qed
  show ?case
  proof (intro conjI impI val)
    assume n: "2 * (length inp - p) + 2 \<le> Suc n"
    have rest: "good inp q (scan_list n inp q depth)" "good inp q (scan_dict n inp q depth)" if "p < q" "q \<le> length inp" for q
      using Suc.IH [of q depth] n that by auto
    show "good inp p (scan_list (Suc n) inp p depth)"
      using more [of p "\<lambda>q. scan_list n inp q depth"] rest n by (simp add: good_intros not_le)
    have "good inp p (case scan_bytes inp p p of Inl e \<Rightarrow> Ret (Inl e)
        | Inr q \<Rightarrow> (case scan_value n inp q (depth + 1) of Ret (Inr q') \<Rightarrow> scan_dict n inp q' depth | res \<Rightarrow> res))"
    proof (cases "scan_bytes inp p p")
      case (Inr q)
      have "2 * (length inp - q) + 1 \<le> n" using scan_bytes_Inr [OF Inr] n by linarith
      then show ?thesis using Inr scan_bytes_Inr [OF Inr] more [of q "\<lambda>q. scan_dict n inp q depth"] rest n by simp
    qed (simp add: good_intros)
    then show "good inp p (scan_dict (Suc n) inp p depth)" by (simp add: good_intros not_le Let_def)
  qed
qed simp

subsection \<open>The scan of an encoded value\<close>

lemma scan_int_run:
  "drop p inp = tok @ 0x65 # rest \<Longrightarrow> 0x65 \<notin> set tok \<Longrightarrow> scan_int inp p = Inr (p + length tok + 1)"
proof (induction tok arbitrary: p)
  case Nil
  then show ?case using drop_Cons_D [of p inp "0x65"] by (subst scan_int.simps) simp
next
  case (Cons b tok)
  then show ?case
    using drop_Cons_D [of p inp b "tok @ 0x65 # rest"] Cons.IH [of "Suc p"] by (subst scan_int.simps) auto
qed

lemma scan_digits_run:
  "drop p inp = ds @ 0x3A # rest \<Longrightarrow> list_all is_ascii_digit ds \<Longrightarrow>
     scan_bytes inp start p = scan_bytes inp start (p + length ds)"
proof (induction ds arbitrary: p)
  case (Cons b ds)
  then have "inp ! p \<noteq> 0x3A" "p < length inp" "is_ascii_digit (inp ! p)" "drop (Suc p) inp = ds @ 0x3A # rest"
    using drop_Cons_D [of p inp b "ds @ 0x3A # rest"] by (auto simp: is_ascii_digit_def)
  then show ?case using Cons.IH [of "Suc p"] Cons.prems by (subst scan_bytes.simps) simp
qed simp

lemma scan_bytes_run:
  assumes at: "drop p inp = bytes_enc s @ rest" and len: "length inp \<le> usize_max"
  shows "scan_bytes inp p p = Inr (p + length (bytes_enc s))"
proof -
  let ?k = "dec_nat (length s)"
  have fit: "p + length (bytes_enc s) \<le> length inp"
    using drop_append_length [OF at] by (simp add: bytes_enc_def)
  have at': "drop p inp = ?k @ 0x3A # s @ rest" using at by (simp add: bytes_enc_def)
  have colon: "p + length ?k < length inp" "inp ! (p + length ?k) = 0x3A"
    using drop_Cons_D [OF drop_append_D [OF at']] by auto
  have "subslice inp p (p + length ?k) = ?k" using at' by (simp add: subslice_def)
  moreover have "parse_usize ?k = Inr (length s)"
    using fit len by (intro parse_usize_dec_nat) (simp add: usize_max_def bytes_enc_def)
  ultimately show ?thesis
    using scan_digits_run [OF at' dec_nat_digits, of p] colon fit len utf8_valid_digits [OF dec_nat_digits [of "length s"]]
    by (simp add: scan_bytes.simps [of inp p "p + length ?k"]) (simp add: bytes_enc_def)
qed

definition scans :: "bytes \<Rightarrow> bvalue \<Rightarrow> bool" where
  "scans inp v \<longleftrightarrow> (\<forall>p rest n depth ms. drop p inp = benc v @ rest \<and> length (benc v) \<le> n \<and>
     fits MAX_SCAN_DEPTH ms True depth v \<longrightarrow> scan_value n inp p depth = Ret (Inr (p + length (benc v))))"

lemma scansD:
  "scans inp v \<Longrightarrow> drop p inp = benc v @ rest \<Longrightarrow> length (benc v) \<le> n \<Longrightarrow> fits MAX_SCAN_DEPTH ms True depth v \<Longrightarrow>
     scan_value n inp p depth = Ret (Inr (p + length (benc v)))"
  unfolding scans_def by blast

lemma scan_list_run:
  "(\<And>v. v \<in> set vs \<Longrightarrow> scans inp v) \<Longrightarrow> drop p inp = concat (map benc vs) @ 0x65 # rest \<Longrightarrow>
     list_all (fits MAX_SCAN_DEPTH ms True (depth + 1)) vs \<Longrightarrow> Suc (length (concat (map benc vs))) \<le> n \<Longrightarrow>
     scan_list n inp p depth = Ret (Inr (p + length (concat (map benc vs)) + 1))"
proof (induction vs arbitrary: p n)
  case Nil
  then obtain m where "n = Suc m" by (cases n) auto
  with Nil show ?case using drop_Cons_D [of p inp "0x65" rest] by simp
next
  case (Cons v vs)
  then obtain m where n: "n = Suc m" by (cases n) auto
  obtain b bs where b: "benc v = b # bs" "b \<noteq> 0x65" by (rule benc_head)
  have v: "drop p inp = benc v @ concat (map benc vs) @ 0x65 # rest" using Cons.prems(2) by simp
  have s: "scan_value m inp p (depth + 1) = Ret (Inr (p + length (benc v)))"
    by (rule scansD [OF _ v]) (use Cons.prems n in auto)
  have "scan_list m inp (p + length (benc v)) depth =
      Ret (Inr (p + length (benc v) + length (concat (map benc vs)) + 1))"
    by (rule Cons.IH) (use Cons.prems drop_append_D [OF v] n b in auto)
  then show ?case using drop_Cons_D [of p inp b] v b n s by (simp add: add.assoc)
qed

lemma scan_dict_run:
  "(\<And>k v. (k, v) \<in> set ps \<Longrightarrow> scans inp v) \<Longrightarrow> drop p inp = concat (map pair_enc ps) @ 0x65 # rest \<Longrightarrow>
     length inp \<le> usize_max \<Longrightarrow> list_all (\<lambda>(k, v). fits MAX_SCAN_DEPTH ms True (depth + 1) v) ps \<Longrightarrow>
     Suc (length (concat (map pair_enc ps))) \<le> n \<Longrightarrow>
     scan_dict n inp p depth = Ret (Inr (p + length (concat (map pair_enc ps)) + 1))"
proof (induction ps arbitrary: p n)
  case Nil
  then obtain m where "n = Suc m" by (cases n) auto
  with Nil show ?case using drop_Cons_D [of p inp "0x65" rest] by simp
next
  case (Cons kv ps)
  then obtain m where n: "n = Suc m" by (cases n) auto
  obtain k v where kv: "kv = (k, v)" by fastforce
  obtain b bs where b: "bytes_enc k = b # bs" "is_ascii_digit b" by (rule bytes_enc_head)
  have b': "b \<noteq> 0x65" "0x30 \<le> b" "b \<le> 0x39" using b(2) by (auto simp: is_ascii_digit_def)
  have k: "drop p inp = bytes_enc k @ benc v @ concat (map pair_enc ps) @ 0x65 # rest"
    using Cons.prems(2) kv by simp
  note v = drop_append_D [OF k]
  have t: "scan_value m inp (p + length (bytes_enc k)) (depth + 1) = Ret (Inr (p + length (bytes_enc k) + length (benc v)))"
    by (rule scansD [OF _ v]) (use Cons.prems n kv in auto)
  have "scan_dict m inp (p + length (bytes_enc k) + length (benc v)) depth =
      Ret (Inr (p + length (bytes_enc k) + length (benc v) + length (concat (map pair_enc ps)) + 1))"
    by (rule Cons.IH) (use Cons.prems drop_append_D [OF v] n b kv in auto)
  then show ?case using drop_Cons_D [of p inp b] k b(1) b' n scan_bytes_run [OF k Cons.prems(3)] t kv
    by (simp add: add.assoc)
qed

lemma scan_value_run:
  assumes "length inp \<le> usize_max"
  shows "scans inp v"
proof (induction v rule: benc.induct)
  case (1 s)
  show ?case unfolding scans_def
  proof (intro allI impI, elim conjE)
    fix p rest n depth ms
    assume at: "drop p inp = benc (BBytes s) @ rest" and n: "length (benc (BBytes s)) \<le> n"
      and f: "fits MAX_SCAN_DEPTH ms True depth (BBytes s)"
    obtain b bs where b: "bytes_enc s = b # bs" "is_ascii_digit b" by (rule bytes_enc_head)
    have b': "b \<noteq> 0x69" "b \<noteq> 0x6C" "b \<noteq> 0x64" "0x30 \<le> b" "b \<le> 0x39" using b(2) by (auto simp: is_ascii_digit_def)
    from n b obtain m where "n = Suc m" by (cases n) auto
    then show "scan_value n inp p depth = Ret (Inr (p + length (benc (BBytes s))))"
      using drop_Cons_D [of p inp b] at b(1) b' f scan_bytes_run [OF _ assms, of p s rest] by simp
  qed
next
  case (2 k)
  show ?case unfolding scans_def
  proof (intro allI impI, elim conjE)
    fix p rest n depth ms
    assume at: "drop p inp = benc (BInt k) @ rest" and n: "length (benc (BInt k)) \<le> n"
      and f: "fits MAX_SCAN_DEPTH ms True depth (BInt k)"
    then obtain m where "n = Suc m" by (cases n) (auto simp: int_enc_def)
    moreover have t: "drop (p + 1) inp = dec_int k @ 0x65 # rest"
      using at drop_append_D [of p inp "[0x69]"] by (simp add: int_enc_def)
    ultimately show "scan_value n inp p depth = Ret (Inr (p + length (benc (BInt k))))"
      using drop_Cons_D [of p inp "0x69"] at f scan_int_run [OF t dec_int_no_e] by (simp add: int_enc_def)
  qed
next
  case (3 vs)
  show ?case unfolding scans_def
  proof (intro allI impI, elim conjE)
    fix p rest n depth ms
    assume at: "drop p inp = benc (BList vs) @ rest" and n: "length (benc (BList vs)) \<le> n"
      and f: "fits MAX_SCAN_DEPTH ms True depth (BList vs)"
    then obtain m where m: "n = Suc m" by (cases n) auto
    have t: "drop (p + 1) inp = concat (map benc vs) @ 0x65 # rest"
      using at drop_append_D [of p inp "[0x6C]"] by simp
    then show "scan_value n inp p depth = Ret (Inr (p + length (benc (BList vs))))"
      using scan_list_run [OF 3 t, of ms depth m] drop_Cons_D [of p inp "0x6C"] at m n f by simp
  qed
next
  case (4 ps)
  show ?case unfolding scans_def
  proof (intro allI impI, elim conjE)
    fix p rest n depth ms
    assume at: "drop p inp = benc (BDict ps) @ rest" and n: "length (benc (BDict ps)) \<le> n"
      and f: "fits MAX_SCAN_DEPTH ms True depth (BDict ps)"
    then obtain m where m: "n = Suc m" by (cases n) auto
    have t: "drop (p + 1) inp = concat (map pair_enc ps) @ 0x65 # rest"
      using at drop_append_D [of p inp "[0x64]"] by simp
    have "\<And>k v. (k, v) \<in> set ps \<Longrightarrow> scans inp v" using 4 by auto
    moreover have "list_all (\<lambda>(k, v). fits MAX_SCAN_DEPTH ms True (depth + 1) v) ps"
      using f by (auto simp: list_all_iff)
    ultimately show "scan_value n inp p depth = Ret (Inr (p + length (benc (BDict ps))))"
      using scan_dict_run [OF _ t assms, of ms depth m] drop_Cons_D [of p inp "0x64"] at m n f by simp
  qed
qed

lemma bencode_value_len_run:
  assumes "length (encode v @ rest) < 2 ^ 64" "fits MAX_SCAN_DEPTH ms True 0 v"
  shows "bencode_value_len (encode v @ rest) = Ret (Inr (length (encode v)))"
proof -
  have "length (encode v @ rest) \<le> usize_max" using assms(1) by (simp add: usize_max_def)
  from scansD [OF scan_value_run [OF this], of 0 v rest _ ms 0] assms(2) show ?thesis
    by (simp add: bencode_value_len_def scan_fuel_def encode_benc del: scan_value.simps)
qed

subsection \<open>Decoding what was encoded\<close>

lemma decode_extension_encode:
  assumes "alloc_ok (2 * MAX_EXTENSION_BENCODE_NODES) (always env)" "node_count v \<le> MAX_EXTENSION_BENCODE_NODES"
    "fits DEFAULT_MAX_DEPTH DEFAULT_MAX_STRING True 0 v" "length (encode v) < 2 ^ 64"
  shows "decode_extension_bencode env (encode v) = Inr v"
proof -
  let ?d = "with_max_nodes MAX_EXTENSION_BENCODE_NODES (decoder_new (encode v))"
  have "reads_back (always env) (2 * MAX_EXTENSION_BENCODE_NODES) v"
    by (rule decode_value_run [OF assms(1)]) (simp add: MAX_EXTENSION_BENCODE_NODES_def)
  then obtain r' where "decode_value (always env) 0 ?d () = Inr (v, moved ?d (length (benc v)) (node_count v), r')"
    by (rule reads_backD [of _ _ _ ?d "[]" 0 "()"])
      (use assms in \<open>auto simp: decoder_new_def with_max_nodes_def encode_benc usize_max_def\<close>)
  then show ?thesis
    by (simp add: decode_extension_bencode_def decoder_decode_def decoder_decode_with_allocation_reservation_def
        decoder_new_def with_max_nodes_def encode_benc)
qed

lemma i64_range_uint [simp]: "i64_range (uint (w :: u32))" "i64_range (uint (b :: u8))"
  using uint_bounded [of w] uint_bounded [of b] uint_nonnegative [of w] uint_nonnegative [of b]
  by (auto simp: i64_range_def intro: order_trans [OF _ uint_nonnegative])

lemma u32_try_from_uint [simp]: "u32_try_from_i64 (uint w) = Some w"
  using uint_bounded [of w] by (simp add: u32_try_from_i64_def)

lemma header_keys:
  "ascii ''msg_type'' < ascii ''piece''" "ascii ''piece'' < ascii ''total_size''" "ascii ''msg_type'' < ascii ''total_size''"
  "ascii ''m'' < ascii ''metadata_size''"
  by code_simp+

lemmas header_neq = header_keys [THEN less_imp_neq] header_keys [THEN less_imp_neq, symmetric]

definition header_pairs :: "int \<Rightarrow> u32 \<Rightarrow> u32 option \<Rightarrow> (bytes \<times> bvalue) list" where
  "header_pairs t p tot = [(ascii ''msg_type'', BInt t), (ascii ''piece'', BInt (uint p))] @
     (case tot of None \<Rightarrow> [] | Some n \<Rightarrow> [(ascii ''total_size'', BInt (uint n))])"

lemma metadata_header_pairs: "metadata_header t p tot = encode (BDict (header_pairs t p tot))"
  using header_keys by (cases tot) (simp_all add: metadata_header_def header_pairs_def order.strict_implies_order)

lemma header_pairs_fit:
  assumes "i64_range t"
  shows "fits DEFAULT_MAX_DEPTH DEFAULT_MAX_STRING True 0 (BDict (header_pairs t p tot))"
    "node_count (BDict (header_pairs t p tot)) \<le> 4"
  using assms header_keys
  by (cases tot; simp add: header_pairs_def DEFAULT_MAX_DEPTH_def DEFAULT_MAX_STRING_def ascii_def)+

lemma ut_parse_header:
  assumes env: "alloc_ok (2 * MAX_EXTENSION_BENCODE_NODES) (always env)" and t: "i64_range t"
    and len: "length (metadata_header t p tot @ body) < 2 ^ 64"
  shows "ut_parse env (metadata_header t p tot @ body) =
    Ret (ut_message t p (header_pairs t p tot) (length (metadata_header t p tot)) (metadata_header t p tot @ body))"
proof -
  let ?h = "metadata_header t p tot" and ?v = "BDict (header_pairs t p tot)"
  have "bencode_value_len (?h @ body) = Ret (Inr (length ?h))"
    using bencode_value_len_run [of ?v body DEFAULT_MAX_STRING] header_pairs_fit(1) [OF t, of p tot] len
    by (simp add: metadata_header_pairs MAX_SCAN_DEPTH_def DEFAULT_MAX_DEPTH_def)
  moreover have "decode_extension_bencode env ?h = Inr ?v"
    unfolding metadata_header_pairs
    by (rule decode_extension_encode [OF env _ header_pairs_fit(1) [OF t]])
      (use header_pairs_fit(2) [OF t, of p tot] len in \<open>simp_all add: MAX_EXTENSION_BENCODE_NODES_def metadata_header_pairs\<close>)
  moreover have "dict_int (header_pairs t p tot) (ascii ''msg_type'') = Some t"
    "dict_int (header_pairs t p tot) (ascii ''piece'') = Some (uint p)"
    using header_neq by (simp_all add: dict_int_def header_pairs_def as_int_def)
  ultimately show ?thesis by (simp add: ut_parse_def)
qed

lemma ut_message_data:
  "ut_message 1 p (header_pairs 1 p (Some n)) k body = Inr (UtData p n (drop k body))"
  using header_neq by (simp add: ut_message_def dict_int_def header_pairs_def as_int_def)

subsection \<open>The extension table\<close>

definition wf_extension :: "extension_handshake \<Rightarrow> bool" where
  "wf_extension h \<longleftrightarrow> distinct (map fst (extensions h)) \<and> length (extensions h) + 3 \<le> MAX_EXTENSION_BENCODE_NODES \<and>
     list_all (\<lambda>(name, i). i \<noteq> 0 \<and> utf8_valid name \<and> length name \<le> DEFAULT_MAX_STRING) (extensions h) \<and>
     length (ext_encode h) < 2 ^ 64"

definition ext_pairs :: "(bytes \<times> u8) list \<Rightarrow> (bytes \<times> bvalue) list" where
  "ext_pairs exts = sort_key fst (map (\<lambda>(name, i). (name, BInt (uint i))) exts)"

lemma sorted_distinct_strict: "distinct (map fst ps) \<Longrightarrow> sorted_wrt (<) (map fst (sort_key fst ps))"
  for ps :: "('a :: linorder \<times> 'b) list"
  by (simp add: strict_sorted_iff distinct_map)

abbreviation int_entry :: "bytes \<times> u8 \<Rightarrow> bytes \<times> bvalue" where
  "int_entry \<equiv> \<lambda>(name, i). (name, BInt (uint i))"

lemma insort_int_entry: "insort_key fst (int_entry x) (map int_entry xs) = map int_entry (insort_key fst x xs)"
  by (induction xs) (auto split: prod.splits)

lemma ext_pairs_sorted: "ext_pairs exts = map int_entry (sort_key fst exts)"
  unfolding ext_pairs_def by (induction exts) (simp_all add: insort_int_entry del: case_prod_beta)

lemma fold_ext_insert:
  "list_all (\<lambda>(name, i). i \<noteq> 0 \<and> utf8_valid name) qs \<Longrightarrow>
     map_of (fold ext_insert (map int_entry qs) m) = map_of m ++ map_of (rev qs)"
proof (induction qs arbitrary: m)
  case (Cons q qs)
  obtain name i where q: "q = (name, i)" by fastforce
  have "0 < uint i" "uint i < 256" using Cons.prems uint_bounded [of i] uint_nonnegative [of i] q
    by (auto simp: order.strict_iff_order uint_0_iff)
  then have "ext_insert (int_entry q) m = AList.update name i m"
    using Cons.prems q by (simp add: ext_insert_def as_int_def)
  then show ?case using Cons q by (simp add: update_conv' map_add_assoc [symmetric]) 
qed simp

lemma map_of_sort: "distinct (map fst xs) \<Longrightarrow> map_of (rev (sort_key fst xs)) = map_of xs"
  for xs :: "('a :: linorder \<times> 'b) list"
  by (subst map_of_inject_set) (simp_all add: distinct_map flip: rev_map)

lemma ext_encode_pairs:
  "ext_encode h = encode (BDict ([(ascii ''m'', BDict (ext_pairs (extensions h)))] @
     (case metadata_size h of None \<Rightarrow> [] | Some sz \<Rightarrow> [(ascii ''metadata_size'', BInt (uint sz))])))"
  using header_keys(4) by (cases "metadata_size h") (simp_all add: ext_encode_def ext_pairs_def order.strict_implies_order)

lemma ext_pairs_fit:
  assumes "wf_extension h"
  shows "sorted_wrt (<) (map fst (ext_pairs (extensions h)))"
    "list_all (\<lambda>(k, v). length k \<le> DEFAULT_MAX_STRING \<and> fits DEFAULT_MAX_DEPTH DEFAULT_MAX_STRING True 2 v) (ext_pairs (extensions h))"
    "sum_list (map (\<lambda>(k, v). node_count v) (ext_pairs (extensions h))) = length (extensions h)"
proof -
  show "sorted_wrt (<) (map fst (ext_pairs (extensions h)))"
    unfolding ext_pairs_def using assms by (intro sorted_distinct_strict) (simp add: wf_extension_def comp_def case_prod_unfold)
  show "list_all (\<lambda>(k, v). length k \<le> DEFAULT_MAX_STRING \<and> fits DEFAULT_MAX_DEPTH DEFAULT_MAX_STRING True 2 v) (ext_pairs (extensions h))"
    using assms by (fastforce simp: ext_pairs_sorted list_all_iff wf_extension_def DEFAULT_MAX_DEPTH_def)
  have "map (\<lambda>(k, v). node_count v) (ext_pairs (extensions h)) = replicate (length (extensions h)) 1"
    by (auto simp: ext_pairs_sorted comp_def case_prod_unfold intro!: nth_equalityI)
  then show "sum_list (map (\<lambda>(k, v). node_count v) (ext_pairs (extensions h))) = length (extensions h)"
    by (simp add: sum_list_replicate)
qed

lemma ext_parse_encode:
  assumes env: "alloc_ok (2 * MAX_EXTENSION_BENCODE_NODES) (always env)" and wf: "wf_extension h"
  shows "ext_parse env (ext_encode h) =
    Inr \<lparr>metadata_size = metadata_size h, extensions = fold ext_insert (ext_pairs (extensions h)) []\<rparr>"
proof -
  let ?ps = "[(ascii ''m'', BDict (ext_pairs (extensions h)))] @
     (case metadata_size h of None \<Rightarrow> [] | Some sz \<Rightarrow> [(ascii ''metadata_size'', BInt (uint sz))])"
  have "decode_extension_bencode env (encode (BDict ?ps)) = Inr (BDict ?ps)"
  proof (rule decode_extension_encode [OF env])
    show "node_count (BDict ?ps) \<le> MAX_EXTENSION_BENCODE_NODES"
      using wf ext_pairs_fit(3) [OF wf] by (cases "metadata_size h") (simp_all add: wf_extension_def)
    show "fits DEFAULT_MAX_DEPTH DEFAULT_MAX_STRING True 0 (BDict ?ps)"
      using ext_pairs_fit(1,2) [OF wf] header_keys(4)
      by (cases "metadata_size h") (simp_all add: DEFAULT_MAX_DEPTH_def DEFAULT_MAX_STRING_def ascii_def numeral_2_eq_2)
    show "length (encode (BDict ?ps)) < 2 ^ 64" using wf by (simp add: wf_extension_def ext_encode_pairs)
  qed
  then show ?thesis using header_neq
    by (cases "metadata_size h") (simp_all add: ext_parse_def ext_encode_pairs dict_int_def as_int_def Let_def)
qed

subsection \<open>Properties\<close>

text \<open>
  C32. Scanning and parsing a metadata message ends on every payload a peer can send, however deep or
  malformed: the scan of the header returns an error or a position after the start and within the
  payload, so taking the header and the data after it never panics.
\<close>

theorem metadata_parse_total:
  "(\<exists>r. ut_parse env body = Ret r) \<and>
   (case bencode_value_len body of Ret (Inl e) \<Rightarrow> True | Ret (Inr n) \<Rightarrow> 0 < n \<and> n \<le> length body | _ \<Rightarrow> False)"
  using scan_good [of body 0 "scan_fuel body" 0]
  by (auto simp: ut_parse_def bencode_value_len_def scan_fuel_def good_def simp del: scan_value.simps)

text \<open>
  C33. Every metadata message is read back as it was sent, with the data that follows the header
  separated from it exactly, whatever bytes the data holds.
\<close>

theorem metadata_roundtrip:
  assumes "alloc_ok (2 * MAX_EXTENSION_BENCODE_NODES) (always env)" "length (ut_encode m) < 2 ^ 64"
  shows "ut_parse env (ut_encode m) = Ret (Inr m)"
proof (cases m)
  case (UtRequest p)
  then show ?thesis using ut_parse_header [OF assms(1), of 0 p None "[]"] assms(2)
    by (simp add: ut_message_def i64_range_def)
next
  case (UtData p n body)
  then show ?thesis using ut_parse_header [OF assms(1), of 1 p "Some n" body] assms(2)
    by (simp add: ut_message_data i64_range_def)
next
  case (UtReject p)
  then show ?thesis using ut_parse_header [OF assms(1), of 2 p None "[]"] assms(2)
    by (simp add: ut_message_def i64_range_def)
qed

lemma ut_data_example:
  "ut_encode (UtData 1 9 [0x64, 0x65]) = ascii ''d8:msg_typei1e5:piecei1e10:total_sizei9ee'' @ [0x64, 0x65]"
  by (simp add: metadata_header_pairs header_pairs_def encode_benc bytes_enc_def int_enc_def dec_int_def
      dec_nat.simps digit_chr_def ascii_def)

theorem metadata_roundtrip_witness:
  "ut_parse exact_env (ascii ''d8:msg_typei1e5:piecei1e10:total_sizei9ee'' @ [0x64, 0x65]) =
     Ret (Inr (UtData 1 9 [0x64, 0x65]))"
  using metadata_roundtrip [OF exact_env_ok, of "UtData 1 9 [0x64, 0x65]"]
  unfolding ut_data_example by (simp add: ascii_def)

text \<open>
  An extended handshake with distinct non-zero ids and UTF-8 names is read back with the same
  metadata size and the same table of extensions, in whatever order the table was iterated.
\<close>

theorem extension_handshake_roundtrip:
  assumes "alloc_ok (2 * MAX_EXTENSION_BENCODE_NODES) (always env)" "wf_extension h"
  shows "\<exists>h'. ext_parse env (ext_encode h) = Inr h' \<and> metadata_size h' = metadata_size h \<and>
    map_of (extensions h') = map_of (extensions h)"
proof -
  have "list_all (\<lambda>(name, i). i \<noteq> 0 \<and> utf8_valid name) (sort_key fst (extensions h))"
    using assms(2) by (auto simp: wf_extension_def list_all_iff)
  then have "map_of (fold ext_insert (ext_pairs (extensions h)) []) = map_of (extensions h)"
    using assms(2) by (simp add: ext_pairs_sorted fold_ext_insert map_of_sort wf_extension_def)
  then show ?thesis using ext_parse_encode [OF assms] by simp
qed

lemma ext_example:
  "ext_encode (with_ut_pex 1 (with_ut_metadata 2 (ext_new (Some 9)))) =
     ascii ''d1:md11:ut_metadatai2e6:ut_pexi1ee13:metadata_sizei9ee''"
  by (simp add: ext_encode_pairs ext_pairs_def with_ut_pex_def with_ut_metadata_def ext_new_def UT_PEX_def UT_METADATA_def
      encode_benc bytes_enc_def int_enc_def dec_int_def dec_nat.simps digit_chr_def ascii_def)

theorem extension_handshake_roundtrip_witness:
  "\<exists>h'. ext_parse exact_env (ascii ''d1:md11:ut_metadatai2e6:ut_pexi1ee13:metadata_sizei9ee'') = Inr h' \<and>
    metadata_size h' = Some 9 \<and> ut_metadata_id h' = Some 2 \<and> ut_pex_id h' = Some 1"
proof -
  let ?h = "with_ut_pex 1 (with_ut_metadata 2 (ext_new (Some 9)))"
  have "wf_extension ?h"
    by (simp add: wf_extension_def ext_example)
      (simp add: with_ut_pex_def with_ut_metadata_def ext_new_def UT_PEX_def UT_METADATA_def ascii_def
        MAX_EXTENSION_BENCODE_NODES_def DEFAULT_MAX_STRING_def)
  from extension_handshake_roundtrip [OF exact_env_ok this] show ?thesis
    unfolding ext_example
    by (auto simp: ut_metadata_id_def ut_pex_id_def with_ut_pex_def with_ut_metadata_def ext_new_def UT_PEX_def
        UT_METADATA_def ascii_def)
qed

end
