(* ===== verification/Availability.thy ===== *)
theory Availability
  imports TNG_Prelude "HOL-Library.Product_Lexorder"
begin

text \<open>
  Piece availability of \<open>crates/rt-piece-picker/src/availability.rs\<close>: how many peers have each piece,
  with the pieces kept in buckets by that count so that the rarest wanted piece is found by a walk
  over the buckets. A \<open>BTreeSet\<close> is the increasing list of its elements, which is what iterating
  over it gives.
\<close>

subsection \<open>State and operations\<close>

record availability =
  counts :: "u32 list"
  buckets :: "u32 list list"
  retired :: "bool list"

definition availability_new :: "nat \<Rightarrow> availability" where
  "availability_new piece_count =
     \<lparr>counts = replicate piece_count 0, buckets = [], retired = replicate piece_count False\<rparr>"

definition get_or :: "'a \<Rightarrow> 'a list \<Rightarrow> nat \<Rightarrow> 'a" where
  "get_or d xs i = (if i < length xs then xs ! i else d)"

definition bucket_insert :: "u32 list list \<Rightarrow> u32 \<Rightarrow> u32 \<Rightarrow> u32 list list" where
  "bucket_insert bs cnt piece =
     (if cnt = 0 then bs
      else let idx = unat cnt;
               bs' = (if idx \<ge> length bs then bs @ replicate (idx + 1 - length bs) [] else bs) in
           bs'[idx := insort_insert piece (bs' ! idx)])"

definition bucket_remove :: "u32 list list \<Rightarrow> u32 \<Rightarrow> u32 \<Rightarrow> u32 list list" where
  "bucket_remove bs cnt piece =
     (if cnt = 0 then bs
      else if unat cnt < length bs then bs[unat cnt := removeAll piece (bs ! unat cnt)] else bs)"

definition add_have :: "availability \<Rightarrow> nat \<Rightarrow> availability" where
  "add_have a piece =
     (if piece \<ge> length (counts a) then a
      else let old = counts a ! piece; new = saturating_add old 1; a1 = a\<lparr>counts := (counts a)[piece := new]\<rparr> in
      if new \<noteq> old \<and> \<not> get_or False (retired a1) piece
      then a1\<lparr>buckets := bucket_insert (bucket_remove (buckets a1) old (of_nat piece)) new (of_nat piece)\<rparr>
      else a1)"

definition remove_have :: "availability \<Rightarrow> nat \<Rightarrow> availability" where
  "remove_have a piece =
     (if piece \<ge> length (counts a) then a
      else let old = counts a ! piece; new = saturating_sub old 1; a1 = a\<lparr>counts := (counts a)[piece := new]\<rparr> in
      if new \<noteq> old \<and> \<not> get_or False (retired a1) piece
      then a1\<lparr>buckets := bucket_insert (bucket_remove (buckets a1) old (of_nat piece)) new (of_nat piece)\<rparr>
      else a1)"

text \<open>The loop over the bits of one byte, most significant first; it stops at the last piece.\<close>

fun bit_loop :: "(availability \<Rightarrow> nat \<Rightarrow> availability) \<Rightarrow> nat \<Rightarrow> u8 \<Rightarrow> nat list \<Rightarrow> availability \<Rightarrow> availability" where
  "bit_loop f byte_idx byte [] a = a"
| "bit_loop f byte_idx byte (b # bs) a =
     (let piece = byte_idx * 8 + b in
      if piece \<ge> length (counts a) then a
      else bit_loop f byte_idx byte bs (if and byte (drop_bit b 0x80) \<noteq> 0 then f a piece else a))"

definition add_bitfield :: "availability \<Rightarrow> bytes \<Rightarrow> availability" where
  "add_bitfield a bitfield = fold (\<lambda>(i, byte) a. bit_loop add_have i byte [0..<8] a) (enumerate 0 bitfield) a"

definition remove_bitfield :: "availability \<Rightarrow> bytes \<Rightarrow> availability" where
  "remove_bitfield a bitfield = fold (\<lambda>(i, byte) a. bit_loop remove_have i byte [0..<8] a) (enumerate 0 bitfield) a"

definition count :: "availability \<Rightarrow> nat \<Rightarrow> u32" where
  "count a piece = get_or 0 (counts a) piece"

definition rarest_first :: "availability \<Rightarrow> bool list \<Rightarrow> nat list" where
  "rarest_first a want = filter (get_or False want) (map unat (concat (drop 1 (buckets a))))"

text \<open>The two nested loops of \<open>rarest_matching\<close>: over the buckets, and over the pieces of one.\<close>

fun bucket_scan :: "(nat \<Rightarrow> bool) \<Rightarrow> u32 list \<Rightarrow> nat option" where
  "bucket_scan predicate [] = None"
| "bucket_scan predicate (p # ps) = (if predicate (unat p) then Some (unat p) else bucket_scan predicate ps)"

fun buckets_scan :: "(nat \<Rightarrow> bool) \<Rightarrow> u32 list list \<Rightarrow> nat option" where
  "buckets_scan predicate [] = None"
| "buckets_scan predicate (b # bs) =
     (case bucket_scan predicate b of Some p \<Rightarrow> Some p | None \<Rightarrow> buckets_scan predicate bs)"

definition rarest_matching :: "availability \<Rightarrow> (nat \<Rightarrow> bool) \<Rightarrow> nat option" where
  "rarest_matching a predicate = buckets_scan predicate (drop 1 (buckets a))"

definition retire :: "availability \<Rightarrow> nat \<Rightarrow> availability" where
  "retire a piece =
     (if piece \<ge> length (retired a) then a
      else if retired a ! piece then a
      else let a1 = a\<lparr>retired := (retired a)[piece := True]\<rparr> in
        a1\<lparr>buckets := bucket_remove (buckets a1) (count a1 piece) (of_nat piece)\<rparr>)"

definition reinstate :: "availability \<Rightarrow> nat \<Rightarrow> availability" where
  "reinstate a piece =
     (if piece \<ge> length (retired a) then a
      else if \<not> retired a ! piece then a
      else let a1 = a\<lparr>retired := (retired a)[piece := False]\<rparr> in
        a1\<lparr>buckets := bucket_insert (buckets a1) (count a1 piece) (of_nat piece)\<rparr>)"

subsection \<open>The bucket invariant\<close>

text \<open>A piece is live when the walk may return it if its count is not zero.\<close>

definition live :: "availability \<Rightarrow> nat \<Rightarrow> bool" where
  "live a p \<longleftrightarrow> p < length (counts a) \<and> \<not> get_or False (retired a) p"

text \<open>Bucket \<open>c\<close> holds exactly the pieces that \<open>sel\<close> puts there, in increasing order.\<close>

definition bucketed :: "u32 list list \<Rightarrow> (u32 \<Rightarrow> u32 option) \<Rightarrow> bool" where
  "bucketed bs sel \<longleftrightarrow>
     list_all (\<lambda>b. sorted_wrt (<) b) bs \<and>
     (\<forall>c < length bs. \<forall>p. p \<in> set (bs ! c) \<longleftrightarrow> c \<noteq> 0 \<and> map_option unat (sel p) = Some c) \<and>
     (\<forall>p c. sel p = Some c \<and> c \<noteq> 0 \<longrightarrow> unat c < length bs)"

definition selected :: "availability \<Rightarrow> u32 \<Rightarrow> u32 option" where
  "selected a p = (if live a (unat p) then Some (count a (unat p)) else None)"

definition availability_ok :: "availability \<Rightarrow> bool" where
  "availability_ok a \<longleftrightarrow> length (retired a) = length (counts a) \<and> length (counts a) \<le> 2 ^ 32 \<and>
     bucketed (buckets a) (selected a)"

lemma availability_ok_new: "n \<le> 2 ^ 32 \<Longrightarrow> availability_ok (availability_new n)"
  by (auto simp: availability_ok_def availability_new_def bucketed_def selected_def live_def count_def get_or_def
      split: if_splits)

lemma strict_sorted_insert: "sorted_wrt (<) xs \<Longrightarrow> sorted_wrt (<) (insort_insert x (xs :: u32 list))"
  by (simp add: strict_sorted_iff sorted_insort_insert distinct_insort_insert)

lemma strict_sorted_removeAll: "sorted_wrt (<) xs \<Longrightarrow> sorted_wrt (<) (removeAll x (xs :: u32 list))"
  by (simp add: removeAll_filter_not_eq sorted_wrt_filter)

lemma bucketed_remove:
  assumes "bucketed bs sel" "sel p = Some c"
  shows "bucketed (bucket_remove bs c p) (sel(p := None))"
  using assms
  by (auto simp: bucketed_def bucket_remove_def list_all_length nth_list_update strict_sorted_removeAll unat_eq_zero
      split: if_splits)

lemma bucketed_grow: "bucketed bs sel \<Longrightarrow> bucketed (bs @ replicate k []) sel"
proof -
  assume b: "bucketed bs sel"
  have in_range: "unat c < length bs" if "sel p = Some c" "unat c \<noteq> 0" for p c
    using b that by (auto simp: bucketed_def unat_gt_0)
  have "p \<in> set ((bs @ replicate k []) ! c) \<longleftrightarrow> c \<noteq> 0 \<and> map_option unat (sel p) = Some c"
    if "c < length bs + k" for c p
    using b that in_range [of p] by (cases "c < length bs") (auto simp: bucketed_def nth_append)
  with b show ?thesis using in_range by (auto simp: bucketed_def list_all_iff intro: trans_less_add1)
qed

lemma bucketed_insert:
  assumes "bucketed bs sel" "sel p = None"
  shows "bucketed (bucket_insert bs c p) (sel(p := Some c))"
proof (cases "c = 0")
  case True
  then show ?thesis using assms by (auto simp: bucketed_def bucket_insert_def)
next
  case False
  let ?bs = "if unat c \<ge> length bs then bs @ replicate (unat c + 1 - length bs) [] else bs"
  have b: "bucketed ?bs sel" "unat c < length ?bs"
    using assms(1) by (simp_all add: bucketed_grow)
  then have "bucketed (?bs[unat c := insort_insert p (?bs ! unat c)]) (sel(p := Some c))"
    using assms(2) False
    by (auto simp: bucketed_def list_all_length nth_list_update strict_sorted_insert set_insort_insert unat_eq_zero unat_gt_0)
  then show ?thesis using False by (simp add: bucket_insert_def Let_def)
qed

lemma of_nat_u32 [simp]: "p < n \<Longrightarrow> n \<le> 2 ^ 32 \<Longrightarrow> unat (of_nat p :: u32) = p"
  by (simp add: unat_of_nat)

lemma selected_upd:
  assumes "availability_ok a" "length (counts b) = length (counts a)"
    "p < length (counts a)" "\<And>q. q \<noteq> p \<Longrightarrow> live b q = live a q \<and> count b q = count a q"
  shows "selected b = (selected a)(of_nat p := (if live b p then Some (count b p) else None))"
proof
  fix q
  show "selected b q = ((selected a)(of_nat p := (if live b p then Some (count b p) else None))) q"
  proof (cases "unat q = p")
    case True
    then have "q = of_nat p" by auto
    then show ?thesis using True by (simp add: selected_def)
  next
    case False
    then have "q \<noteq> of_nat p" using assms by (auto simp: availability_ok_def)
    then show ?thesis using False assms(4) [of "unat q"] by (simp add: selected_def)
  qed
qed

lemma selected_self: "availability_ok a \<Longrightarrow> p < length (counts a) \<Longrightarrow>
  selected a (of_nat p) = (if live a p then Some (count a p) else None)"
  by (simp add: selected_def availability_ok_def)

lemma bucketed_move:
  assumes "bucketed bs sel" "sel p = Some c"
  shows "bucketed (bucket_insert (bucket_remove bs c p) d p) (sel(p := Some d))"
  using bucketed_insert [OF bucketed_remove [OF assms], of p d] by simp

text \<open>What an operation on one piece may change, and that it keeps the invariant.\<close>

definition changes :: "availability \<Rightarrow> availability \<Rightarrow> nat \<Rightarrow> u32 \<Rightarrow> bool \<Rightarrow> bool" where
  "changes a b p c l \<longleftrightarrow> length (counts b) = length (counts a) \<and>
     (\<forall>q. count b q = (if q = p then c else count a q)) \<and> (\<forall>q. live b q = (if q = p then l else live a q)) \<and>
     (availability_ok a \<longrightarrow> availability_ok b)"

lemma availability_okI:
  assumes "availability_ok a" "p < length (counts a)" "length (counts b) = length (counts a)" "length (retired b) = length (counts b)"
    "\<And>q. q \<noteq> p \<Longrightarrow> live b q = live a q \<and> count b q = count a q"
    "bucketed (buckets b) ((selected a)(of_nat p := (if live b p then Some (count b p) else None)))"
  shows "availability_ok b"
proof -
  have "selected b = (selected a)(of_nat p := (if live b p then Some (count b p) else None))"
    using assms by (intro selected_upd) auto
  then show ?thesis using assms by (simp add: availability_ok_def)
qed

lemma have_changes:
  assumes p: "p < length (counts a)"
    and b: "b = (let a1 = a\<lparr>counts := (counts a)[p := new]\<rparr> in
      if new \<noteq> counts a ! p \<and> \<not> get_or False (retired a1) p
      then a1\<lparr>buckets := bucket_insert (bucket_remove (buckets a1) (counts a ! p) (of_nat p)) new (of_nat p)\<rparr>
      else a1)"
  shows "changes a b p new (live a p)"
proof -
  have same: "counts b = (counts a)[p := new]" "retired b = retired a"
    and bb: "buckets b = (if new \<noteq> counts a ! p \<and> \<not> get_or False (retired a) p
      then bucket_insert (bucket_remove (buckets a) (counts a ! p) (of_nat p)) new (of_nat p) else buckets a)"
    using b by (simp_all add: Let_def)
  have cnt: "count b q = (if q = p then new else count a q)" "live b q = live a q" for q
    using same p by (simp_all add: count_def live_def get_or_def nth_list_update)
  have "availability_ok b" if ok: "availability_ok a"
  proof (rule availability_okI [OF ok p])
    have sel: "selected a (of_nat p) = (if live a p then Some (counts a ! p) else None)"
      using selected_self [OF ok p] p by (simp add: count_def get_or_def)
    have bk: "bucketed (buckets a) (selected a)" using ok by (simp add: availability_ok_def)
    show "bucketed (buckets b) ((selected a)(of_nat p := (if live b p then Some (count b p) else None)))"
    proof (cases "live a p")
      case True
      then have "\<not> get_or False (retired a) p" by (simp add: live_def)
      then show ?thesis using True bk sel bucketed_move [OF bk, of "of_nat p" "counts a ! p" new]
        by (cases "new = counts a ! p") (simp_all add: bb cnt fun_upd_idem)
    next
      case False
      then have "buckets b = buckets a" using p by (simp add: bb live_def)
      then show ?thesis using False bk sel by (simp add: cnt fun_upd_idem)
    qed
  qed (use ok same cnt in \<open>auto simp: availability_ok_def\<close>)
  then show ?thesis using same cnt by (simp add: changes_def)
qed

lemma add_have_changes: "p < length (counts a) \<Longrightarrow> changes a (add_have a p) p (saturating_add (count a p) 1) (live a p)"
  by (rule have_changes) (simp_all add: add_have_def count_def get_or_def Let_def)

lemma remove_have_changes: "p < length (counts a) \<Longrightarrow> changes a (remove_have a p) p (saturating_sub (count a p) 1) (live a p)"
  by (rule have_changes) (simp_all add: remove_have_def count_def get_or_def Let_def)

lemma flag_changes:
  assumes ok: "availability_ok a" and p: "p < length (counts a)"
    and b: "counts b = counts a" "retired b = (retired a)[p := \<not> l]"
    and bk: "bucketed (buckets b) ((selected a)(of_nat p := (if l then Some (count a p) else None)))"
  shows "changes a b p (count a p) l"
proof -
  have lens: "length (retired a) = length (counts a)" using ok by (simp add: availability_ok_def)
  have cnt: "count b q = count a q" "live b q = (if q = p then l else live a q)" for q
    using b p lens by (simp_all add: count_def live_def get_or_def nth_list_update)
  have "availability_ok b"
    by (rule availability_okI [OF ok p]) (use b lens cnt bk in auto)
  then show ?thesis using cnt b by (simp add: changes_def)
qed

lemma changes_refl: "changes a a p (count a p) (live a p)"
  by (simp add: changes_def)

lemma retire_changes:
  assumes "availability_ok a" "p < length (counts a)"
  shows "changes a (retire a p) p (count a p) False"
proof (cases "retired a ! p")
  case True
  then show ?thesis using assms changes_refl [of a p] by (simp add: retire_def live_def get_or_def availability_ok_def)
next
  case False
  have lv: "live a p" using assms False by (simp add: live_def get_or_def availability_ok_def)
  have "bucketed (bucket_remove (buckets a) (count a p) (of_nat p)) ((selected a)(of_nat p := None))"
    using assms selected_self [OF assms] lv by (intro bucketed_remove) (simp_all add: availability_ok_def)
  then show ?thesis using False assms by (intro flag_changes) (auto simp: retire_def availability_ok_def Let_def count_def)
qed

lemma reinstate_changes:
  assumes "availability_ok a" "p < length (counts a)"
  shows "changes a (reinstate a p) p (count a p) True"
proof (cases "retired a ! p")
  case False
  then show ?thesis using assms changes_refl [of a p] by (simp add: reinstate_def live_def get_or_def availability_ok_def)
next
  case True
  have lv: "\<not> live a p" using assms True by (simp add: live_def get_or_def availability_ok_def)
  have "bucketed (bucket_insert (buckets a) (count a p) (of_nat p)) ((selected a)(of_nat p := Some (count a p)))"
    using assms selected_self [OF assms] lv by (intro bucketed_insert) (simp_all add: availability_ok_def)
  then show ?thesis using True assms by (intro flag_changes) (auto simp: reinstate_def availability_ok_def Let_def count_def)
qed

subsection \<open>The walk over the buckets\<close>

definition candidates :: "availability \<Rightarrow> nat list" where
  "candidates a = filter (\<lambda>p. live a p \<and> count a p \<noteq> 0) [0..<length (counts a)]"

definition rarity :: "availability \<Rightarrow> nat \<Rightarrow> u32 \<times> nat" where
  "rarity a p = (count a p, p)"

definition walk :: "availability \<Rightarrow> nat list" where
  "walk a = map unat (concat (drop 1 (buckets a)))"

lemma bucket_mem:
  assumes "availability_ok a" "c < length (buckets a)" "p \<in> set (buckets a ! c)"
  shows "c \<noteq> 0 \<and> live a (unat p) \<and> unat (count a (unat p)) = c"
  using assms by (auto simp: availability_ok_def bucketed_def selected_def split: if_splits)

lemma walk_set: "availability_ok a \<Longrightarrow> set (walk a) = set (candidates a)"
proof -
  assume ok: "availability_ok a"
  have "p \<in> set (walk a) \<longleftrightarrow> p \<in> set (candidates a)" for p
  proof
    assume "p \<in> set (walk a)"
    then obtain b q where "b \<in> set (drop 1 (buckets a))" and q: "q \<in> set b" "p = unat q" by (auto simp: walk_def)
    then obtain c where "c < length (buckets a)" "buckets a ! c = b" by (metis in_set_conv_nth in_set_dropD)
    with q have cq: "c < length (buckets a)" "q \<in> set (buckets a ! c)" by simp_all
    with bucket_mem [OF ok cq(1,2)] q(2) show "p \<in> set (candidates a)" by (auto simp: candidates_def live_def)
  next
    assume p: "p \<in> set (candidates a)"
    let ?c = "unat (count a p)"
    have lt: "p < length (counts a)" "live a p" "count a p \<noteq> 0" using p by (auto simp: candidates_def)
    have sel: "selected a (of_nat p) = Some (count a p)" using selected_self [OF ok lt(1)] lt(2) by simp
    have c: "?c < length (buckets a)" "?c \<noteq> 0" using ok sel lt(3) by (auto simp: availability_ok_def bucketed_def unat_gt_0)
    have "of_nat p \<in> set (buckets a ! ?c)" using ok sel c by (auto simp: availability_ok_def bucketed_def)
    then have "of_nat p \<in> set (concat (drop 1 (buckets a)))"
      using c nth_mem [of "?c - 1" "drop 1 (buckets a)"] by (auto simp: nth_drop)
    then have "unat (of_nat p :: u32) \<in> set (walk a)" by (simp add: walk_def)
    then show "p \<in> set (walk a)" using ok lt(1) by (simp add: availability_ok_def)
  qed
  then show ?thesis by blast
qed

lemma walk_sorted:
  assumes ok: "availability_ok a"
  shows "sorted_wrt (\<lambda>p q. rarity a p < rarity a q) (walk a)"
proof -
  have "sorted_wrt (\<lambda>p q. rarity a p < rarity a q) (map unat (concat bs))"
    if "\<And>c p. c < length bs \<Longrightarrow> p \<in> set (bs ! c) \<Longrightarrow> unat (count a (unat p)) = c + k"
      "list_all (\<lambda>b. sorted_wrt (<) b) bs" for bs :: "u32 list list" and k
    using that
  proof (induction bs arbitrary: k)
    case (Cons b bs)
    have b: "unat (count a (unat p)) = k" if "p \<in> set b" for p using Cons.prems(1) [of 0 p] that by simp
    have tl: "unat (count a (unat p)) = c + Suc k" if "c < length bs" "p \<in> set (bs ! c)" for c p
      using Cons.prems(1) [of "Suc c" p] that by simp
    have later: "k < unat (count a (unat p))" if "p \<in> set (concat bs)" for p
    proof -
      from that obtain c where "c < length bs" "p \<in> set (bs ! c)" by (metis concat_eq_concat_iff UN_E in_set_conv_nth set_concat)
      then show ?thesis using tl by simp
    qed
    have "sorted_wrt (\<lambda>p q. rarity a (unat p) < rarity a (unat q)) b"
    proof (rule sorted_wrt_mono_rel)
      show "sorted_wrt (<) b" using Cons.prems(2) by simp
      show "rarity a (unat p) < rarity a (unat q)" if "p \<in> set b" "q \<in> set b" "p < q" for p q
      proof -
        have "count a (unat p) = count a (unat q)" using b [OF that(1)] b [OF that(2)] by (simp add: word_unat_eq_iff)
        then show ?thesis using that(3) by (simp add: rarity_def word_less_nat_alt)
      qed
    qed
    moreover have "rarity a (unat p) < rarity a (unat q)" if "p \<in> set b" "q \<in> set (concat bs)" for p q
      using b [OF that(1)] later [OF that(2)] by (simp add: rarity_def word_less_nat_alt)
    ultimately show ?case using Cons.IH [OF tl] Cons.prems(2) by (auto simp: sorted_wrt_append sorted_wrt_map)
  qed simp
  note general = this
  show ?thesis unfolding walk_def
  proof (rule general [where k = 1])
    show "unat (count a (unat p)) = c + 1" if "c < length (drop 1 (buckets a))" "p \<in> set (drop 1 (buckets a) ! c)" for c p
      using bucket_mem [OF ok, of "Suc c" p] that by simp
    show "list_all (\<lambda>b. sorted_wrt (<) b) (drop 1 (buckets a))"
      using ok by (auto simp: availability_ok_def bucketed_def list_all_iff dest: in_set_dropD)
  qed
qed

lemma rarity_inj: "rarity a p = rarity a q \<Longrightarrow> p = q"
  by (simp add: rarity_def)

lemma walk_candidates:
  assumes ok: "availability_ok a"
  shows "walk a = sort_key (rarity a) (candidates a)"
proof -
  let ?s = "sort_key (rarity a) (candidates a)"
  have "distinct (map (rarity a) ?s)" by (simp add: distinct_map candidates_def inj_on_def rarity_def)
  then have "sorted_wrt (<) (map (rarity a) ?s)" by (simp add: strict_sorted_iff)
  moreover have "sorted_wrt (<) (map (rarity a) (walk a))" using walk_sorted [OF ok] by (simp add: sorted_wrt_map)
  ultimately have "map (rarity a) (walk a) = map (rarity a) ?s"
    by (intro strict_sorted_equal) (simp_all add: walk_set [OF ok])
  then show ?thesis by (rule map_injective) (auto simp: inj_on_def rarity_def)
qed

lemma bucket_scan_find: "bucket_scan P ps = find P (map unat ps)"
  by (induction ps) auto

lemma find_append: "find P (xs @ ys) = (case find P xs of None \<Rightarrow> find P ys | Some x \<Rightarrow> Some x)"
  by (induction xs) auto

lemma buckets_scan_find: "buckets_scan P bs = find P (map unat (concat bs))"
  by (induction bs) (auto simp: bucket_scan_find find_append split: option.splits)

lemma rarest_matching_find: "rarest_matching a P = find P (walk a)"
  by (simp add: rarest_matching_def walk_def buckets_scan_find)

lemma find_sorted_min:
  "sorted_wrt (\<lambda>x y. f x < f y) xs \<Longrightarrow> find P xs = Some x \<Longrightarrow>
     x \<in> set xs \<and> P x \<and> (\<forall>y \<in> set xs. P y \<longrightarrow> f x \<le> (f y :: 'b :: linorder))"
  by (induction xs) (auto split: if_splits dest: order.strict_implies_order)

lemma rarest_matching_Some:
  assumes "availability_ok a" "rarest_matching a P = Some p"
  shows "live a p \<and> count a p \<noteq> 0 \<and> P p \<and> (\<forall>q. live a q \<and> count a q \<noteq> 0 \<and> P q \<longrightarrow> rarity a p \<le> rarity a q)"
proof -
  have "p \<in> set (walk a) \<and> P p \<and> (\<forall>q \<in> set (walk a). P q \<longrightarrow> rarity a p \<le> rarity a q)"
    using find_sorted_min [OF walk_sorted [OF assms(1)], of P p] assms(2) unfolding rarest_matching_find by blast
  then show ?thesis by (auto simp: walk_set [OF assms(1)] candidates_def live_def)
qed

lemma rarest_matching_None:
  assumes "availability_ok a"
  shows "rarest_matching a P = None \<longleftrightarrow> (\<forall>q. live a q \<and> count a q \<noteq> 0 \<longrightarrow> \<not> P q)"
  by (auto simp: rarest_matching_find find_None_iff walk_set [OF assms] candidates_def live_def)

subsection \<open>Bitfields\<close>

definition bitfield_has :: "bytes \<Rightarrow> nat \<Rightarrow> bool" where
  "bitfield_has bf p \<longleftrightarrow> p div 8 < length bf \<and> and (bf ! (p div 8)) (drop_bit (p mod 8) 0x80) \<noteq> 0"

definition counted :: "(u32 \<Rightarrow> u32) \<Rightarrow> nat set \<Rightarrow> availability \<Rightarrow> availability \<Rightarrow> bool" where
  "counted g S a b \<longleftrightarrow> length (counts b) = length (counts a) \<and> (\<forall>q. live b q = live a q) \<and>
     (availability_ok a \<longrightarrow> availability_ok b) \<and>
     (\<forall>q. count b q = (if q < length (counts a) \<and> q \<in> S then g (count a q) else count a q))"

lemma counted_empty: "S \<inter> {..<length (counts a)} = {} \<Longrightarrow> counted g S a a"
  by (auto simp: counted_def)

lemma counted_trans: "counted g S a b \<Longrightarrow> counted g T b c \<Longrightarrow> S \<inter> T = {} \<Longrightarrow> counted g (S \<union> T) a c"
  by (auto simp: counted_def)

definition counts_one :: "(u32 \<Rightarrow> u32) \<Rightarrow> (availability \<Rightarrow> nat \<Rightarrow> availability) \<Rightarrow> bool" where
  "counts_one g f \<longleftrightarrow> (\<forall>a p. p < length (counts a) \<longrightarrow> counted g {p} a (f a p))"

lemma counts_one_have:
  "counts_one (\<lambda>c. saturating_add c 1) add_have" "counts_one (\<lambda>c. saturating_sub c 1) remove_have"
  using add_have_changes remove_have_changes by (auto simp: counts_one_def counted_def changes_def)

lemma bit_loop_counted:
  assumes "counts_one g f" "j \<le> 8"
  shows "counted g {q. i * 8 + j \<le> q \<and> q < i * 8 + 8 \<and> and byte (drop_bit (q - i * 8) 0x80) \<noteq> 0} a (bit_loop f i byte [j..<8] a)"
  using assms(2)
proof (induction "8 - j" arbitrary: j a)
  case 0
  then show ?case by (auto intro!: counted_empty)
next
  case (Suc n)
  let ?S = "\<lambda>j. {q. i * 8 + j \<le> q \<and> q < i * 8 + 8 \<and> and byte (drop_bit (q - i * 8) 0x80) \<noteq> 0}"
  have j: "[j..<8] = j # [Suc j..<8]" using Suc.hyps(2) by (simp add: upt_conv_Cons)
  show ?case
  proof (cases "i * 8 + j < length (counts a)")
    case False
    then show ?thesis unfolding j by (auto simp: Let_def intro!: counted_empty)
  next
    case True
    let ?T = "if and byte (drop_bit j 0x80) \<noteq> 0 then {i * 8 + j} else {}"
    let ?a = "if and byte (drop_bit j 0x80) \<noteq> 0 then f a (i * 8 + j) else a"
    have "counted g ?T a ?a" using assms(1) True by (simp add: counts_one_def counted_empty)
    moreover have "counted g (?S (Suc j)) ?a (bit_loop f i byte [Suc j..<8] ?a)" using Suc by (intro Suc.hyps(1)) auto
    ultimately have "counted g (?T \<union> ?S (Suc j)) a (bit_loop f i byte [Suc j..<8] ?a)" by (rule counted_trans) auto
    moreover have "?T \<union> ?S (Suc j) = ?S j"
      using Suc.hyps(2) Suc.prems by (auto simp: le_Suc_eq not_less_eq_eq Suc_le_eq order.order_iff_strict split: if_splits)
    ultimately show ?thesis unfolding j using True by (simp add: Let_def)
  qed
qed

lemma bitfield_counted:
  assumes "counts_one g f"
  shows "counted g {q. n * 8 \<le> q \<and> q < (n + length bf) * 8 \<and> and (bf ! (q div 8 - n)) (drop_bit (q mod 8) 0x80) \<noteq> 0} a
    (fold (\<lambda>(i, byte) a. bit_loop f i byte [0..<8] a) (enumerate n bf) a)"
proof (induction bf arbitrary: n a)
  case (Cons byte bf)
  let ?A = "{q. n * 8 + 0 \<le> q \<and> q < n * 8 + 8 \<and> and byte (drop_bit (q - n * 8) 0x80) \<noteq> 0}"
  let ?B = "{q. Suc n * 8 \<le> q \<and> q < (Suc n + length bf) * 8 \<and> and (bf ! (q div 8 - Suc n)) (drop_bit (q mod 8) 0x80) \<noteq> 0}"
  have main: "counted g (?A \<union> ?B) a (fold (\<lambda>(i, byte) a. bit_loop f i byte [0..<8] a) (enumerate n (byte # bf)) a)"
    using counted_trans [OF bit_loop_counted [OF assms, of 0 n byte a] Cons.IH [of "Suc n"]] by fastforce
  have "q div 8 = n \<and> q mod 8 = q - n * 8" if "n * 8 \<le> q" "q < n * 8 + 8" for q
    using that by (metis add.commute add_diff_cancel_left' div_nat_eqI mod_div_decomp mult.commute mult_Suc)
  moreover have "q div 8 - n = Suc (q div 8 - Suc n)" if "Suc n * 8 \<le> q" for q
    using that by (simp add: Suc_diff_Suc Suc_le_eq less_eq_div_iff_mult_less_eq)
  ultimately have "?A \<union> ?B = {q. n * 8 \<le> q \<and> q < (n + length (byte # bf)) * 8 \<and>
      and ((byte # bf) ! (q div 8 - n)) (drop_bit (q mod 8) 0x80) \<noteq> 0}"
    by (intro set_eqI, rename_tac q, case_tac "q < n * 8 + 8") auto
  with main show ?case by simp
qed (auto intro!: counted_empty)

lemma add_bitfield_counted:
  "counted (\<lambda>c. saturating_add c 1) {q. bitfield_has bf q} a (add_bitfield a bf)"
  "counted (\<lambda>c. saturating_sub c 1) {q. bitfield_has bf q} a (remove_bitfield a bf)"
proof -
  have S: "{q. 0 * 8 \<le> q \<and> q < (0 + length bf) * 8 \<and> and (bf ! (q div 8 - 0)) (drop_bit (q mod 8) 0x80) \<noteq> 0} =
      {q. bitfield_has bf q}" by (auto simp: bitfield_has_def less_mult_imp_div_less div_less_iff_less_mult)
  show "counted (\<lambda>c. saturating_add c 1) {q. bitfield_has bf q} a (add_bitfield a bf)"
    using bitfield_counted [OF counts_one_have(1), of 0 bf a] unfolding S by (simp add: add_bitfield_def)
  show "counted (\<lambda>c. saturating_sub c 1) {q. bitfield_has bf q} a (remove_bitfield a bf)"
    using bitfield_counted [OF counts_one_have(2), of 0 bf a] unfolding S by (simp add: remove_bitfield_def)
qed

subsection \<open>The availability of a swarm\<close>

text \<open>
  The histories of an availability map: peers join with a bitfield, announce single pieces, and leave
  with the pieces they had, and the picker retires and reinstates pieces. A peer is the predicate of
  the pieces it has.
\<close>

inductive swarm :: "nat \<Rightarrow> availability \<Rightarrow> (nat \<Rightarrow> bool) list \<Rightarrow> bool" for n where
  empty: "swarm n (availability_new n) []"
| join: "swarm n a peers \<Longrightarrow> length peers < 2 ^ 32 - 1 \<Longrightarrow> swarm n (add_bitfield a bf) (bitfield_has bf # peers)"
| announce: "swarm n a (xs @ h # ys) \<Longrightarrow> p < n \<Longrightarrow> \<not> h p \<Longrightarrow> swarm n (add_have a p) (xs @ h(p := True) # ys)"
| lose: "swarm n a (xs @ h # ys) \<Longrightarrow> p < n \<Longrightarrow> h p \<Longrightarrow> swarm n (remove_have a p) (xs @ h(p := False) # ys)"
| leave: "swarm n a (xs @ h # ys) \<Longrightarrow> \<forall>p < n. h p \<longleftrightarrow> bitfield_has bf p \<Longrightarrow> swarm n (remove_bitfield a bf) (xs @ ys)"
| retired: "swarm n a peers \<Longrightarrow> swarm n (retire a p) peers"
| reinstated: "swarm n a peers \<Longrightarrow> swarm n (reinstate a p) peers"

definition owners :: "(nat \<Rightarrow> bool) list \<Rightarrow> nat \<Rightarrow> nat" where
  "owners peers p = length (filter (\<lambda>h. h p) peers)"

lemma owners_le: "owners peers p \<le> length peers"
  by (simp add: owners_def)

lemma owners_simps [simp]:
  "owners [] p = 0" "owners (h # peers) p = (if h p then 1 else 0) + owners peers p"
  "owners (xs @ ys) p = owners xs p + owners ys p"
  by (simp_all add: owners_def)

definition counts_match :: "nat \<Rightarrow> availability \<Rightarrow> (nat \<Rightarrow> bool) list \<Rightarrow> bool" where
  "counts_match n a peers \<longleftrightarrow> length (counts a) = n \<and> length peers < 2 ^ 32 \<and>
     (n \<le> 2 ^ 32 \<longrightarrow> availability_ok a) \<and> (\<forall>p < n. unat (count a p) = owners peers p)"

lemma unat_saturating_u32:
  "unat c < 2 ^ 32 - 1 \<Longrightarrow> unat (saturating_add c (1 :: u32)) = unat c + 1" "unat (saturating_sub c (1 :: u32)) = unat c - 1"
  by (simp_all add: unat_saturating_add unat_saturating_sub min_def)

lemma counts_match_counted:
  assumes "counts_match n a peers" "counted g S a b" "length peers' < 2 ^ 32"
    "\<And>p. p < n \<Longrightarrow> p \<notin> S \<Longrightarrow> owners peers' p = owners peers p"
    "\<And>p. p < n \<Longrightarrow> p \<in> S \<Longrightarrow> unat (g (count a p)) = owners peers' p"
  shows "counts_match n b peers'"
  using assms by (auto simp: counts_match_def counted_def)

lemma counts_match_same:
  "counts_match n a peers \<Longrightarrow> counts b = counts a \<Longrightarrow> (availability_ok a \<Longrightarrow> availability_ok b) \<Longrightarrow> counts_match n b peers"
  by (auto simp: counts_match_def count_def)

lemma retire_ok: "availability_ok a \<Longrightarrow> availability_ok (retire a p)"
proof (cases "p < length (counts a)")
  case False
  then show "availability_ok a \<Longrightarrow> ?thesis" by (simp add: retire_def availability_ok_def)
qed (use retire_changes in \<open>auto simp: changes_def\<close>)

lemma reinstate_ok: "availability_ok a \<Longrightarrow> availability_ok (reinstate a p)"
proof (cases "p < length (counts a)")
  case False
  then show "availability_ok a \<Longrightarrow> ?thesis" by (simp add: reinstate_def availability_ok_def)
qed (use reinstate_changes in \<open>auto simp: changes_def\<close>)

lemma retire_counts [simp]:
  "counts (retire a p) = counts a" "counts (reinstate a p) = counts a"
  by (simp_all add: retire_def reinstate_def Let_def)

lemma swarm_counts: "swarm n a peers \<Longrightarrow> counts_match n a peers"
proof (induction rule: swarm.induct)
  case empty
  show ?case by (simp add: counts_match_def availability_ok_new) (simp add: availability_new_def count_def get_or_def)
next
  case (join a peers bf)
  then have small: "unat (count a p) < 2 ^ 32 - 1" if "p < n" for p
    using owners_le [of peers p] that by (simp add: counts_match_def)
  show ?case
    by (rule counts_match_counted [OF join.IH add_bitfield_counted(1)])
      (use join small in \<open>auto simp: counts_match_def unat_saturating_u32\<close>)
next
  case (announce a xs h ys p)
  then have c: "counted (\<lambda>c. saturating_add c 1) {p} a (add_have a p)"
    using counts_one_have(1) by (auto simp: counts_one_def counts_match_def)
  have "owners xs p + owners ys p < 2 ^ 32 - 1"
    using announce.IH owners_le [of xs p] owners_le [of ys p] by (simp add: counts_match_def)
  then show ?case
    by (intro counts_match_counted [OF announce.IH c]) (use announce in \<open>auto simp: counts_match_def unat_saturating_u32\<close>)
next
  case (lose a xs h ys p)
  then have c: "counted (\<lambda>c. saturating_sub c 1) {p} a (remove_have a p)"
    using counts_one_have(2) by (auto simp: counts_one_def counts_match_def)
  show ?case
    by (intro counts_match_counted [OF lose.IH c]) (use lose in \<open>auto simp: counts_match_def unat_saturating_u32\<close>)
next
  case (leave a xs h ys bf)
  show ?case
  proof (rule counts_match_counted [OF leave.IH add_bitfield_counted(2)])
    show "length (xs @ ys) < 2 ^ 32" using leave.IH by (simp add: counts_match_def)
  next
    fix p
    assume p: "p < n"
    then have h: "h p \<longleftrightarrow> bitfield_has bf p" using leave.hyps(2) by blast
    show "owners (xs @ ys) p = owners (xs @ h # ys) p" if "p \<notin> {q. bitfield_has bf q}" using h that by simp
    have "unat (count a p) = owners (xs @ h # ys) p" using leave.IH p by (simp add: counts_match_def)
    then show "unat (saturating_sub (count a p) 1) = owners (xs @ ys) p" if "p \<in> {q. bitfield_has bf q}"
      using h that by (simp add: unat_saturating_u32)
  qed
next
  case (retired a peers p)
  show ?case by (rule counts_match_same [OF retired.IH]) (simp_all add: retire_ok)
next
  case (reinstated a peers p)
  show ?case by (rule counts_match_same [OF reinstated.IH]) (simp_all add: reinstate_ok)
qed

subsection \<open>The interface to the picker\<close>

text \<open>
  What the picker relies on: the search returns the live piece of the smallest count, and taking a
  piece out of the walk or putting it back changes that piece only.
\<close>

locale rarest_index =
  fixes index_ok :: "'a \<Rightarrow> bool"
    and size_of :: "'a \<Rightarrow> nat"
    and is_live :: "'a \<Rightarrow> nat \<Rightarrow> bool"
    and cnt :: "'a \<Rightarrow> nat \<Rightarrow> u32"
    and search :: "'a \<Rightarrow> (nat \<Rightarrow> bool) \<Rightarrow> nat option"
    and take_out :: "'a \<Rightarrow> nat \<Rightarrow> 'a"
    and put_back :: "'a \<Rightarrow> nat \<Rightarrow> 'a"
  assumes live_size: "is_live a p \<Longrightarrow> p < size_of a"
    and search_Some: "index_ok a \<Longrightarrow> search a P = Some p \<Longrightarrow>
      is_live a p \<and> cnt a p \<noteq> 0 \<and> P p \<and> (\<forall>q. is_live a q \<and> cnt a q \<noteq> 0 \<and> P q \<longrightarrow> (cnt a p, p) \<le> (cnt a q, q))"
    and search_None: "index_ok a \<Longrightarrow> search a P = None \<longleftrightarrow> (\<forall>q. is_live a q \<and> cnt a q \<noteq> 0 \<longrightarrow> \<not> P q)"
    and take_out_law: "index_ok a \<Longrightarrow> p < size_of a \<Longrightarrow> index_ok (take_out a p) \<and> size_of (take_out a p) = size_of a \<and>
      (\<forall>q. cnt (take_out a p) q = cnt a q) \<and> (\<forall>q. is_live (take_out a p) q \<longleftrightarrow> is_live a q \<and> q \<noteq> p)"
    and put_back_law: "index_ok a \<Longrightarrow> p < size_of a \<Longrightarrow> index_ok (put_back a p) \<and> size_of (put_back a p) = size_of a \<and>
      (\<forall>q. cnt (put_back a p) q = cnt a q) \<and> (\<forall>q. is_live (put_back a p) q \<longleftrightarrow> is_live a q \<or> q = p)"
begin

lemma search_iff:
  assumes "index_ok a"
  shows "search a P = Some p \<longleftrightarrow> is_live a p \<and> cnt a p \<noteq> 0 \<and> P p \<and>
    (\<forall>q. is_live a q \<and> cnt a q \<noteq> 0 \<and> P q \<longrightarrow> (cnt a p, p) \<le> (cnt a q, q))"
proof
  assume p: "is_live a p \<and> cnt a p \<noteq> 0 \<and> P p \<and> (\<forall>q. is_live a q \<and> cnt a q \<noteq> 0 \<and> P q \<longrightarrow> (cnt a p, p) \<le> (cnt a q, q))"
  then have "search a P \<noteq> None" using search_None [OF assms, of P] by blast
  then obtain r where r: "search a P = Some r" by blast
  have "(cnt a p, p) \<le> (cnt a r, r)" "(cnt a r, r) \<le> (cnt a p, p)" using search_Some [OF assms r] p by blast+
  then have "(cnt a p, p) = (cnt a r, r)" by (rule order.antisym)
  then show "search a P = Some p" using r by simp
next
  assume "search a P = Some p"
  then show "is_live a p \<and> cnt a p \<noteq> 0 \<and> P p \<and> (\<forall>q. is_live a q \<and> cnt a q \<noteq> 0 \<and> P q \<longrightarrow> (cnt a p, p) \<le> (cnt a q, q))"
    by (rule search_Some [OF assms])
qed

text \<open>The walk follows a set of pieces when exactly these are live; both changes keep it following.\<close>

lemma take_out_follows:
  assumes "index_ok a" "p < size_of a" "\<forall>q. is_live a q \<longleftrightarrow> q < size_of a \<and> out q"
  shows "index_ok (take_out a p) \<and> (\<forall>q. is_live (take_out a p) q \<longleftrightarrow> q < size_of a \<and> (out(p := False)) q)"
  using take_out_law [OF assms(1,2)] assms(3) by auto

lemma put_back_follows:
  assumes "index_ok a" "p < size_of a" "\<forall>q. is_live a q \<longleftrightarrow> q < size_of a \<and> out q"
  shows "index_ok (put_back a p) \<and> (\<forall>q. is_live (put_back a p) q \<longleftrightarrow> q < size_of a \<and> (out(p := True)) q)"
  using put_back_law [OF assms(1,2)] assms(2,3) by auto

end

interpretation avail: rarest_index availability_ok "\<lambda>a. length (counts a)" live count rarest_matching retire reinstate
proof
  fix a P p
  assume ok: "availability_ok a"
  show "rarest_matching a P = Some p \<Longrightarrow> live a p \<and> count a p \<noteq> 0 \<and> P p \<and>
      (\<forall>q. live a q \<and> count a q \<noteq> 0 \<and> P q \<longrightarrow> (count a p, p) \<le> (count a q, q))"
    using rarest_matching_Some [OF ok, unfolded rarity_def] by blast
  show "rarest_matching a P = None \<longleftrightarrow> (\<forall>q. live a q \<and> count a q \<noteq> 0 \<longrightarrow> \<not> P q)"
    by (rule rarest_matching_None [OF ok])
  assume p: "p < length (counts a)"
  show "availability_ok (retire a p) \<and> length (counts (retire a p)) = length (counts a) \<and>
      (\<forall>q. count (retire a p) q = count a q) \<and> (\<forall>q. live (retire a p) q \<longleftrightarrow> live a q \<and> q \<noteq> p)"
    using retire_changes [OF ok p] ok by (auto simp: changes_def)
  show "availability_ok (reinstate a p) \<and> length (counts (reinstate a p)) = length (counts a) \<and>
      (\<forall>q. count (reinstate a p) q = count a q) \<and> (\<forall>q. live (reinstate a p) q \<longleftrightarrow> live a q \<or> q = p)"
    using reinstate_changes [OF ok p] ok by (auto simp: changes_def)
qed (simp add: live_def)

subsection \<open>Properties\<close>

text \<open>
  C34. After any history of peers joining with bitfields, announcing and losing pieces and leaving, the
  count of a piece is the number of peers present that have it.
\<close>

theorem availability_counts:
  assumes "swarm n a peers" "p < n"
  shows "unat (count a p) = length (filter (\<lambda>h. h p) peers)"
  using swarm_counts [OF assms(1)] assms(2) by (simp add: counts_match_def owners_def)

definition two_peers :: availability where
  "two_peers = add_have (add_bitfield (add_bitfield (availability_new 10) [0xC0, 0x40]) [0x80]) 9"

lemma two_peers_swarm: "swarm 10 two_peers [(bitfield_has [0x80])(9 := True), bitfield_has [0xC0, 0x40]]"
proof -
  have "swarm 10 (add_bitfield (add_bitfield (availability_new 10) [0xC0, 0x40]) [0x80])
      ([] @ bitfield_has [0x80] # [bitfield_has [0xC0, 0x40]])"
    by (auto intro!: swarm.intros)
  from announce [OF this, of 9] show ?thesis by (simp add: two_peers_def bitfield_has_def)
qed

lemma two_peers_bits:
  "bitfield_has [0x80] 0" "\<not> bitfield_has [0x80] (Suc 0)" "bitfield_has [0xC0, 0x40] 0" "bitfield_has [0xC0, 0x40] (Suc 0)"
  "bitfield_has [0xC0, 0x40] 9"
  by code_simp+

theorem availability_counts_witness:
  "unat (count two_peers 0) = 2 \<and> unat (count two_peers 1) = 1 \<and> unat (count two_peers 9) = 2"
  using availability_counts [OF two_peers_swarm, of 0] availability_counts [OF two_peers_swarm, of 1]
    availability_counts [OF two_peers_swarm, of 9]
  by (simp add: two_peers_bits)

text \<open>
  C35. The bucket walk finds what a full scan would: it returns the piece of the smallest pair of number
  of peers and index among the pieces that match, are not retired and that some peer has, and nothing
  only when there is none; and the rarest-first order is the sorted order of those pieces.
\<close>

theorem rarest_matching_optimal:
  assumes "swarm n a peers" "n \<le> 2 ^ 32"
  shows "(rarest_matching a P = Some p \<longleftrightarrow>
      (live a p \<and> count a p \<noteq> 0 \<and> P p) \<and> (\<forall>q. live a q \<and> count a q \<noteq> 0 \<and> P q \<longrightarrow> (count a p, p) \<le> (count a q, q))) \<and>
    (rarest_matching a P = None \<longleftrightarrow> (\<forall>q. live a q \<and> count a q \<noteq> 0 \<longrightarrow> \<not> P q)) \<and>
    rarest_first a want = filter (get_or False want)
      (sort_key (\<lambda>q. (count a q, q)) (filter (\<lambda>q. live a q \<and> count a q \<noteq> 0) [0..<n]))"
proof -
  have ok: "availability_ok a" and n: "length (counts a) = n"
    using swarm_counts [OF assms(1)] assms(2) by (simp_all add: counts_match_def)
  have "rarest_first a want = filter (get_or False want) (walk a)" by (simp add: rarest_first_def walk_def)
  then have "rarest_first a want = filter (get_or False want)
      (sort_key (\<lambda>q. (count a q, q)) (filter (\<lambda>q. live a q \<and> count a q \<noteq> 0) [0..<n]))"
    using walk_candidates [OF ok] n by (simp add: candidates_def rarity_def [abs_def])
  moreover note avail.search_iff [OF ok, of P p] avail.search_None [OF ok, of P]
  ultimately show ?thesis by blast
qed

theorem rarest_matching_optimal_witness:
  "rarest_matching two_peers (\<lambda>_. True) = Some 1 \<and> live two_peers 1 \<and> count two_peers 1 \<noteq> 0"
proof -
  have "rarest_matching two_peers (\<lambda>_. True) = Some 1"
    by (simp add: two_peers_def add_bitfield_def upt_rec add_have_def availability_new_def get_or_def saturating_add_def
        bucket_insert_def bucket_remove_def insort_insert_key_def rarest_matching_def Let_def)
  then show ?thesis using rarest_matching_optimal [OF two_peers_swarm, of "\<lambda>_. True" 1] by simp
qed

end
