(* ===== verification/Piece_Picker.thy ===== *)
theory Piece_Picker
  imports Availability "HOL-Library.AList"
begin

text \<open>
  The block scheduler of \<open>crates/rt-piece-picker/src/picker.rs\<close>. The pieces in progress are a hash map
  from piece to block state, here an association list with one entry per piece. The peer's pieces
  (\<open>PieceAvailability\<close>) are a predicate.
\<close>

subsection \<open>The state of one piece\<close>

definition PICK_BLOCK_SIZE :: u32 where
  "PICK_BLOCK_SIZE = 16 * 1024"

definition MAX_IN_PROGRESS_PIECES :: nat where
  "MAX_IN_PROGRESS_PIECES = 16384"

definition MAX_IN_PROGRESS_PIECE_STATE_BYTES :: nat where
  "MAX_IN_PROGRESS_PIECE_STATE_BYTES = 64 * 1024 * 1024"

record block_request =
  br_piece :: u32
  br_begin :: u32
  br_length :: u32

definition slice_has_piece :: "bool list \<Rightarrow> nat \<Rightarrow> bool" where
  "slice_has_piece xs piece = get_or False xs piece"

record piece_state =
  piece_length :: u32
  requested :: "u16 list"
  received :: "bool list"

definition n_blocks :: "u32 \<Rightarrow> nat" where
  "n_blocks len = unat (div_ceil len PICK_BLOCK_SIZE)"

definition piece_state_new :: "u32 \<Rightarrow> piece_state" where
  "piece_state_new len =
     \<lparr>piece_length = len, requested = replicate (n_blocks len) 0, received = replicate (n_blocks len) False\<rparr>"

text \<open>\<open>Iterator::position\<close>: the index of the first element that satisfies the predicate.\<close>

fun position :: "('a \<Rightarrow> bool) \<Rightarrow> 'a list \<Rightarrow> nat option" where
  "position P [] = None"
| "position P (x # xs) = (if P x then Some 0 else map_option Suc (position P xs))"

definition next_unrequested :: "piece_state \<Rightarrow> nat option" where
  "next_unrequested st = position (\<lambda>(req, recv). req = 0 \<and> \<not> recv) (zip (requested st) (received st))"

definition block_request_for :: "piece_state \<Rightarrow> nat \<Rightarrow> nat \<Rightarrow> block_request" where
  "block_request_for st piece block_idx =
     (let begin_off = of_nat block_idx * PICK_BLOCK_SIZE;
          remaining = saturating_sub (piece_length st) begin_off in
      \<lparr>br_piece = of_nat piece, br_begin = begin_off, br_length = min remaining PICK_BLOCK_SIZE\<rparr>)"

definition next_requested_not_received :: "piece_state \<Rightarrow> block_request list \<Rightarrow> nat \<Rightarrow> nat option" where
  "next_requested_not_received st exclude piece =
     position (\<lambda>(block_idx, req, recv). \<not> (req = 0 \<or> recv) \<and> block_request_for st piece block_idx \<notin> set exclude)
       (enumerate 0 (zip (requested st) (received st)))"

definition mark_requested :: "piece_state \<Rightarrow> nat \<Rightarrow> piece_state" where
  "mark_requested st i =
     (if i < length (requested st) then st\<lparr>requested := (requested st)[i := saturating_add (requested st ! i) 1]\<rparr> else st)"

definition mark_received :: "piece_state \<Rightarrow> nat \<Rightarrow> piece_state" where
  "mark_received st i =
     (let st1 = (if i < length (received st) then st\<lparr>received := (received st)[i := True]\<rparr> else st) in
      if i < length (requested st1) then st1\<lparr>requested := (requested st1)[i := 0]\<rparr> else st1)"

definition state_complete :: "piece_state \<Rightarrow> bool" where
  "state_complete st = list_all id (received st)"

definition received_blocks_limited :: "piece_state \<Rightarrow> nat \<Rightarrow> u32 list" where
  "received_blocks_limited st maximum =
     take maximum (map (\<lambda>(i, _). of_nat i) (filter snd (enumerate 0 (received st))))"

text \<open>\<open>size_of::<PieceState>()\<close> is 56 bytes: a \<open>u32\<close> and two vectors of three words.\<close>

definition usize_sat_add :: "nat \<Rightarrow> nat \<Rightarrow> nat" where
  "usize_sat_add a b = min (a + b) (2 ^ 64 - 1)"

definition usize_sat_mul :: "nat \<Rightarrow> nat \<Rightarrow> nat" where
  "usize_sat_mul a b = min (a * b) (2 ^ 64 - 1)"

definition piece_state_memory_bytes :: "u32 \<Rightarrow> nat" where
  "piece_state_memory_bytes len =
     (let blocks = n_blocks len in
      usize_sat_add (usize_sat_add 56 (usize_sat_mul blocks 2)) (usize_sat_mul blocks 1))"

subsection \<open>The picker\<close>

record piece_picker =
  pick_count :: nat
  default_piece_length :: u32
  last_piece_length :: u32
  wanted :: "bool list"
  enabled :: "bool list"
  in_progress :: "(nat \<times> piece_state) list"
  in_progress_bytes :: nat
  priority :: "bool list"
  sequential :: bool
  sequential_start_piece :: nat
  avail_map :: availability
  outstanding_wanted :: nat

definition memory_bytes_for_piece_count :: "nat \<Rightarrow> nat" where
  "memory_bytes_for_piece_count n =
     (let bitset_bytes = usize_sat_mul ((n + 63) div 64) 8 in
      usize_sat_add (usize_sat_add (usize_sat_mul bitset_bytes 3) (usize_sat_mul n 4)) (64 * 1024))"

definition picker_new :: "nat \<Rightarrow> u32 \<Rightarrow> u32 \<Rightarrow> piece_picker" where
  "picker_new n dl ll =
     \<lparr>pick_count = n, default_piece_length = dl, last_piece_length = ll, wanted = replicate n True,
      enabled = replicate n True, in_progress = [], in_progress_bytes = 0, priority = replicate n False,
      sequential = False, sequential_start_piece = 0, avail_map = availability_new n, outstanding_wanted = n\<rparr>"

definition adjust_outstanding :: "piece_picker \<Rightarrow> nat \<Rightarrow> bool \<Rightarrow> bool \<Rightarrow> bool \<Rightarrow> bool \<Rightarrow> piece_picker" where
  "adjust_outstanding k piece old_wanted old_enabled new_wanted new_enabled =
     (let was = old_wanted \<and> old_enabled; is = new_wanted \<and> new_enabled in
      if is \<and> \<not> was then k\<lparr>outstanding_wanted := usize_sat_add (outstanding_wanted k) 1, avail_map := reinstate (avail_map k) piece\<rparr>
      else if was \<and> \<not> is then k\<lparr>outstanding_wanted := outstanding_wanted k - 1, avail_map := retire (avail_map k) piece\<rparr>
      else k)"

definition remove_in_progress :: "piece_picker \<Rightarrow> nat \<Rightarrow> piece_picker" where
  "remove_in_progress k piece =
     (case map_of (in_progress k) piece of
        None \<Rightarrow> k
      | Some st \<Rightarrow> k\<lparr>in_progress := AList.delete piece (in_progress k),
                     in_progress_bytes := in_progress_bytes k - piece_state_memory_bytes (piece_length st)\<rparr>)"

definition mark_have :: "piece_picker \<Rightarrow> nat \<Rightarrow> piece_picker" where
  "mark_have k piece =
     (if piece < pick_count k then
        let old_wanted = wanted k ! piece; en = enabled k ! piece;
            k1 = k\<lparr>wanted := (wanted k)[piece := False]\<rparr> in
        remove_in_progress (adjust_outstanding k1 piece old_wanted en False en) piece
      else k)"

definition reject_piece :: "piece_picker \<Rightarrow> nat \<Rightarrow> piece_picker" where
  "reject_piece k piece =
     (if piece < pick_count k then
        let old_wanted = wanted k ! piece; en = enabled k ! piece;
            k1 = k\<lparr>wanted := (wanted k)[piece := True]\<rparr> in
        remove_in_progress (adjust_outstanding k1 piece old_wanted en True en) piece
      else k)"

definition set_piece_enabled :: "piece_picker \<Rightarrow> nat \<Rightarrow> bool \<Rightarrow> piece_picker" where
  "set_piece_enabled k piece en =
     (if piece < pick_count k then
        let w = wanted k ! piece; old_enabled = enabled k ! piece;
            k1 = adjust_outstanding (k\<lparr>enabled := (enabled k)[piece := en]\<rparr>) piece w old_enabled w en in
        if \<not> en then remove_in_progress k1 piece else k1
      else k)"

definition piece_length_for :: "piece_picker \<Rightarrow> nat \<Rightarrow> u32" where
  "piece_length_for k piece =
     (if piece + 1 = pick_count k then last_piece_length k else default_piece_length k)"

definition can_admit_piece_state :: "piece_picker \<Rightarrow> u32 \<Rightarrow> bool" where
  "can_admit_piece_state k len \<longleftrightarrow>
     length (in_progress k) < MAX_IN_PROGRESS_PIECES \<and>
     in_progress_bytes k + piece_state_memory_bytes len < 2 ^ 64 \<and>
     in_progress_bytes k + piece_state_memory_bytes len \<le> MAX_IN_PROGRESS_PIECE_STATE_BYTES"

definition restore_blocks :: "u32 list \<Rightarrow> piece_state \<Rightarrow> piece_state" where
  "restore_blocks blocks st =
     fold (\<lambda>b st. if unat b < length (received st) then st\<lparr>received := (received st)[unat b := True]\<rparr> else st) blocks st"

definition restore_partial_piece :: "piece_picker \<Rightarrow> nat \<Rightarrow> u32 list \<Rightarrow> piece_picker" where
  "restore_partial_piece k piece received_blocks =
     (if piece \<ge> pick_count k \<or> received_blocks = [] \<or> \<not> wanted k ! piece \<or> \<not> enabled k ! piece
         \<or> map_of (in_progress k) piece \<noteq> None \<or> \<not> can_admit_piece_state k (piece_length_for k piece)
      then k
      else let len = piece_length_for k piece; st = restore_blocks received_blocks (piece_state_new len) in
        if \<not> state_complete st
        then k\<lparr>in_progress_bytes := usize_sat_add (in_progress_bytes k) (piece_state_memory_bytes len),
               in_progress := AList.update piece st (in_progress k)\<rparr>
        else k)"

definition set_priority :: "piece_picker \<Rightarrow> nat list \<Rightarrow> piece_picker" where
  "set_priority k pieces =
     k\<lparr>priority := fold (\<lambda>p flags. if p < length flags then flags[p := True] else flags) pieces
         (replicate (pick_count k) False)\<rparr>"

definition set_priority_mask :: "piece_picker \<Rightarrow> bool list \<Rightarrow> piece_picker" where
  "set_priority_mask k flags =
     (if length flags = pick_count k then k\<lparr>priority := flags\<rparr>
      else k\<lparr>priority := replicate (length (priority k)) False\<rparr>)"

definition set_sequential :: "piece_picker \<Rightarrow> bool \<Rightarrow> piece_picker" where
  "set_sequential k en = k\<lparr>sequential := en\<rparr>"

definition set_sequential_from_piece :: "piece_picker \<Rightarrow> nat \<Rightarrow> piece_picker" where
  "set_sequential_from_piece k piece = k\<lparr>sequential_start_piece := min piece (pick_count k - 1)\<rparr>"

definition have_piece :: "piece_picker \<Rightarrow> nat \<Rightarrow> bool" where
  "have_piece k piece \<longleftrightarrow> piece < length (wanted k) \<and> \<not> wanted k ! piece"


subsection \<open>Selection\<close>

definition piece_is_requestable :: "piece_picker \<Rightarrow> nat \<Rightarrow> bool" where
  "piece_is_requestable k piece \<longleftrightarrow>
     piece < pick_count k \<and> wanted k ! piece \<and> enabled k ! piece \<and>
     (case map_of (in_progress k) piece of None \<Rightarrow> True | Some st \<Rightarrow> next_unrequested st \<noteq> None)"

definition pick_block_from :: "piece_picker \<Rightarrow> nat \<Rightarrow> block_request option \<times> piece_picker" where
  "pick_block_from k piece =
     (if piece \<ge> pick_count k then (None, k)
      else let pl = piece_length_for k piece; is_new = map_of (in_progress k) piece = None in
      if is_new \<and> \<not> can_admit_piece_state k pl then (None, k)
      else let k1 = (if is_new then k\<lparr>in_progress_bytes := usize_sat_add (in_progress_bytes k) (piece_state_memory_bytes pl)\<rparr> else k);
               st = (case map_of (in_progress k1) piece of None \<Rightarrow> piece_state_new pl | Some st \<Rightarrow> st);
               k2 = k1\<lparr>in_progress := AList.update piece st (in_progress k1)\<rparr> in
      case next_unrequested st of
        None \<Rightarrow> (None, k2)
      | Some block_idx \<Rightarrow>
          let st' = mark_requested st block_idx in
          (Some (block_request_for st' piece block_idx), k2\<lparr>in_progress := AList.update piece st' (in_progress k2)\<rparr>))"

definition sequential_order :: "piece_picker \<Rightarrow> nat list" where
  "sequential_order k =
     (let start = min (sequential_start_piece k) (pick_count k - 1) in [start..<pick_count k] @ [0..<start])"

definition rarest_requestable_piece :: "piece_picker \<Rightarrow> (nat \<Rightarrow> bool) \<Rightarrow> nat option" where
  "rarest_requestable_piece k peer_has =
     rarest_matching (avail_map k) (\<lambda>piece. piece_is_requestable k piece \<and> peer_has piece)"

definition pick :: "piece_picker \<Rightarrow> (nat \<Rightarrow> bool) \<Rightarrow> block_request option \<times> piece_picker" where
  "pick k peer_has =
     (if outstanding_wanted k = 0 then (None, k)
      else case find (\<lambda>p. priority k ! p \<and> piece_is_requestable k p \<and> peer_has p) [0..<pick_count k] of
        Some piece \<Rightarrow> pick_block_from k piece
      | None \<Rightarrow>
          if sequential k then
            (case find (\<lambda>p. piece_is_requestable k p \<and> peer_has p) (sequential_order k) of
               Some piece \<Rightarrow> pick_block_from k piece
             | None \<Rightarrow> (None, k))
          else
            (case rarest_requestable_piece k peer_has of
               None \<Rightarrow> (None, k)
             | Some piece \<Rightarrow> pick_block_from k piece))"

definition pick_from_seed :: "piece_picker \<Rightarrow> block_request option \<times> piece_picker" where
  "pick_from_seed k =
     (case find (\<lambda>p. priority k ! p \<and> piece_is_requestable k p) [0..<pick_count k] of
        Some piece \<Rightarrow> pick_block_from k piece
      | None \<Rightarrow>
          if sequential k then
            (case find (\<lambda>p. piece_is_requestable k p) (sequential_order k) of
               Some piece \<Rightarrow> pick_block_from k piece
             | None \<Rightarrow> (None, k))
          else
            (case find (\<lambda>p. piece_is_requestable k p) [0..<pick_count k] of
               Some piece \<Rightarrow> pick_block_from k piece
             | None \<Rightarrow> (None, k)))"

definition endgame_candidate :: "piece_picker \<Rightarrow> (nat \<Rightarrow> bool) \<Rightarrow> block_request list \<Rightarrow> nat \<Rightarrow> bool" where
  "endgame_candidate k peer_has already piece \<longleftrightarrow>
     piece < pick_count k \<and> wanted k ! piece \<and> enabled k ! piece \<and> peer_has piece \<and>
     (case map_of (in_progress k) piece of
        None \<Rightarrow> False
      | Some st \<Rightarrow> next_requested_not_received st already piece \<noteq> None)"

definition next_endgame_piece :: "piece_picker \<Rightarrow> (nat \<Rightarrow> bool) \<Rightarrow> block_request list \<Rightarrow> nat option" where
  "next_endgame_piece k peer_has already =
     (case find (\<lambda>p. priority k ! p \<and> endgame_candidate k peer_has already p) [0..<pick_count k] of
        Some piece \<Rightarrow> Some piece
      | None \<Rightarrow>
          if sequential k
          then find (\<lambda>p. endgame_candidate k peer_has already p \<and> \<not> priority k ! p) (sequential_order k)
          else rarest_matching (avail_map k) (\<lambda>p. \<not> priority k ! p \<and> endgame_candidate k peer_has already p))"

definition endgame_active :: "piece_picker \<Rightarrow> bool" where
  "endgame_active k \<longleftrightarrow> outstanding_wanted k \<noteq> 0 \<and>
     list_all (\<lambda>(piece, _). Option.bind (map_of (in_progress k) piece) next_unrequested = None)
       (filter (\<lambda>(_, w, en). w \<and> en) (enumerate 0 (zip (wanted k) (enabled k))))"

definition pick_endgame ::
    "piece_picker \<Rightarrow> (nat \<Rightarrow> bool) \<Rightarrow> block_request list \<Rightarrow> block_request option \<times> piece_picker" where
  "pick_endgame k peer_has already =
     (if \<not> endgame_active k then (None, k)
      else case next_endgame_piece k peer_has already of
        None \<Rightarrow> (None, k)
      | Some piece \<Rightarrow>
          (case map_of (in_progress k) piece of
             None \<Rightarrow> (None, k)
           | Some st \<Rightarrow>
               (case next_requested_not_received st already piece of
                  None \<Rightarrow> (None, k)
                | Some block_idx \<Rightarrow>
                    let st' = mark_requested st block_idx in
                    (Some (block_request_for st' piece block_idx),
                     k\<lparr>in_progress := AList.update piece st' (in_progress k)\<rparr>))))"

subsection \<open>Progress\<close>

definition block_index :: "u32 \<Rightarrow> nat" where
  "block_index begin_off = unat (begin_off div PICK_BLOCK_SIZE)"

definition block_received :: "piece_picker \<Rightarrow> nat \<Rightarrow> u32 \<Rightarrow> bool \<times> piece_picker" where
  "block_received k piece begin_off =
     (case map_of (in_progress k) piece of
        None \<Rightarrow> (False, k)
      | Some st \<Rightarrow>
          let st' = mark_received st (block_index begin_off);
              k1 = k\<lparr>in_progress := AList.update piece st' (in_progress k)\<rparr> in
          if state_complete st' then
            let k2 = remove_in_progress k1 piece;
                old_wanted = wanted k2 ! piece; en = enabled k2 ! piece;
                k3 = k2\<lparr>wanted := (wanted k2)[piece := False]\<rparr> in
            (True, adjust_outstanding k3 piece old_wanted en False en)
          else (False, k1))"

definition is_piece_in_progress :: "piece_picker \<Rightarrow> nat \<Rightarrow> bool" where
  "is_piece_in_progress k piece \<longleftrightarrow> map_of (in_progress k) piece \<noteq> None"

definition is_block_received :: "piece_picker \<Rightarrow> nat \<Rightarrow> u32 \<Rightarrow> bool" where
  "is_block_received k piece begin_off =
     (case map_of (in_progress k) piece of
        None \<Rightarrow> False
      | Some st \<Rightarrow> get_or False (received st) (block_index begin_off))"

definition cancel_request :: "piece_picker \<Rightarrow> nat \<Rightarrow> u32 \<Rightarrow> piece_picker" where
  "cancel_request k piece begin_off =
     (let i = block_index begin_off in
      case map_of (in_progress k) piece of
        None \<Rightarrow> k
      | Some st \<Rightarrow>
          if i < length (requested st)
          then k\<lparr>in_progress := AList.update piece
                   (st\<lparr>requested := (requested st)[i := saturating_sub (requested st ! i) 1]\<rparr>) (in_progress k)\<rparr>
          else k)"

definition reset_outstanding_requests :: "piece_picker \<Rightarrow> piece_picker" where
  "reset_outstanding_requests k =
     k\<lparr>in_progress := map (\<lambda>(p, st). (p, st\<lparr>requested := replicate (length (requested st)) 0\<rparr>)) (in_progress k)\<rparr>"

definition picker_complete :: "piece_picker \<Rightarrow> bool" where
  "picker_complete k \<longleftrightarrow> outstanding_wanted k = 0"

definition remaining_pieces :: "piece_picker \<Rightarrow> nat" where
  "remaining_pieces k = outstanding_wanted k"

definition block_bytes :: "piece_state \<Rightarrow> nat \<Rightarrow> u64" where
  "block_bytes st i = u64_from (min (saturating_sub (piece_length st) (of_nat i * PICK_BLOCK_SIZE)) PICK_BLOCK_SIZE)"

definition received_bytes :: "piece_state \<Rightarrow> u64" where
  "received_bytes st =
     fold (\<lambda>(i, _) acc. saturating_add acc (block_bytes st i)) (filter snd (enumerate 0 (received st))) 0"

definition bytes_left :: "piece_picker \<Rightarrow> u64" where
  "bytes_left k =
     (let left = sum_list (map (\<lambda>(piece, _). u64_from (piece_length_for k piece))
            (filter (\<lambda>(piece, w). w \<and> enabled k ! piece) (enumerate 0 (wanted k)))) in
      fold (\<lambda>(piece, st) left.
        if piece < pick_count k \<and> wanted k ! piece \<and> enabled k ! piece
        then saturating_sub left (received_bytes st) else left) (in_progress k) left)"

definition have_pieces :: "piece_picker \<Rightarrow> bool list" where
  "have_pieces k = map Not (wanted k)"

definition partial_pieces_limited :: "piece_picker \<Rightarrow> nat \<Rightarrow> (u32 \<times> u32 list) list" where
  "partial_pieces_limited k max_blocks_per_piece =
     sort_key fst (filter (\<lambda>(_, blocks). blocks \<noteq> [])
       (map (\<lambda>(piece, st). (of_nat piece, received_blocks_limited st max_blocks_per_piece)) (in_progress k)))"

definition partial_pieces :: "piece_picker \<Rightarrow> (u32 \<times> u32 list) list" where
  "partial_pieces k = partial_pieces_limited k (2 ^ 64 - 1)"

subsection \<open>The invariant\<close>

definition state_ok :: "u32 \<Rightarrow> piece_state \<Rightarrow> bool" where
  "state_ok len st \<longleftrightarrow> piece_length st = len \<and> length (requested st) = n_blocks len \<and> length (received st) = n_blocks len"

definition outstanding :: "piece_picker \<Rightarrow> nat \<Rightarrow> bool" where
  "outstanding k p \<longleftrightarrow> p < pick_count k \<and> wanted k ! p \<and> enabled k ! p"

definition shape_ok :: "piece_picker \<Rightarrow> bool" where
  "shape_ok k \<longleftrightarrow> length (wanted k) = pick_count k \<and> length (enabled k) = pick_count k \<and> length (priority k) = pick_count k \<and>
     pick_count k \<le> 2 ^ 32 \<and> default_piece_length k \<noteq> 0 \<and> last_piece_length k \<noteq> 0"

definition follows :: "piece_picker \<Rightarrow> (nat \<Rightarrow> bool) \<Rightarrow> bool" where
  "follows k out \<longleftrightarrow> availability_ok (avail_map k) \<and> length (counts (avail_map k)) = pick_count k \<and>
     (\<forall>q. live (avail_map k) q \<longleftrightarrow> q < pick_count k \<and> out q) \<and> outstanding_wanted k = card {q. q < pick_count k \<and> out q}"

definition state_bytes :: "(nat \<times> piece_state) list \<Rightarrow> nat" where
  "state_bytes ip = sum_list (map (\<lambda>(_, st). piece_state_memory_bytes (piece_length st)) ip)"

definition progress_ok :: "piece_picker \<Rightarrow> bool" where
  "progress_ok k \<longleftrightarrow> distinct (map fst (in_progress k)) \<and>
     (\<forall>p st. map_of (in_progress k) p = Some st \<longrightarrow>
        outstanding k p \<and> state_ok (piece_length_for k p) st \<and> \<not> state_complete st) \<and>
     in_progress_bytes k = state_bytes (in_progress k) \<and> in_progress_bytes k \<le> MAX_IN_PROGRESS_PIECE_STATE_BYTES \<and>
     length (in_progress k) \<le> MAX_IN_PROGRESS_PIECES"

definition picker_ok :: "piece_picker \<Rightarrow> bool" where
  "picker_ok k \<longleftrightarrow> shape_ok k \<and> follows k (outstanding k) \<and> progress_ok k"

lemma picker_ok_new:
  assumes "n \<le> 2 ^ 32" "dl \<noteq> 0" "ll \<noteq> 0"
  shows "picker_ok (picker_new n dl ll)"
  using assms availability_ok_new [OF assms(1)]
  by (auto simp: picker_ok_def shape_ok_def follows_def progress_ok_def picker_new_def outstanding_def state_bytes_def
      live_def get_or_def availability_new_def MAX_IN_PROGRESS_PIECE_STATE_BYTES_def cong: conj_cong)

subsubsection \<open>Wanted pieces and the walk\<close>

lemma card_upd_True: "p < (n :: nat) \<Longrightarrow> \<not> out p \<Longrightarrow> card {q. q < n \<and> (out(p := True)) q} = card {q. q < n \<and> out q} + 1"
proof -
  assume p: "p < n" "\<not> out p"
  have "{q. q < n \<and> (out(p := True)) q} = insert p {q. q < n \<and> out q}" using p by auto
  moreover have "finite {q. q < n \<and> out q}" by (rule finite_subset [of _ "{..<n}"]) auto
  ultimately show ?thesis using p by (simp add: card_insert_disjoint del: fun_upd_apply)
qed

lemma card_upd_False: "p < (n :: nat) \<Longrightarrow> out p \<Longrightarrow> card {q. q < n \<and> (out(p := False)) q} = card {q. q < n \<and> out q} - 1"
proof -
  assume p: "p < n" "out p"
  have "{q. q < n \<and> (out(p := False)) q} = {q. q < n \<and> out q} - {p}" by auto
  then show ?thesis using p by (simp add: card_Diff_singleton del: fun_upd_apply)
qed

lemma card_below: "card {q. q < (n :: nat) \<and> P q} \<le> n"
  using card_mono [of "{..<n}" "{q. q < n \<and> P q}"] by auto

lemma adjust_same [simp]:
  "pick_count (adjust_outstanding k p ow oe nw ne) = pick_count k"
  "wanted (adjust_outstanding k p ow oe nw ne) = wanted k" "enabled (adjust_outstanding k p ow oe nw ne) = enabled k"
  "priority (adjust_outstanding k p ow oe nw ne) = priority k"
  "in_progress (adjust_outstanding k p ow oe nw ne) = in_progress k"
  "in_progress_bytes (adjust_outstanding k p ow oe nw ne) = in_progress_bytes k"
  "default_piece_length (adjust_outstanding k p ow oe nw ne) = default_piece_length k"
  "last_piece_length (adjust_outstanding k p ow oe nw ne) = last_piece_length k"
  by (simp_all add: adjust_outstanding_def Let_def)

lemma adjust_follows:
  assumes f: "follows k out" and p: "p < pick_count k" "out p \<longleftrightarrow> ow \<and> oe" and n: "pick_count k \<le> 2 ^ 32"
  shows "follows (adjust_outstanding k p ow oe nw ne) (out(p := nw \<and> ne))"
proof -
  let ?a = "avail_map k"
  have a: "availability_ok ?a" "p < length (counts ?a)" "\<forall>q. live ?a q \<longleftrightarrow> q < length (counts ?a) \<and> out q"
    using f p by (simp_all add: follows_def)
  have len: "length (counts ?a) = pick_count k" and card: "outstanding_wanted k = card {q. q < pick_count k \<and> out q}"
    using f by (simp_all add: follows_def)
  consider (up) "nw \<and> ne" "\<not> (ow \<and> oe)" | (down) "\<not> (nw \<and> ne)" "ow \<and> oe" | (same) "(nw \<and> ne) = (ow \<and> oe)" by blast
  then show ?thesis
  proof cases
    case up
    have "outstanding_wanted k + 1 \<le> pick_count k"
      using card card_upd_True [of p "pick_count k" out] card_below [of "pick_count k" "out(p := True)"] up p by simp
    then have "usize_sat_add (outstanding_wanted k) 1 = outstanding_wanted k + 1" using n by (simp add: usize_sat_add_def)
    moreover have "out(p := nw \<and> ne) = out(p := True)" using up by simp
    ultimately show ?thesis using avail.put_back_follows [OF a] len card card_upd_True [of p "pick_count k" out] up p
      by (simp add: follows_def adjust_outstanding_def del: fun_upd_apply)
  next
    case down
    then have eq: "out(p := nw \<and> ne) = out(p := False)" by auto
    show ?thesis unfolding eq using avail.take_out_follows [OF a] len card card_upd_False [of p "pick_count k" out] p down
      by (simp add: follows_def adjust_outstanding_def del: fun_upd_apply)
  next
    case same
    then show ?thesis using f p by (auto simp: adjust_outstanding_def Let_def fun_upd_idem)
  qed
qed

subsubsection \<open>Pieces in progress\<close>

lemma state_bytes_simps [simp]:
  "state_bytes [] = 0" "state_bytes ((p, st) # ip) = piece_state_memory_bytes (piece_length st) + state_bytes ip"
  by (simp_all add: state_bytes_def)

lemma state_bytes_update_same:
  "map_of ip p = Some st \<Longrightarrow> piece_length st' = piece_length st \<Longrightarrow> state_bytes (AList.update p st' ip) = state_bytes ip"
  by (induction ip) (auto split: if_splits)

lemma length_update_same: "map_of ip p = Some st \<Longrightarrow> length (AList.update p st' ip) = length ip"
  by (induction ip) (auto split: if_splits)

lemma update_new: "map_of ip p = None \<Longrightarrow> AList.update p st ip = ip @ [(p, st)]"
  by (induction ip) (auto split: if_splits)

lemma delete_absent: "p \<notin> fst ` set ip \<Longrightarrow> AList.delete p ip = ip"
  by (induction ip) auto

lemma state_bytes_delete:
  "distinct (map fst ip) \<Longrightarrow> map_of ip p = Some st \<Longrightarrow>
     state_bytes ip = piece_state_memory_bytes (piece_length st) + state_bytes (AList.delete p ip) \<and>
     length ip = Suc (length (AList.delete p ip))"
proof (induction ip)
  case (Cons e ip)
  obtain q s where e: "e = (q, s)" by fastforce
  show ?case
  proof (cases "q = p")
    case True
    then show ?thesis using Cons.prems e delete_absent [of p ip] by simp
  qed (use Cons e in simp)
qed simp

text \<open>All entries but that of \<open>p\<close> are as they should be.\<close>

definition progress_but :: "nat \<Rightarrow> piece_picker \<Rightarrow> bool" where
  "progress_but p k \<longleftrightarrow> distinct (map fst (in_progress k)) \<and>
     (\<forall>q st. map_of (in_progress k) q = Some st \<and> q \<noteq> p \<longrightarrow>
        outstanding k q \<and> state_ok (piece_length_for k q) st \<and> \<not> state_complete st) \<and>
     in_progress_bytes k = state_bytes (in_progress k) \<and> in_progress_bytes k \<le> MAX_IN_PROGRESS_PIECE_STATE_BYTES \<and>
     length (in_progress k) \<le> MAX_IN_PROGRESS_PIECES"

lemma progress_but_ok: "progress_ok k \<longleftrightarrow> progress_but p k \<and> (\<forall>st. map_of (in_progress k) p = Some st \<longrightarrow>
    outstanding k p \<and> state_ok (piece_length_for k p) st \<and> \<not> state_complete st)"
  by (auto simp: progress_ok_def progress_but_def)

lemma progress_but_mono:
  assumes "progress_but p k" "in_progress k' = in_progress k" "in_progress_bytes k' = in_progress_bytes k"
    "\<And>q. q \<noteq> p \<Longrightarrow> outstanding k q \<Longrightarrow> outstanding k' q" "\<And>q. piece_length_for k' q = piece_length_for k q"
  shows "progress_but p k'"
  using assms by (auto simp: progress_but_def)

lemma progress_ok_mono:
  assumes "progress_ok k" "in_progress k' = in_progress k" "in_progress_bytes k' = in_progress_bytes k"
    "\<And>q. outstanding k q \<Longrightarrow> outstanding k' q" "\<And>q. piece_length_for k' q = piece_length_for k q"
  shows "progress_ok k'"
  using assms by (auto simp: progress_ok_def)

lemma remove_same [simp]:
  "pick_count (remove_in_progress k p) = pick_count k" "wanted (remove_in_progress k p) = wanted k"
  "enabled (remove_in_progress k p) = enabled k" "priority (remove_in_progress k p) = priority k"
  "avail_map (remove_in_progress k p) = avail_map k" "outstanding_wanted (remove_in_progress k p) = outstanding_wanted k"
  "default_piece_length (remove_in_progress k p) = default_piece_length k"
  "last_piece_length (remove_in_progress k p) = last_piece_length k"
  by (simp_all add: remove_in_progress_def split: option.splits)

lemma map_of_remove: "distinct (map fst (in_progress k)) \<Longrightarrow>
  map_of (in_progress (remove_in_progress k p)) q = (if q = p then None else map_of (in_progress k) q)"
  by (auto simp: remove_in_progress_def delete_conv split: option.splits)

lemma outstanding_cong:
  "wanted k' = wanted k \<Longrightarrow> enabled k' = enabled k \<Longrightarrow> pick_count k' = pick_count k \<Longrightarrow> outstanding k' = outstanding k"
  by (auto simp: outstanding_def fun_eq_iff)

lemma length_for_cong:
  "pick_count k' = pick_count k \<Longrightarrow> default_piece_length k' = default_piece_length k \<Longrightarrow>
     last_piece_length k' = last_piece_length k \<Longrightarrow> piece_length_for k' = piece_length_for k"
  by (auto simp: piece_length_for_def fun_eq_iff)

lemma remove_progress:
  assumes "progress_but p k"
  shows "progress_ok (remove_in_progress k p)"
proof -
  let ?k = "remove_in_progress k p"
  have d: "distinct (map fst (in_progress k))" using assms by (simp add: progress_but_def)
  note eqs = outstanding_cong [of ?k k] length_for_cong [of ?k k] map_of_remove [OF d, of p]
  show ?thesis
  proof (cases "map_of (in_progress k) p")
    case None
    then have "?k = k" by (simp add: remove_in_progress_def)
    then show ?thesis using assms None by (simp add: progress_but_ok [of k p])
  next
    case (Some st)
    then have "in_progress ?k = AList.delete p (in_progress k)"
      "in_progress_bytes ?k = in_progress_bytes k - piece_state_memory_bytes (piece_length st)"
      by (simp_all add: remove_in_progress_def)
    then show ?thesis using assms eqs state_bytes_delete [OF d Some] d
      by (auto simp: progress_ok_def progress_but_def distinct_delete)
  qed
qed

lemma progress_okD:
  "progress_ok k \<Longrightarrow> map_of (in_progress k) p = Some st \<Longrightarrow>
     outstanding k p \<and> state_ok (piece_length_for k p) st \<and> \<not> state_complete st"
  by (simp add: progress_ok_def)

lemma progress_ok_put:
  assumes ok: "progress_ok k" and out: "outstanding k p" and st: "state_ok (piece_length_for k p) st" "\<not> state_complete st"
    and bytes: "b = state_bytes (AList.update p st (in_progress k))" "b \<le> MAX_IN_PROGRESS_PIECE_STATE_BYTES"
    and len: "length (AList.update p st (in_progress k)) \<le> MAX_IN_PROGRESS_PIECES"
  shows "progress_ok (k\<lparr>in_progress := AList.update p st (in_progress k), in_progress_bytes := b\<rparr>)" (is "progress_ok ?k")
proof -
  have eq: "outstanding ?k = outstanding k" "piece_length_for ?k = piece_length_for k"
    by (rule outstanding_cong length_for_cong; simp)+
  have "outstanding k q \<and> state_ok (piece_length_for k q) s \<and> \<not> state_complete s"
    if "map_of (AList.update p st (in_progress k)) q = Some s" for q s
  proof (cases "q = p")
    case True
    then show ?thesis using that out st by (simp add: update_conv)
  next
    case False
    then show ?thesis using that progress_okD [OF ok, of q s] by (simp add: update_conv)
  qed
  then show ?thesis unfolding progress_ok_def eq using ok bytes len
    by (simp add: distinct_update progress_ok_def)
qed

lemma update_progress:
  assumes ok: "progress_ok k" and st: "map_of (in_progress k) p = Some st"
    and st': "state_ok (piece_length_for k p) st'" "\<not> state_complete st'"
  shows "progress_ok (k\<lparr>in_progress := AList.update p st' (in_progress k)\<rparr>)"
proof -
  have "piece_length st' = piece_length st" using progress_okD [OF ok st] st'(1) by (simp add: state_ok_def)
  then have "progress_ok (k\<lparr>in_progress := AList.update p st' (in_progress k), in_progress_bytes := in_progress_bytes k\<rparr>)"
    using ok state_bytes_update_same [OF st] length_update_same [OF st] progress_okD [OF ok st] st'
    by (intro progress_ok_put [OF ok]) (simp_all add: progress_ok_def)
  then show ?thesis by simp
qed

lemma insert_progress:
  assumes ok: "progress_ok k" and new: "map_of (in_progress k) p = None" and out: "outstanding k p"
    and adm: "can_admit_piece_state k (piece_length_for k p)"
    and st: "state_ok (piece_length_for k p) st" "\<not> state_complete st"
  shows "progress_ok (k\<lparr>in_progress := AList.update p st (in_progress k),
    in_progress_bytes := usize_sat_add (in_progress_bytes k) (piece_state_memory_bytes (piece_length_for k p))\<rparr>)"
proof (rule progress_ok_put [OF ok out st])
  have "usize_sat_add (in_progress_bytes k) (piece_state_memory_bytes (piece_length_for k p)) =
      in_progress_bytes k + piece_state_memory_bytes (piece_length_for k p)"
    using adm by (simp add: usize_sat_add_def can_admit_piece_state_def)
  then show "usize_sat_add (in_progress_bytes k) (piece_state_memory_bytes (piece_length_for k p)) =
      state_bytes (AList.update p st (in_progress k))"
    using ok st(1) by (simp add: update_new [OF new] state_bytes_def state_ok_def progress_ok_def)
  show "usize_sat_add (in_progress_bytes k) (piece_state_memory_bytes (piece_length_for k p)) \<le> MAX_IN_PROGRESS_PIECE_STATE_BYTES"
    using adm by (simp add: usize_sat_add_def can_admit_piece_state_def)
  show "length (AList.update p st (in_progress k)) \<le> MAX_IN_PROGRESS_PIECES"
    using adm by (simp add: update_new [OF new] can_admit_piece_state_def)
qed

subsubsection \<open>Every operation keeps the invariant\<close>

lemma piece_length_nonzero: "shape_ok k \<Longrightarrow> piece_length_for k p \<noteq> 0"
  by (simp add: shape_ok_def piece_length_for_def)

lemma n_blocks_eq: "n_blocks len = (unat len + 16383) div 16384"
  by (simp add: n_blocks_def PICK_BLOCK_SIZE_def unat_div_ceil)

lemma n_blocks_pos: "len \<noteq> 0 \<Longrightarrow> 0 < n_blocks len"
  using unat_gt_0 [of len] by (simp add: n_blocks_eq)

lemma state_new_ok: "len \<noteq> 0 \<Longrightarrow> state_ok len (piece_state_new len) \<and> \<not> state_complete (piece_state_new len)"
  using n_blocks_pos [of len] by (simp add: state_ok_def piece_state_new_def state_complete_def list_all_length) blast

lemma mark_requested_ok:
  "state_ok len st \<Longrightarrow> state_ok len (mark_requested st i)" "received (mark_requested st i) = received st"
  "piece_length (mark_requested st i) = piece_length st"
  by (simp_all add: state_ok_def mark_requested_def)

lemma mark_received_ok: "state_ok len st \<Longrightarrow> state_ok len (mark_received st i)"
  by (simp add: state_ok_def mark_received_def Let_def)

lemma shape_follows_cong:
  assumes "shape_ok k" "pick_count k' = pick_count k" "length (wanted k') = length (wanted k)"
    "length (enabled k') = length (enabled k)" "length (priority k') = length (priority k)"
    "default_piece_length k' = default_piece_length k" "last_piece_length k' = last_piece_length k"
  shows "shape_ok k'"
  using assms by (simp add: shape_ok_def)

lemma follows_cong:
  assumes "follows k out" "avail_map k' = avail_map k" "outstanding_wanted k' = outstanding_wanted k" "pick_count k' = pick_count k"
  shows "follows k' out"
  using assms by (simp add: follows_def)

text \<open>Changing the flags of one piece and adjusting, for \<open>mark_have\<close>, \<open>reject_piece\<close> and \<open>set_piece_enabled\<close>.\<close>

lemma flags_changed:
  assumes ok: "picker_ok k" and p: "p < pick_count k"
    and k1: "k1 = k\<lparr>wanted := (wanted k)[p := w], enabled := (enabled k)[p := e]\<rparr>"
    and k2: "k2 = adjust_outstanding k1 p (wanted k ! p) (enabled k ! p) w e"
  shows "shape_ok k2" "follows k2 (outstanding k2)" "progress_but p k2" "wanted k ! p \<and> enabled k ! p \<longrightarrow> w \<and> e \<Longrightarrow> progress_ok k2"
proof -
  have sh: "shape_ok k" and fl: "follows k (outstanding k)" and pr: "progress_ok k" using ok by (simp_all add: picker_ok_def)
  have lens: "length (wanted k) = pick_count k" "length (enabled k) = pick_count k" using sh by (simp_all add: shape_ok_def)
  show "shape_ok k2" by (rule shape_follows_cong [OF sh]) (simp_all add: k2 k1)
  have out: "outstanding k2 = (outstanding k)(p := w \<and> e)"
    using p lens by (auto simp: k2 k1 outstanding_def fun_eq_iff nth_list_update)
  have "follows k1 (outstanding k)" by (rule follows_cong [OF fl]) (simp_all add: k1)
  then have "follows k2 ((outstanding k)(p := w \<and> e))" unfolding k2
    by (rule adjust_follows) (use p sh in \<open>simp_all add: k1 outstanding_def shape_ok_def\<close>)
  then show "follows k2 (outstanding k2)" by (simp add: out)
  have pl: "piece_length_for k2 q = piece_length_for k q" for q by (simp add: k2 k1 piece_length_for_def)
  have "progress_but p k" using pr by (simp add: progress_but_ok [of k p])
  then show "progress_but p k2"
    by (rule progress_but_mono) (simp_all add: pl out, simp_all add: k2 k1)
  show "progress_ok k2" if "wanted k ! p \<and> enabled k ! p \<longrightarrow> w \<and> e"
  proof (rule progress_ok_mono [OF pr])
    show "outstanding k2 q" if "outstanding k q" for q
      using that \<open>wanted k ! p \<and> enabled k ! p \<longrightarrow> w \<and> e\<close> by (auto simp: out outstanding_def)
  qed (simp_all add: pl, simp_all add: k2 k1)
qed

lemma removed_ok: "shape_ok k \<Longrightarrow> follows k (outstanding k) \<Longrightarrow> progress_but p k \<Longrightarrow> picker_ok (remove_in_progress k p)"
proof -
  assume a: "shape_ok k" "follows k (outstanding k)" "progress_but p k"
  have "outstanding (remove_in_progress k p) = outstanding k" by (rule outstanding_cong) simp_all
  moreover have "follows (remove_in_progress k p) (outstanding k)" by (rule follows_cong [OF a(2)]) simp_all
  moreover have "shape_ok (remove_in_progress k p)" by (rule shape_follows_cong [OF a(1)]) simp_all
  ultimately show ?thesis using remove_progress [OF a(3)] by (simp add: picker_ok_def)
qed

lemma mark_have_ok: "picker_ok k \<Longrightarrow> picker_ok (mark_have k p)"
proof (cases "p < pick_count k")
  case True
  assume ok: "picker_ok k"
  note f = flags_changed [OF ok True refl refl, where w = False and e = "enabled k ! p"]
  show ?thesis using removed_ok [OF f(1,2,3)] True by (simp add: mark_have_def Let_def)
qed (simp add: mark_have_def)

lemma reject_piece_ok: "picker_ok k \<Longrightarrow> picker_ok (reject_piece k p)"
proof (cases "p < pick_count k")
  case True
  assume ok: "picker_ok k"
  note f = flags_changed [OF ok True refl refl, where w = True and e = "enabled k ! p"]
  show ?thesis using removed_ok [OF f(1,2,3)] True by (simp add: reject_piece_def Let_def)
qed (simp add: reject_piece_def)

lemma set_piece_enabled_ok: "picker_ok k \<Longrightarrow> picker_ok (set_piece_enabled k p e)"
proof (cases "p < pick_count k")
  case True
  assume ok: "picker_ok k"
  note f = flags_changed [OF ok True refl refl, where w = "wanted k ! p" and e = e]
  show ?thesis using removed_ok [OF f(1,2,3)] f True by (cases e) (simp_all add: set_piece_enabled_def Let_def picker_ok_def)
qed (simp add: set_piece_enabled_def)

lemma position_Some: "position P xs = Some i \<longleftrightarrow> i < length xs \<and> P (xs ! i) \<and> (\<forall>j < i. \<not> P (xs ! j))"
proof (induction xs arbitrary: i)
  case (Cons x xs)
  show ?case
  proof (cases i)
    case 0
    then show ?thesis by auto
  next
    case (Suc j)
    then show ?thesis using Cons.IH [of j] by (simp add: All_less_Suc2)
  qed
qed simp

lemma position_None: "position P xs = None \<longleftrightarrow> (\<forall>x \<in> set xs. \<not> P x)"
  by (induction xs) auto

lemma next_unrequested_Some:
  assumes "state_ok len st" "next_unrequested st = Some i"
  shows "i < n_blocks len" "requested st ! i = 0" "\<not> received st ! i"
  using assms by (auto simp: next_unrequested_def position_Some state_ok_def)

lemma in_progress_ok:
  assumes "picker_ok k" "progress_ok (k\<lparr>in_progress := ip, in_progress_bytes := b\<rparr>)"
  shows "picker_ok (k\<lparr>in_progress := ip, in_progress_bytes := b\<rparr>)" (is "picker_ok ?k")
proof -
  have "outstanding ?k = outstanding k" by (rule outstanding_cong) simp_all
  moreover have "follows ?k (outstanding k)" using assms(1) by (rule_tac follows_cong [of k]) (simp_all add: picker_ok_def)
  moreover have "shape_ok ?k" using assms(1) by (rule_tac shape_follows_cong [of k]) (simp_all add: picker_ok_def)
  ultimately show ?thesis using assms(2) by (simp add: picker_ok_def)
qed

lemma put_state_ok:
  assumes "picker_ok k" "map_of (in_progress k) p = Some st" "state_ok (piece_length_for k p) st'" "\<not> state_complete st'"
  shows "picker_ok (k\<lparr>in_progress := AList.update p st' (in_progress k)\<rparr>)"
  using in_progress_ok [OF assms(1), where ip = "AList.update p st' (in_progress k)" and b = "in_progress_bytes k"]
    update_progress [OF _ assms(2-4)] assms(1) by (simp add: picker_ok_def)

text \<open>What \<open>pick_block_from\<close> does, for a piece that may be requested.\<close>

definition block_of :: "piece_picker \<Rightarrow> nat \<Rightarrow> nat \<Rightarrow> block_request \<Rightarrow> bool" where
  "block_of k p i r \<longleftrightarrow> i < n_blocks (piece_length_for k p) \<and> r = \<lparr>br_piece = of_nat p, br_begin = of_nat i * PICK_BLOCK_SIZE,
     br_length = min (saturating_sub (piece_length_for k p) (of_nat i * PICK_BLOCK_SIZE)) PICK_BLOCK_SIZE\<rparr>"

definition current_state :: "piece_picker \<Rightarrow> nat \<Rightarrow> piece_state" where
  "current_state k p = (case map_of (in_progress k) p of None \<Rightarrow> piece_state_new (piece_length_for k p) | Some st \<Rightarrow> st)"

lemma current_state_ok:
  assumes "picker_ok k" "outstanding k p"
  shows "state_ok (piece_length_for k p) (current_state k p)" "\<not> state_complete (current_state k p)"
proof -
  have nz: "piece_length_for k p \<noteq> 0" using assms(1) by (simp add: picker_ok_def piece_length_nonzero)
  show "state_ok (piece_length_for k p) (current_state k p)" "\<not> state_complete (current_state k p)"
    using progress_okD [of k p] assms(1) state_new_ok [OF nz]
    by (auto simp: picker_ok_def current_state_def split: option.split)
qed

lemma new_state_next: "len \<noteq> 0 \<Longrightarrow> next_unrequested (piece_state_new len) = Some 0"
  using n_blocks_pos [of len]
  by (cases "n_blocks len") (simp_all add: next_unrequested_def piece_state_new_def)

lemma requestable_next:
  assumes "picker_ok k" "piece_is_requestable k p"
  obtains i where "next_unrequested (current_state k p) = Some i" "outstanding k p"
proof -
  have nz: "piece_length_for k p \<noteq> 0" using assms(1) by (simp add: picker_ok_def piece_length_nonzero)
  show thesis using that assms(2) new_state_next [OF nz]
    by (auto simp: piece_is_requestable_def current_state_def outstanding_def split: option.splits)
qed

lemma pick_block_from_result:
  assumes ok: "picker_ok k" and req: "piece_is_requestable k p"
  shows "(map_of (in_progress k) p = None \<and> \<not> can_admit_piece_state k (piece_length_for k p) \<and> pick_block_from k p = (None, k)) \<or>
    (\<exists>i r k'. pick_block_from k p = (Some r, k') \<and> block_of k p i r \<and> next_unrequested (current_state k p) = Some i \<and>
       picker_ok k' \<and> map_of (in_progress k') p = Some (mark_requested (current_state k p) i) \<and>
       (\<forall>q. q \<noteq> p \<longrightarrow> map_of (in_progress k') q = map_of (in_progress k) q) \<and> wanted k' = wanted k \<and> enabled k' = enabled k)"
proof -
  obtain i where i: "next_unrequested (current_state k p) = Some i" and out: "outstanding k p"
    using requestable_next [OF ok req] .
  let ?st = "current_state k p" and ?st' = "mark_requested (current_state k p) i"
  let ?b = "if map_of (in_progress k) p = None
    then usize_sat_add (in_progress_bytes k) (piece_state_memory_bytes (piece_length_for k p)) else in_progress_bytes k"
  let ?k' = "k\<lparr>in_progress := AList.update p ?st' (in_progress k), in_progress_bytes := ?b\<rparr>"
  note st = current_state_ok [OF ok out]
  have st': "state_ok (piece_length_for k p) ?st'" "\<not> state_complete ?st'"
    using st by (simp_all add: mark_requested_ok state_complete_def)
  have blk: "block_of k p i (block_request_for ?st' p i)"
    using next_unrequested_Some(1) [OF st(1) i] st'(1) by (simp add: block_of_def block_request_for_def state_ok_def Let_def)
  have pr: "progress_ok k" using ok by (simp add: picker_ok_def)
  show ?thesis
  proof (cases "map_of (in_progress k) p = None \<and> \<not> can_admit_piece_state k (piece_length_for k p)")
    case True
    then show ?thesis using out by (simp add: pick_block_from_def outstanding_def)
  next
    case False
    have "progress_ok ?k'"
      using False insert_progress [OF pr _ out _ st'] update_progress [OF pr _ st']
      by (cases "map_of (in_progress k) p") simp_all
    then have "picker_ok ?k'" by (rule in_progress_ok [OF ok])
    moreover have "pick_block_from k p = (Some (block_request_for ?st' p i), ?k')"
      using False out i
      by (cases "map_of (in_progress k) p") (simp_all add: pick_block_from_def outstanding_def current_state_def Let_def)
    ultimately show ?thesis using blk i by (auto simp: update_conv')
  qed
qed

subsection \<open>What a pick returns\<close>

lemma block_of_bounds:
  assumes "block_of k p i r" "shape_ok k" "p < pick_count k"
  shows "unat (br_piece r) = p" "unat (br_begin r) = i * 16384" "0 < unat (br_length r)" "unat (br_length r) \<le> 16384"
    "unat (br_begin r) + unat (br_length r) \<le> unat (piece_length_for k p)"
proof -
  let ?len = "piece_length_for k p"
  have i: "i * 16384 < unat ?len" using assms(1) by (simp add: block_of_def n_blocks_eq) (simp add: less_eq_div_iff_mult_less_eq Suc_le_eq [symmetric])
  have len: "unat ?len < 2 ^ 32" by (rule order.strict_trans2 [OF unsigned_less]) simp
  have b: "unat (of_nat i * PICK_BLOCK_SIZE) = i * 16384"
    using i len by (simp add: PICK_BLOCK_SIZE_def unat_word_ariths unat_of_nat)
  then show "unat (br_begin r) = i * 16384" using assms(1) by (simp add: block_of_def)
  show "unat (br_piece r) = p" using assms by (simp add: block_of_def shape_ok_def)
  have l: "unat (br_length r) = min (unat ?len - i * 16384) 16384"
    using assms(1) b by (simp add: block_of_def min_def word_le_nat_alt unat_saturating_sub PICK_BLOCK_SIZE_def)
  then show "0 < unat (br_length r)" "unat (br_length r) \<le> 16384" using i by simp_all
  show "unat (br_begin r) + unat (br_length r) \<le> unat ?len" using l i \<open>unat (br_begin r) = i * 16384\<close> by simp
qed

lemma find_upt: "find P [0..<n] = Some p \<Longrightarrow> p < n \<and> P p"
  by (auto simp: find_Some_iff)

lemma sequential_order_set: "set (sequential_order k) = {..<pick_count k}"
  by (auto simp: sequential_order_def Let_def)

definition eligible :: "piece_picker \<Rightarrow> (nat \<Rightarrow> bool) \<Rightarrow> nat \<Rightarrow> bool" where
  "eligible k peer_has p \<longleftrightarrow> piece_is_requestable k p \<and> peer_has p"

lemma none_outstanding:
  assumes "picker_ok k" "outstanding_wanted k = 0"
  shows "\<not> outstanding k p"
proof
  assume "outstanding k p"
  then have "p \<in> {q. q < pick_count k \<and> outstanding k q}" by (simp add: outstanding_def)
  moreover have "finite {q. q < pick_count k \<and> outstanding k q}" by (rule finite_subset [of _ "{..<pick_count k}"]) auto
  ultimately have "card {q. q < pick_count k \<and> outstanding k q} \<noteq> 0" by auto
  then show False using assms by (auto simp: picker_ok_def follows_def)
qed

text \<open>The piece a pick goes to: a priority piece if there is one, else by the mode.\<close>

definition chosen :: "piece_picker \<Rightarrow> (nat \<Rightarrow> bool) \<Rightarrow> nat \<Rightarrow> bool" where
  "chosen k peer_has p \<longleftrightarrow> eligible k peer_has p \<and>
     (priority k ! p \<or> (\<forall>q. eligible k peer_has q \<longrightarrow> \<not> priority k ! q)) \<and>
     (\<not> priority k ! p \<and> \<not> sequential k \<longrightarrow> count (avail_map k) p \<noteq> 0 \<and>
        (\<forall>q. eligible k peer_has q \<and> count (avail_map k) q \<noteq> 0 \<longrightarrow> (count (avail_map k) p, p) \<le> (count (avail_map k) q, q)))"

lemma pick_choice:
  assumes ok: "picker_ok k"
  shows "(pick k ph = (None, k) \<and> (\<forall>p. eligible k ph p \<longrightarrow> \<not> priority k ! p \<and> \<not> sequential k \<and> count (avail_map k) p = 0)) \<or>
    (\<exists>p. chosen k ph p \<and> pick k ph = pick_block_from k p)"
proof -
  have el: "outstanding k p" if "eligible k ph p" for p
    using that by (simp add: eligible_def piece_is_requestable_def outstanding_def)
  have av: "availability_ok (avail_map k)" and lv: "live (avail_map k) p" if "outstanding k p" for p
    using ok that by (simp_all add: picker_ok_def follows_def) (simp add: outstanding_def)
  let ?pri = "find (\<lambda>p. priority k ! p \<and> eligible k ph p) [0..<pick_count k]"
  let ?seq = "find (eligible k ph) (sequential_order k)"
  let ?rare = "rarest_matching (avail_map k) (eligible k ph)"
  have pick_eq: "pick k ph = (if outstanding_wanted k = 0 then (None, k) else case ?pri of Some p \<Rightarrow> pick_block_from k p
      | None \<Rightarrow> case (if sequential k then ?seq else ?rare) of None \<Rightarrow> (None, k) | Some p \<Rightarrow> pick_block_from k p)"
    by (simp add: pick_def rarest_requestable_piece_def eligible_def [abs_def] option.case_eq_if)
  have small: "p < pick_count k" if "eligible k ph p" for p using el [OF that] by (simp add: outstanding_def)
  consider (none) "outstanding_wanted k = 0" | (pri) p where "outstanding_wanted k \<noteq> 0" "?pri = Some p"
    | (seq) "outstanding_wanted k \<noteq> 0" "?pri = None" "sequential k" | (rare) "outstanding_wanted k \<noteq> 0" "?pri = None" "\<not> sequential k"
    by (cases ?pri) auto
  then show ?thesis
  proof cases
    case none
    then show ?thesis using none_outstanding [OF ok none] el by (simp add: pick_eq) blast
  next
    case (pri p)
    then have "chosen k ph p" using find_upt [OF pri(2)] by (simp add: chosen_def)
    then show ?thesis using pri by (auto simp: pick_eq)
  next
    case seq
    have nopri: "\<not> priority k ! q" if "eligible k ph q" for q
      using seq(2) small [OF that] that by (auto simp: find_None_iff)
    show ?thesis
    proof (cases ?seq)
      case None
      then have "\<not> eligible k ph q" for q using small by (auto simp: find_None_iff sequential_order_set)
      then show ?thesis using seq None by (simp add: pick_eq)
    next
      case (Some p)
      then have "eligible k ph p" by (auto simp: find_Some_iff)
      then have "chosen k ph p" using nopri seq(3) by (simp add: chosen_def)
      then show ?thesis using seq Some by (auto simp: pick_eq)
    qed
  next
    case rare
    have nopri: "\<not> priority k ! q" if "eligible k ph q" for q
      using rare(2) small [OF that] that by (auto simp: find_None_iff)
    have a: "availability_ok (avail_map k)" using ok by (simp add: picker_ok_def follows_def)
    show ?thesis
    proof (cases ?rare)
      case None
      then have "count (avail_map k) q = 0" if "eligible k ph q" for q
        using that lv [OF el [OF that]] avail.search_None [OF a, of "eligible k ph"] by blast
      then show ?thesis using rare None nopri by (simp add: pick_eq)
    next
      case (Some p)
      have "chosen k ph p" using avail.search_Some [OF a Some] nopri lv el unfolding chosen_def by blast
      then show ?thesis using rare Some by (auto simp: pick_eq)
    qed
  qed
qed

lemma pick_block_from_ok: "picker_ok k \<Longrightarrow> piece_is_requestable k p \<Longrightarrow> picker_ok (snd (pick_block_from k p))"
  using pick_block_from_result [of k p] by auto

lemma pick_ok:
  assumes "picker_ok k"
  shows "picker_ok (snd (pick k ph))"
proof -
  consider "pick k ph = (None, k)" | p where "piece_is_requestable k p" "pick k ph = pick_block_from k p"
    using pick_choice [OF assms, of ph] by (auto simp: chosen_def eligible_def)
  then show ?thesis using assms pick_block_from_ok [OF assms] by cases auto
qed

lemma pick_from_seed_ok:
  assumes "picker_ok k"
  shows "picker_ok (snd (pick_from_seed k))"
proof -
  have "P p" if "find P xs = Some p" for P and xs :: "nat list" and p using that by (auto simp: find_Some_iff)
  then show ?thesis using assms pick_block_from_ok [OF assms]
    by (auto simp: pick_from_seed_def split: option.split dest!: find_upt)
qed

subsubsection \<open>The endgame\<close>

lemma next_requested_Some:
  assumes "state_ok len st" "next_requested_not_received st already p = Some i"
  shows "i < n_blocks len" "requested st ! i \<noteq> 0" "\<not> received st ! i" "block_request_for st p i \<notin> set already"
  using assms by (auto simp: next_requested_not_received_def position_Some state_ok_def nth_enumerate_eq)

lemma pick_endgame_result:
  assumes ok: "picker_ok k" and r: "pick_endgame k ph already = (Some r, k')"
  shows "\<exists>p i st. map_of (in_progress k) p = Some st \<and> outstanding k p \<and> ph p \<and> block_of k p i r \<and> r \<notin> set already \<and>
    requested st ! i \<noteq> 0 \<and> \<not> received st ! i \<and> picker_ok k'"
proof -
  obtain p st i where p: "next_endgame_piece k ph already = Some p" and st: "map_of (in_progress k) p = Some st"
    and i: "next_requested_not_received st already p = Some i"
    and res: "r = block_request_for (mark_requested st i) p i"
      "k' = k\<lparr>in_progress := AList.update p (mark_requested st i) (in_progress k)\<rparr>"
    using r by (auto simp: pick_endgame_def Let_def split: if_splits option.splits)
  have a: "availability_ok (avail_map k)" using ok by (simp add: picker_ok_def follows_def)
  have "endgame_candidate k ph already p"
    using p avail.search_Some [OF a, of _ p] unfolding next_endgame_piece_def
    by (auto split: option.splits if_splits dest: find_upt simp: find_Some_iff)
  then have ph: "ph p" by (simp add: endgame_candidate_def)
  have stok: "outstanding k p" "state_ok (piece_length_for k p) st" "\<not> state_complete st"
    using progress_okD [OF _ st] ok by (simp_all add: picker_ok_def)
  note n = next_requested_Some [OF stok(2) i]
  have "block_request_for (mark_requested st i) p i = block_request_for st p i"
    by (simp add: block_request_for_def mark_requested_ok)
  then have "block_of k p i r" "r \<notin> set already"
    using n(1,4) stok(2) res(1) by (auto simp: block_of_def block_request_for_def state_ok_def Let_def)
  moreover have "picker_ok k'" unfolding res(2)
    by (rule put_state_ok [OF ok st]) (use stok in \<open>simp_all add: mark_requested_ok state_complete_def\<close>)
  ultimately show ?thesis using st stok ph n by blast
qed

lemma pick_endgame_ok: "picker_ok k \<Longrightarrow> picker_ok (snd (pick_endgame k ph already))"
  using pick_endgame_result [of k ph already]
  by (cases "pick_endgame k ph already"; cases "fst (pick_endgame k ph already)")
    (auto simp: pick_endgame_def Let_def split: if_splits option.splits)

subsubsection \<open>Received, cancelled and restored blocks\<close>

lemma wanted_dropped:
  assumes ok: "picker_ok k" and p: "p < pick_count k" and none: "map_of (in_progress k) p = None"
  shows "picker_ok (adjust_outstanding (k\<lparr>wanted := (wanted k)[p := False]\<rparr>) p (wanted k ! p) (enabled k ! p) False (enabled k ! p))"
  using flags_changed [OF ok p refl refl, where w = False and e = "enabled k ! p"] none
  by (simp add: picker_ok_def progress_but_ok [of _ p])

lemma block_received_ok:
  assumes ok: "picker_ok k"
  shows "picker_ok (snd (block_received k p b))"
proof (cases "map_of (in_progress k) p")
  case None
  then show ?thesis using ok by (simp add: block_received_def)
next
  case (Some st)
  let ?st = "mark_received st (block_index b)" and ?k = "k\<lparr>in_progress := AList.update p (mark_received st (block_index b)) (in_progress k)\<rparr>"
  have out: "outstanding k p" and st: "state_ok (piece_length_for k p) st" using progress_okD [OF _ Some] ok by (simp_all add: picker_ok_def)
  note st' = mark_received_ok [OF st, of "block_index b"]
  show ?thesis
  proof (cases "state_complete ?st")
    case False
    then show ?thesis using put_state_ok [OF ok Some st'] Some by (simp add: block_received_def Let_def)
  next
    case True
    have pr: "progress_ok k" and sh: "shape_ok k" and fl: "follows k (outstanding k)" using ok by (simp_all add: picker_ok_def)
    have "piece_length ?st = piece_length st" using st st' by (simp add: state_ok_def)
    note bytes = state_bytes_update_same [OF Some this] length_update_same [OF Some, of ?st]
    have o: "outstanding ?k = outstanding k" and l: "piece_length_for ?k = piece_length_for k"
      by (rule outstanding_cong length_for_cong; simp)+
    have "progress_but p ?k" unfolding progress_but_def o l using pr bytes
      by (simp add: progress_ok_def distinct_update update_conv')
    moreover have "shape_ok ?k" by (rule shape_follows_cong [OF sh]) simp_all
    moreover have "follows ?k (outstanding ?k)" unfolding o by (rule follows_cong [OF fl]) simp_all
    ultimately have ok1: "picker_ok (remove_in_progress ?k p)" by (intro removed_ok)
    let ?k1 = "remove_in_progress ?k p"
    have p: "p < pick_count ?k1" using out by (simp add: outstanding_def)
    have none: "map_of (in_progress ?k1) p = None" using pr by (simp add: map_of_remove progress_ok_def distinct_update)
    show ?thesis using wanted_dropped [OF ok1 p none] True Some by (simp add: block_received_def Let_def)
  qed
qed

lemma cancel_request_ok:
  assumes ok: "picker_ok k"
  shows "picker_ok (cancel_request k p b)"
proof (cases "map_of (in_progress k) p")
  case (Some st)
  have st: "state_ok (piece_length_for k p) st" "\<not> state_complete st" using progress_okD [OF _ Some] ok by (simp_all add: picker_ok_def)
  show ?thesis using put_state_ok [OF ok Some] st ok Some
    by (simp add: cancel_request_def Let_def state_ok_def state_complete_def)
qed (use ok in \<open>simp add: cancel_request_def Let_def\<close>)

lemma restore_blocks_ok: "state_ok len st \<Longrightarrow> state_ok len (restore_blocks bs st)"
  unfolding restore_blocks_def by (induction bs arbitrary: st) (simp_all add: state_ok_def)

lemma restore_partial_ok:
  assumes ok: "picker_ok k"
  shows "picker_ok (restore_partial_piece k p bs)"
proof (cases "restore_partial_piece k p bs = k")
  case False
  let ?len = "piece_length_for k p" and ?st = "restore_blocks bs (piece_state_new (piece_length_for k p))"
  let ?k = "k\<lparr>in_progress := AList.update p ?st (in_progress k),
    in_progress_bytes := usize_sat_add (in_progress_bytes k) (piece_state_memory_bytes ?len)\<rparr>"
  have c: "outstanding k p" "map_of (in_progress k) p = None" "can_admit_piece_state k ?len" "\<not> state_complete ?st"
    and eq: "restore_partial_piece k p bs = ?k"
    using False by (auto simp: restore_partial_piece_def outstanding_def Let_def split: if_splits)
  have "?len \<noteq> 0" using ok by (simp add: picker_ok_def piece_length_nonzero)
  then have "state_ok ?len ?st" by (intro restore_blocks_ok) (simp add: state_new_ok)
  then have "progress_ok ?k" using insert_progress [OF _ c(2,1,3) _ c(4)] ok by (simp add: picker_ok_def)
  then show ?thesis unfolding eq by (rule in_progress_ok [OF ok])
qed (use ok in simp)

lemma reset_ok:
  assumes ok: "picker_ok k"
  shows "picker_ok (reset_outstanding_requests k)"
proof -
  let ?f = "\<lambda>st. st\<lparr>requested := replicate (length (requested st)) 0\<rparr>" and ?k = "reset_outstanding_requests k"
  have ip: "in_progress ?k = map (\<lambda>(p, st). (p, ?f st)) (in_progress k)" by (simp add: reset_outstanding_requests_def)
  have m: "map_of (in_progress ?k) p = map_option ?f (map_of (in_progress k) p)" for p
    unfolding ip by (simp add: map_of_map)
  have pr: "progress_ok k" using ok by (simp add: picker_ok_def)
  have eq: "outstanding ?k = outstanding k" "piece_length_for ?k = piece_length_for k"
    by (rule outstanding_cong length_for_cong; simp add: reset_outstanding_requests_def)+
  have "outstanding k p \<and> state_ok (piece_length_for k p) s \<and> \<not> state_complete s" if "map_of (in_progress ?k) p = Some s" for p s
    using that progress_okD [OF pr, of p] by (auto simp: m state_ok_def state_complete_def)
  moreover have "map fst (in_progress ?k) = map fst (in_progress k)" "state_bytes (in_progress ?k) = state_bytes (in_progress k)"
    "length (in_progress ?k) = length (in_progress k)"
    unfolding ip by (simp_all add: state_bytes_def comp_def case_prod_unfold)
  moreover have "in_progress_bytes ?k = in_progress_bytes k" by (simp add: reset_outstanding_requests_def)
  ultimately have "progress_ok ?k" unfolding progress_ok_def eq using pr by (simp add: progress_ok_def)
  then show ?thesis
    using in_progress_ok [OF ok, where ip = "in_progress ?k" and b = "in_progress_bytes k"]
    by (simp add: reset_outstanding_requests_def)
qed

lemma settings_ok:
  assumes ok: "picker_ok k" and len: "length flags = pick_count k"
  shows "picker_ok (k\<lparr>priority := flags, sequential := s, sequential_start_piece := i\<rparr>)" (is "picker_ok ?k")
proof -
  have "outstanding ?k = outstanding k" by (rule outstanding_cong) simp_all
  moreover have "follows ?k (outstanding k)" using ok by (rule_tac follows_cong [of k]) (simp_all add: picker_ok_def)
  moreover have "shape_ok ?k" using ok len by (simp add: picker_ok_def shape_ok_def)
  moreover have "progress_ok ?k"
    using ok by (rule_tac progress_ok_mono [of k]) (simp_all add: picker_ok_def outstanding_def piece_length_for_def)
  ultimately show ?thesis by (simp add: picker_ok_def)
qed

lemma set_flags_length: "length (fold (\<lambda>p flags. if p < length flags then flags[p := True] else flags) ps fs) = length fs"
  by (induction ps arbitrary: fs) simp_all

lemma settings_ops_ok:
  assumes "picker_ok k"
  shows "picker_ok (set_priority k ps)" "picker_ok (set_priority_mask k fs)" "picker_ok (set_sequential k b)"
    "picker_ok (set_sequential_from_piece k p)"
proof -
  have len: "length (priority k) = pick_count k" using assms by (simp add: picker_ok_def shape_ok_def)
  note s = settings_ok [OF assms, where s = "sequential k" and i = "sequential_start_piece k"]
  show "picker_ok (set_priority k ps)" using s by (simp add: set_priority_def set_flags_length)
  show "picker_ok (set_priority_mask k fs)" using s len by (simp add: set_priority_mask_def)
  show "picker_ok (set_sequential k b)"
    using settings_ok [OF assms len, where s = b and i = "sequential_start_piece k"] by (simp add: set_sequential_def)
  show "picker_ok (set_sequential_from_piece k p)"
    using settings_ok [OF assms len, where s = "sequential k" and i = "min p (pick_count k - 1)"] by (simp add: set_sequential_from_piece_def)
qed

lemma avail_upd_ok:
  assumes ok: "picker_ok k" and c: "counted g S (avail_map k) a"
  shows "picker_ok (k\<lparr>avail_map := a\<rparr>)" (is "picker_ok ?k")
proof -
  have "outstanding ?k = outstanding k" by (rule outstanding_cong) simp_all
  moreover have "follows ?k (outstanding k)" using ok c by (simp add: picker_ok_def follows_def counted_def)
  moreover have "shape_ok ?k" using ok by (simp add: picker_ok_def shape_ok_def)
  moreover have "progress_ok ?k"
    using ok by (rule_tac progress_ok_mono [of k]) (simp_all add: picker_ok_def outstanding_def piece_length_for_def)
  ultimately show ?thesis by (simp add: picker_ok_def)
qed

lemma have_counted: "\<exists>g S. counted g S a (add_have a p)" "\<exists>g S. counted g S a (remove_have a p)"
proof -
  have "counted (\<lambda>c. c) {} a (add_have a p)" "counted (\<lambda>c. c) {} a (remove_have a p)" if "\<not> p < length (counts a)"
    using that by (simp_all add: add_have_def remove_have_def counted_empty)
  then show "\<exists>g S. counted g S a (add_have a p)" "\<exists>g S. counted g S a (remove_have a p)"
    using counts_one_have unfolding counts_one_def by blast+
qed

subsection \<open>The history of a picker\<close>

text \<open>The calls the engine makes, in any order and with any arguments.\<close>

datatype picker_call =
    MarkHave nat | RejectPiece nat | SetEnabled nat bool | RestorePartial nat "u32 list" | SetPriority "nat list"
  | SetPriorityMask "bool list" | SetSequential bool | SetSequentialFrom nat | Pick "nat \<Rightarrow> bool" | PickFromSeed
  | PickEndgame "nat \<Rightarrow> bool" "block_request list" | BlockReceived nat u32 | CancelRequest nat u32 | ResetRequests
  | AddBitfield bytes | RemoveBitfield bytes | AddHave nat | RemoveHave nat

fun call :: "picker_call \<Rightarrow> piece_picker \<Rightarrow> piece_picker" where
  "call (MarkHave p) k = mark_have k p"
| "call (RejectPiece p) k = reject_piece k p"
| "call (SetEnabled p e) k = set_piece_enabled k p e"
| "call (RestorePartial p bs) k = restore_partial_piece k p bs"
| "call (SetPriority ps) k = set_priority k ps"
| "call (SetPriorityMask fs) k = set_priority_mask k fs"
| "call (SetSequential b) k = set_sequential k b"
| "call (SetSequentialFrom p) k = set_sequential_from_piece k p"
| "call (Pick ph) k = snd (pick k ph)"
| "call PickFromSeed k = snd (pick_from_seed k)"
| "call (PickEndgame ph already) k = snd (pick_endgame k ph already)"
| "call (BlockReceived p b) k = snd (block_received k p b)"
| "call (CancelRequest p b) k = cancel_request k p b"
| "call ResetRequests k = reset_outstanding_requests k"
| "call (AddBitfield bf) k = k\<lparr>avail_map := add_bitfield (avail_map k) bf\<rparr>"
| "call (RemoveBitfield bf) k = k\<lparr>avail_map := remove_bitfield (avail_map k) bf\<rparr>"
| "call (AddHave p) k = k\<lparr>avail_map := add_have (avail_map k) p\<rparr>"
| "call (RemoveHave p) k = k\<lparr>avail_map := remove_have (avail_map k) p\<rparr>"

lemma call_ok: "picker_ok k \<Longrightarrow> picker_ok (call c k)"
  using have_counted [of "avail_map k"]
  by (cases c) (auto simp: mark_have_ok reject_piece_ok set_piece_enabled_ok restore_partial_ok settings_ops_ok pick_ok
      pick_from_seed_ok pick_endgame_ok block_received_ok cancel_request_ok reset_ok intro: avail_upd_ok add_bitfield_counted)

lemma calls_ok: "n \<le> 2 ^ 32 \<Longrightarrow> dl \<noteq> 0 \<Longrightarrow> ll \<noteq> 0 \<Longrightarrow> picker_ok (fold call cs (picker_new n dl ll))"
proof -
  assume "n \<le> 2 ^ 32" "dl \<noteq> 0" "ll \<noteq> 0"
  then have "picker_ok (picker_new n dl ll)" by (rule picker_ok_new)
  then show ?thesis by (induction cs arbitrary: n rule: rev_induct) (simp_all add: call_ok)
qed

end
