(* ===== verification/Picker_Laws.thy ===== *)
theory Picker_Laws
  imports Piece_Picker
begin

text \<open>
  The properties of the block scheduler: what a pick and an endgame pick return after any calls, and
  the bytes left.
\<close>

subsection \<open>The bytes left\<close>

definition block_len :: "nat \<Rightarrow> nat \<Rightarrow> nat" where
  "block_len len i = min (len - i * 16384) 16384"

definition received_len :: "piece_state \<Rightarrow> nat" where
  "received_len st = (\<Sum>i < length (received st). if received st ! i then block_len (unat (piece_length st)) i else 0)"

lemma block_len_sum: "(\<Sum>i < m. block_len len i) = min len (m * 16384)"
  by (induction m) (auto simp: block_len_def min_def)

lemma n_blocks_bound: "n_blocks len \<le> 2 ^ 18" "i < n_blocks len \<Longrightarrow> i * 16384 < unat len"
proof -
  have "unat len < 2 ^ 32" by (rule order.strict_trans2 [OF unsigned_less]) simp
  then have "(unat len + 16383) div 16384 \<le> (2 ^ 32 - 1 + 16383) div 16384" by (intro div_le_mono) simp
  then show "n_blocks len \<le> 2 ^ 18" by (simp add: n_blocks_eq)
  show "i < n_blocks len \<Longrightarrow> i * 16384 < unat len"
    by (simp add: n_blocks_eq Suc_le_eq [symmetric] less_eq_div_iff_mult_less_eq)
qed

lemma unat_block_bytes:
  assumes "piece_length st = len" "i < n_blocks len"
  shows "unat (block_bytes st i) = block_len (unat len) i"
proof -
  have len: "unat len < 2 ^ 32" by (rule order.strict_trans2 [OF unsigned_less]) simp
  have "unat (of_nat i * PICK_BLOCK_SIZE) = i * 16384"
    using n_blocks_bound(2) [OF assms(2)] len by (simp add: PICK_BLOCK_SIZE_def unat_word_ariths unat_of_nat)
  then show ?thesis using assms(1)
    by (simp add: block_bytes_def block_len_def unat_u64_from min_def word_le_nat_alt unat_saturating_sub PICK_BLOCK_SIZE_def)
qed

lemma sum_list_enumerate: "sum_list (map h (enumerate 0 xs)) = (\<Sum>i < length xs. h (i, xs ! i) :: nat)"
  by (simp add: sum_list_sum_nth nth_enumerate_eq atLeast0LessThan)

lemma sum_list_filter_if: "sum_list (map h (filter P xs)) = (sum_list (map (\<lambda>x. if P x then h x else 0) xs) :: nat)"
  by (induction xs) auto

lemma fold_saturating_add:
  "unat acc + sum_list (map (\<lambda>x. unat (g x)) xs) < 2 ^ 64 \<Longrightarrow>
     unat (fold (\<lambda>x acc. saturating_add acc (g x :: u64)) xs acc) = unat acc + sum_list (map (\<lambda>x. unat (g x)) xs)"
proof (induction xs arbitrary: acc)
  case (Cons x xs)
  then have "unat (saturating_add acc (g x)) = unat acc + unat (g x)" by (simp add: unat_saturating_add)
  with Cons show ?case by simp
qed simp

lemma received_len_less:
  assumes "state_ok len st" "\<not> state_complete st"
  shows "received_len st < unat len"
proof -
  let ?f = "\<lambda>i. if received st ! i then block_len (unat len) i else 0" and ?N = "{..<n_blocks len}"
  obtain j where j: "j < n_blocks len" "\<not> received st ! j" using assms by (auto simp: state_complete_def list_all_length state_ok_def)
  have "received_len st = sum ?f ?N" using assms(1) by (auto simp: received_len_def state_ok_def)
  also have "\<dots> < sum (block_len (unat len)) ?N"
    by (rule sum_strict_mono_ex1) (use j n_blocks_bound(2) [OF j(1)] in \<open>auto simp: block_len_def intro!: bexI [of _ j]\<close>)
  also have "\<dots> \<le> unat len" by (simp add: block_len_sum)
  finally show ?thesis .
qed

lemma received_bytes_eq:
  assumes "state_ok len st" "\<not> state_complete st"
  shows "unat (received_bytes st) = received_len st"
proof -
  let ?xs = "filter snd (enumerate 0 (received st))"
  have sum: "sum_list (map (\<lambda>x. unat (block_bytes st (fst x))) ?xs) = received_len st"
    using assms(1) unat_block_bytes [of st len]
    by (simp add: sum_list_filter_if sum_list_enumerate received_len_def state_ok_def cong: if_cong)
  have "received_len st < 2 ^ 64"
    using received_len_less [OF assms] by (rule less_trans) (rule order.strict_trans2 [OF unsigned_less], simp)
  then show ?thesis using fold_saturating_add [of 0 "\<lambda>x. block_bytes st (fst x)" ?xs] sum
    by (simp add: received_bytes_def case_prod_unfold)
qed

lemma unat_sum_list: "sum_list (map unat xs) < 2 ^ 64 \<Longrightarrow> unat (sum_list xs) = sum_list (map unat (xs :: u64 list))"
proof (induction xs)
  case (Cons x xs)
  then have "unat (sum_list xs) = sum_list (map unat xs)" by simp
  then show ?case using Cons.prems by (simp add: unat_word_ariths)
qed simp

definition wanted_len :: "piece_picker \<Rightarrow> nat \<Rightarrow> nat" where
  "wanted_len k p = (if outstanding k p then unat (piece_length_for k p) else 0)"

lemma wanted_total:
  assumes "shape_ok k"
  shows "unat (sum_list (map (\<lambda>(p, _). u64_from (piece_length_for k p))
    (filter (\<lambda>(p, w). w \<and> enabled k ! p) (enumerate 0 (wanted k))))) = (\<Sum>p < pick_count k. wanted_len k p)" (is "unat (sum_list ?xs) = ?n")
proof -
  have n: "length (wanted k) = pick_count k" "pick_count k \<le> 2 ^ 32" using assms by (simp_all add: shape_ok_def)
  have "sum_list (map unat ?xs) = (\<Sum>p < pick_count k. if wanted k ! p \<and> enabled k ! p then unat (piece_length_for k p) else 0)"
    using n by (simp add: comp_def case_prod_unfold sum_list_filter_if sum_list_enumerate unat_u64_from cong: if_cong)
  also have "\<dots> = ?n" by (auto simp: wanted_len_def outstanding_def intro!: sum.cong)
  finally have s: "sum_list (map unat ?xs) = ?n" .
  have len: "unat (piece_length_for k p) \<le> 2 ^ 32 - 1" for p
  proof -
    have "unat (piece_length_for k p) < 2 ^ 32" by (rule order.strict_trans2 [OF unsigned_less]) simp
    then show ?thesis by simp
  qed
  have "?n \<le> (\<Sum>p < pick_count k. 2 ^ 32 - 1)" by (rule sum_mono) (use len in \<open>simp add: wanted_len_def\<close>)
  also have "\<dots> \<le> 2 ^ 32 * (2 ^ 32 - 1)" using n(2) by (simp only: sum_constant card_lessThan) simp
  also have "\<dots> < 2 ^ 64" by simp
  finally have "sum_list (map unat ?xs) < 2 ^ 64" using s by simp
  then show ?thesis using unat_sum_list s by simp
qed

lemma fold_received:
  assumes "\<forall>(p, st) \<in> set ip. outstanding k p \<and> unat (received_bytes st) = received_len st"
  shows "unat (fold (\<lambda>(p, st) left. if p < pick_count k \<and> wanted k ! p \<and> enabled k ! p
      then saturating_sub left (received_bytes st) else left) ip left) = unat left - sum_list (map (\<lambda>(p, st). received_len st) ip)"
  using assms
proof (induction ip arbitrary: left)
  case (Cons e ip)
  obtain p st where e: "e = (p, st)" by fastforce
  then show ?case using Cons by (auto simp: outstanding_def unat_saturating_sub)
qed simp

lemma received_total:
  assumes "picker_ok k"
  shows "sum_list (map (\<lambda>(p, st). received_len st) (in_progress k)) \<le> (\<Sum>p < pick_count k. wanted_len k p)"
proof -
  let ?ip = "in_progress k"
  have d: "distinct (map fst ?ip)" and pr: "progress_ok k" using assms by (simp_all add: picker_ok_def progress_ok_def)
  have e: "outstanding k p \<and> received_len st \<le> wanted_len k p" if "(p, st) \<in> set ?ip" for p st
  proof -
    have m: "map_of ?ip p = Some st" using that d by simp
    show ?thesis using progress_okD [OF pr m] received_len_less [of "piece_length_for k p" st] by (simp add: wanted_len_def)
  qed
  have "sum_list (map (\<lambda>(p, st). received_len st) ?ip) \<le> sum_list (map (wanted_len k) (map fst ?ip))"
    unfolding map_map by (rule sum_list_mono) (use e in auto)
  also have "\<dots> = (\<Sum>p \<in> set (map fst ?ip). wanted_len k p)" using d by (simp only: sum_list_distinct_conv_sum_set)
  also have "\<dots> \<le> (\<Sum>p < pick_count k. wanted_len k p)"
    by (rule sum_mono2) (use e in \<open>auto simp: outstanding_def\<close>)
  finally show ?thesis .
qed

lemma bytes_left_sum:
  assumes "picker_ok k"
  shows "unat (bytes_left k) + sum_list (map (\<lambda>(p, st). received_len st) (in_progress k)) = (\<Sum>p < pick_count k. wanted_len k p)"
proof -
  have pr: "progress_ok k" and d: "distinct (map fst (in_progress k))" and sh: "shape_ok k"
    using assms by (simp_all add: picker_ok_def progress_ok_def)
  have "\<forall>(p, st) \<in> set (in_progress k). outstanding k p \<and> unat (received_bytes st) = received_len st"
  proof (clarify, intro conjI)
    fix p st
    assume "(p, st) \<in> set (in_progress k)"
    then have m: "map_of (in_progress k) p = Some st" using d by simp
    show "outstanding k p" "unat (received_bytes st) = received_len st"
      using progress_okD [OF pr m] received_bytes_eq [of "piece_length_for k p" st] by simp_all
  qed
  from fold_received [OF this] wanted_total [OF sh] received_total [OF assms]
  show ?thesis by (simp add: bytes_left_def Let_def)
qed

subsection \<open>Properties\<close>

lemmas picker_run = pick_def picker_new_def add_bitfield_def upt_rec add_have_def availability_new_def get_or_def saturating_add_def
  bucket_insert_def bucket_remove_def insort_insert_key_def rarest_matching_def rarest_requestable_piece_def Let_def
  piece_is_requestable_def pick_block_from_def can_admit_piece_state_def MAX_IN_PROGRESS_PIECES_def
  piece_state_memory_bytes_def n_blocks_def div_ceil_def PICK_BLOCK_SIZE_def usize_sat_add_def usize_sat_mul_def
  MAX_IN_PROGRESS_PIECE_STATE_BYTES_def piece_state_new_def next_unrequested_def mark_requested_def
  block_request_for_def piece_length_for_def saturating_sub_def

text \<open>
  C36. Whatever the engine calls, in whatever order, the picker's counter of outstanding pieces is the
  number of pieces that are wanted and enabled, the states it keeps are those of such pieces that are
  not complete, and their number and estimated memory stay within the limits.
\<close>

theorem picker_invariant:
  assumes "n \<le> 2 ^ 32" "dl \<noteq> 0" "ll \<noteq> 0" "k = fold call cs (picker_new n dl ll)"
  shows "outstanding_wanted k = card {p. p < pick_count k \<and> wanted k ! p \<and> enabled k ! p} \<and>
    (\<forall>p st. map_of (in_progress k) p = Some st \<longrightarrow>
       p < pick_count k \<and> wanted k ! p \<and> enabled k ! p \<and> \<not> state_complete st) \<and>
    length (in_progress k) \<le> MAX_IN_PROGRESS_PIECES \<and>
    sum_list (map (\<lambda>(_, st). piece_state_memory_bytes (piece_length st)) (in_progress k)) \<le> MAX_IN_PROGRESS_PIECE_STATE_BYTES"
proof -
  have ok: "picker_ok k" unfolding assms(4) using assms(1-3) by (rule calls_ok)
  then have pr: "progress_ok k" and "outstanding_wanted k = card {q. q < pick_count k \<and> outstanding k q}"
    by (simp_all add: picker_ok_def follows_def)
  moreover have "{q. q < pick_count k \<and> outstanding k q} = {p. p < pick_count k \<and> wanted k ! p \<and> enabled k ! p}"
    by (auto simp: outstanding_def)
  moreover have "p < pick_count k \<and> wanted k ! p \<and> enabled k ! p \<and> \<not> state_complete st" if "map_of (in_progress k) p = Some st" for p st
    using progress_okD [OF pr that] by (simp add: outstanding_def)
  moreover have "length (in_progress k) \<le> MAX_IN_PROGRESS_PIECES" "state_bytes (in_progress k) \<le> MAX_IN_PROGRESS_PIECE_STATE_BYTES"
    using pr by (simp_all add: progress_ok_def)
  ultimately show ?thesis unfolding state_bytes_def by simp
qed

definition two_calls :: "picker_call list" where
  "two_calls = [AddBitfield [0xC0], Pick (\<lambda>_. True)]"

theorem picker_invariant_witness:
  "outstanding_wanted (fold call two_calls (picker_new 2 20000 100)) =
     card {p. p < pick_count (fold call two_calls (picker_new 2 20000 100)) \<and>
       wanted (fold call two_calls (picker_new 2 20000 100)) ! p \<and> enabled (fold call two_calls (picker_new 2 20000 100)) ! p}"
  using picker_invariant [OF _ _ _ refl, of 2 20000 100 two_calls] by simp

text \<open>
  C5. A pick returns a block of a piece that is wanted, enabled and that the peer has; the block lies
  inside the piece, has 1 byte to 16 KiB, and was neither requested nor received. The piece is a
  priority piece if one can be requested, and otherwise, outside sequential mode, the rarest one. A
  pick returns nothing only when no piece of the peer can be requested in the current mode, or the
  chosen piece is not admitted because of the limits on partial pieces.
\<close>

theorem pick_correct:
  assumes "n \<le> 2 ^ 32" "dl \<noteq> 0" "ll \<noteq> 0" "k = fold call cs (picker_new n dl ll)"
  shows "case pick k ph of
      (Some r, k') \<Rightarrow> \<exists>p i. chosen k ph p \<and> unat (br_piece r) = p \<and> unat (br_begin r) = i * 16384 \<and>
        0 < unat (br_length r) \<and> unat (br_length r) \<le> 16384 \<and>
        unat (br_begin r) + unat (br_length r) \<le> unat (piece_length_for k p) \<and>
        requested (current_state k p) ! i = 0 \<and> \<not> received (current_state k p) ! i \<and>
        map_of (in_progress k') p = Some (mark_requested (current_state k p) i)
    | (None, k') \<Rightarrow> k' = k \<and>
        ((\<forall>p. eligible k ph p \<longrightarrow> \<not> priority k ! p \<and> \<not> sequential k \<and> count (avail_map k) p = 0) \<or>
         (\<exists>p. chosen k ph p \<and> \<not> can_admit_piece_state k (piece_length_for k p)))"
proof -
  have ok: "picker_ok k" unfolding assms(4) using assms(1-3) by (rule calls_ok)
  then have sh: "shape_ok k" by (simp add: picker_ok_def)
  consider (none) "pick k ph = (None, k)" "\<forall>p. eligible k ph p \<longrightarrow> \<not> priority k ! p \<and> \<not> sequential k \<and> count (avail_map k) p = 0"
    | (some) p where "chosen k ph p" "pick k ph = pick_block_from k p"
    using pick_choice [OF ok, of ph] by blast
  then show ?thesis
  proof cases
    case some
    then have req: "piece_is_requestable k p" and out: "outstanding k p"
      by (simp_all add: chosen_def eligible_def piece_is_requestable_def outstanding_def)
    have p: "p < pick_count k" using out by (simp add: outstanding_def)
    show ?thesis
    proof (cases "pick_block_from k p = (None, k)")
      case True
      then show ?thesis using some pick_block_from_result [OF ok req] by auto
    next
      case False
      then obtain i r k' where r: "pick_block_from k p = (Some r, k')" "block_of k p i r"
        "next_unrequested (current_state k p) = Some i" "map_of (in_progress k') p = Some (mark_requested (current_state k p) i)"
        using pick_block_from_result [OF ok req] by auto
      note b = block_of_bounds [OF r(2) sh p] and u = next_unrequested_Some [OF current_state_ok(1) [OF ok out] r(3)]
      show ?thesis using some r b u by auto
    qed
  qed simp
qed

theorem pick_correct_witness:
  "fst (pick (fold call [AddBitfield [0xC0]] (picker_new 2 20000 100)) (\<lambda>p. p = 1)) = Some \<lparr>br_piece = 1, br_begin = 0, br_length = 100\<rparr> \<and>
   chosen (fold call [AddBitfield [0xC0]] (picker_new 2 20000 100)) (\<lambda>p. p = 1) 1"
proof -
  let ?k = "fold call [AddBitfield [0xC0]] (picker_new 2 20000 100)"
  have r: "fst (pick ?k (\<lambda>p. p = 1)) = Some \<lparr>br_piece = 1, br_begin = 0, br_length = 100\<rparr>"
    by (simp add: picker_run)
  then obtain k' where "pick ?k (\<lambda>p. p = 1) = (Some \<lparr>br_piece = 1, br_begin = 0, br_length = 100\<rparr>, k')" by (metis prod.exhaust_sel)
  with pick_correct [OF _ _ _ refl, of 2 20000 100 "[AddBitfield [0xC0]]" "\<lambda>p. p = 1"] r show ?thesis by auto
qed

text \<open>
  C37. In the endgame a peer is only asked for a block of a wanted and enabled piece that it has, that is
  outstanding and not received, and that is not among the blocks already requested from it.
\<close>

theorem endgame_correct:
  assumes "n \<le> 2 ^ 32" "dl \<noteq> 0" "ll \<noteq> 0" "k = fold call cs (picker_new n dl ll)" "pick_endgame k ph already = (Some r, k')"
  shows "\<exists>p i st. outstanding k p \<and> ph p \<and> map_of (in_progress k) p = Some st \<and> r \<notin> set already \<and>
    requested st ! i \<noteq> 0 \<and> \<not> received st ! i \<and> unat (br_piece r) = p \<and> unat (br_begin r) = i * 16384 \<and>
    0 < unat (br_length r) \<and> unat (br_begin r) + unat (br_length r) \<le> unat (piece_length_for k p)"
proof -
  have ok: "picker_ok k" unfolding assms(4) using assms(1-3) by (rule calls_ok)
  then have sh: "shape_ok k" by (simp add: picker_ok_def)
  obtain p i st where p: "map_of (in_progress k) p = Some st" "outstanding k p" "ph p" "block_of k p i r" "r \<notin> set already"
    "requested st ! i \<noteq> 0" "\<not> received st ! i"
    using pick_endgame_result [OF ok assms(5)] by blast
  moreover have "p < pick_count k" using p(2) by (simp add: outstanding_def)
  ultimately show ?thesis using block_of_bounds [OF p(4) sh] by blast
qed

lemmas endgame_run = pick_endgame_def endgame_active_def next_endgame_piece_def endgame_candidate_def next_requested_not_received_def

text \<open>
  The endgame starts although piece 1 has not been requested at all: a piece without state does not
  count as having blocks that were not requested.
\<close>

definition one_started :: piece_picker where
  "one_started = fold call [AddBitfield [0xC0], Pick (\<lambda>_. True)] (picker_new 2 100 100)"

lemma two_simps: "replicate 2 x = [x, x]" "(\<Sum>p < (2 :: nat). f p :: nat) = f 0 + f 1"
  by (simp_all add: numeral_2_eq_2)

lemma one_started_eq:
  "one_started = \<lparr>pick_count = 2, default_piece_length = 100, last_piece_length = 100, wanted = [True, True],
     enabled = [True, True], in_progress = [(0, \<lparr>piece_length = 100, requested = [1], received = [False]\<rparr>)],
     in_progress_bytes = 59, priority = [False, False], sequential = False, sequential_start_piece = 0,
     avail_map = \<lparr>counts = [1, 1], buckets = [[], [0, 1]], retired = [False, False]\<rparr>, outstanding_wanted = 2\<rparr>"
  by (simp add: one_started_def picker_run) (simp add: two_simps)

lemma endgame_before_all_requested:
  "piece_is_requestable one_started 1 \<and> endgame_active one_started \<and>
   fst (pick_endgame one_started (\<lambda>_. True) []) = Some \<lparr>br_piece = 0, br_begin = 0, br_length = 100\<rparr>"
  by (simp add: one_started_eq endgame_run picker_run)

theorem endgame_correct_witness:
  "\<exists>i st. outstanding one_started 0 \<and> map_of (in_progress one_started) 0 = Some st \<and> requested st ! i \<noteq> 0"
proof -
  obtain k' where "pick_endgame one_started (\<lambda>_. True) [] = (Some \<lparr>br_piece = 0, br_begin = 0, br_length = 100\<rparr>, k')"
    using endgame_before_all_requested by (metis prod.exhaust_sel)
  from endgame_correct [OF _ _ _ one_started_def this] show ?thesis by auto
qed

text \<open>
  C38. The bytes left are exact after any calls: together with the bytes of the blocks received for the
  pieces in progress they make up the lengths of the pieces that are wanted and enabled, so no
  subtraction of the code saturates and no sum wraps.
\<close>

theorem bytes_left_exact:
  assumes "n \<le> 2 ^ 32" "dl \<noteq> 0" "ll \<noteq> 0" "k = fold call cs (picker_new n dl ll)"
  shows "unat (bytes_left k) + sum_list (map (\<lambda>(_, st). \<Sum>i < length (received st).
      if received st ! i then min (unat (piece_length st) - i * 16384) 16384 else 0) (in_progress k)) =
    (\<Sum>p < pick_count k. if wanted k ! p \<and> enabled k ! p then unat (piece_length_for k p) else 0)"
proof -
  have ok: "picker_ok k" unfolding assms(4) using assms(1-3) by (rule calls_ok)
  have "(\<Sum>p < pick_count k. if wanted k ! p \<and> enabled k ! p then unat (piece_length_for k p) else 0) =
      (\<Sum>p < pick_count k. wanted_len k p)" by (rule sum.cong) (simp_all add: wanted_len_def outstanding_def)
  then show ?thesis using bytes_left_sum [OF ok] unfolding received_len_def block_len_def by simp
qed

theorem bytes_left_exact_witness: "unat (bytes_left one_started) = 200"
  using bytes_left_exact [OF _ _ _ one_started_def] unfolding one_started_eq
  by (simp add: piece_length_for_def two_simps)

end
