(* ===== verification/Utp_Packet.thy ===== *)
theory Utp_Packet
  imports Codec_Interface
begin

text \<open>
  The uTP packet format of \<open>crates/rt-utp\<close>: \<open>packet.rs\<close>, \<open>selective_ack.rs\<close> and the errors of
  \<open>error.rs\<close>.
\<close>

subsection \<open>Packets and errors\<close>

datatype packet_type = PtData | PtFin | PtState | PtReset | PtSyn

datatype connection_state =
    SynSent | SynReceived | Connected | FinSent | FinReceived | Closing | ResetState | Closed

datatype utp_error =
    HeaderTooShort nat
  | UnsupportedVersion u8
  | UnknownPacketType u8
  | ExtensionHeaderTruncated u8 nat
  | ExtensionTruncated u8 nat nat
  | ExtensionTooLong u8 nat
  | DatagramTooLarge nat nat
  | InvalidStatePacket connection_state packet_type
  | ConnectionIdMismatch u16 u16
  | AckOutOfWindow u16 u16 u16
  | UtpIo string
  | UtpTimeout
  | UtpClosed
  | ReceiveTaskPanicked
  | ReceiveTaskCancelled
  | ReceiveBufferFull nat nat
  | InvalidConfig string

definition HEADER_SIZE :: nat where
  "HEADER_SIZE = 20"

fun packet_type_u8 :: "packet_type \<Rightarrow> u8" where
  "packet_type_u8 PtData = 0"
| "packet_type_u8 PtFin = 1"
| "packet_type_u8 PtState = 2"
| "packet_type_u8 PtReset = 3"
| "packet_type_u8 PtSyn = 4"

definition packet_type_from_u8 :: "u8 \<Rightarrow> packet_type option" where
  "packet_type_from_u8 v =
     (if v = 0 then Some PtData else if v = 1 then Some PtFin else if v = 2 then Some PtState
      else if v = 3 then Some PtReset else if v = 4 then Some PtSyn else None)"

record utp_header =
  h_packet_type :: packet_type
  h_version :: u8
  h_extension :: u8
  h_connection_id :: u16
  h_timestamp_us :: u32
  h_timestamp_diff :: u32
  h_wnd_size :: u32
  h_seq_nr :: u16
  h_ack_nr :: u16

record utp_extension =
  ext_kind :: u8
  ext_data :: bytes

record utp_packet =
  p_header :: utp_header
  p_extensions :: "utp_extension list"
  p_payload :: bytes

definition utp_header_parse :: "bytes \<Rightarrow> utp_error + utp_header" where
  "utp_header_parse buf =
     (if length buf < HEADER_SIZE then Inl (HeaderTooShort (length buf))
      else let type_ver = buf ! 0; version = and type_ver 0x0F in
      if version \<noteq> 1 then Inl (UnsupportedVersion version)
      else let nibble = drop_bit 4 type_ver in
      case packet_type_from_u8 nibble of
        None \<Rightarrow> Inl (UnknownPacketType nibble)
      | Some pt \<Rightarrow> Inr
          \<lparr>h_packet_type = pt, h_version = version, h_extension = buf ! 1,
           h_connection_id = u16_from_be_bytes (subslice buf 2 4), h_timestamp_us = u32_from_be_bytes (subslice buf 4 8),
           h_timestamp_diff = u32_from_be_bytes (subslice buf 8 12), h_wnd_size = u32_from_be_bytes (subslice buf 12 16),
           h_seq_nr = u16_from_be_bytes (subslice buf 16 18), h_ack_nr = u16_from_be_bytes (subslice buf 18 20)\<rparr>)"

definition utp_header_encode :: "utp_header \<Rightarrow> bytes" where
  "utp_header_encode h =
     (let buf = replicate HEADER_SIZE 0;
          buf = buf[0 := or (push_bit 4 (packet_type_u8 (h_packet_type h))) (and (h_version h) 0x0F)];
          buf = buf[1 := h_extension h];
          buf = copy_at 2 (u16_to_be_bytes (h_connection_id h)) buf;
          buf = copy_at 4 (u32_to_be_bytes (h_timestamp_us h)) buf;
          buf = copy_at 8 (u32_to_be_bytes (h_timestamp_diff h)) buf;
          buf = copy_at 12 (u32_to_be_bytes (h_wnd_size h)) buf;
          buf = copy_at 16 (u16_to_be_bytes (h_seq_nr h)) buf in
      copy_at 18 (u16_to_be_bytes (h_ack_nr h)) buf)"

text \<open>The \<open>while\<close> loop of \<open>UtpPacket::parse\<close> over the extension chain.\<close>

function extension_loop :: "bytes \<Rightarrow> nat \<Rightarrow> u8 \<Rightarrow> utp_extension list \<Rightarrow> utp_error + (utp_extension list \<times> nat)" where
  "extension_loop buf offset extension exts =
     (if extension = 0 then Inr (exts, offset)
      else if length buf - offset < 2 then Inl (ExtensionHeaderTruncated extension (length buf - offset))
      else let next_extension = buf ! offset; len = unat (buf ! (offset + 1)) in
      if length buf - (offset + 2) < len then Inl (ExtensionTruncated extension len (length buf - (offset + 2)))
      else extension_loop buf (offset + 2 + len) next_extension
             (exts @ [\<lparr>ext_kind = extension, ext_data = subslice buf (offset + 2) (offset + 2 + len)\<rparr>]))"
  by pat_completeness auto
termination
  by (relation "measure (\<lambda>(buf, offset, _, _). length buf - offset)") auto

declare extension_loop.simps [simp del]

definition utp_packet_parse :: "bytes \<Rightarrow> utp_error + utp_packet" where
  "utp_packet_parse buf =
     (case utp_header_parse buf of
        Inl e \<Rightarrow> Inl e
      | Inr h \<Rightarrow>
          (case extension_loop buf HEADER_SIZE (h_extension h) [] of
             Inl e \<Rightarrow> Inl e
           | Inr (exts, offset) \<Rightarrow>
               Inr \<lparr>p_header = h, p_extensions = exts, p_payload = drop offset buf\<rparr>))"

definition first_kind :: "utp_extension list \<Rightarrow> u8" where
  "first_kind exts = (case exts of [] \<Rightarrow> 0 | e # _ \<Rightarrow> ext_kind e)"

definition utp_packet_encode :: "utp_packet \<Rightarrow> utp_error + bytes" where
  "utp_packet_encode p =
     (let h = (p_header p)\<lparr>h_extension := first_kind (p_extensions p)\<rparr> in
      case find (\<lambda>e. length (ext_data e) > 255) (p_extensions p) of
        Some e \<Rightarrow> Inl (ExtensionTooLong (ext_kind e) (length (ext_data e)))
      | None \<Rightarrow> Inr
          (fold (\<lambda>(idx, e) out. out @ [first_kind (drop (idx + 1) (p_extensions p)), of_nat (length (ext_data e))] @ ext_data e)
             (enumerate 0 (p_extensions p)) (utp_header_encode h) @ p_payload p))"

subsection \<open>Selective acknowledgements\<close>

type_synonym selective_ack = bytes

definition SACK_EXTENSION_KIND :: u8 where
  "SACK_EXTENSION_KIND = 1"

definition sack_empty :: selective_ack where
  "sack_empty = []"

fun pop_zeros :: "bytes \<Rightarrow> bytes" where
  "pop_zeros bits = (if bits \<noteq> [] \<and> last bits = 0 then pop_zeros (butlast bits) else bits)"

declare pop_zeros.simps [simp del]

definition set_sack_bit :: "u16 \<Rightarrow> bytes \<Rightarrow> bytes" where
  "set_sack_bit offset bits =
     (let bit_index = offset - 2; byte = unat (bit_index div 8) in
      bits[byte := or (bits ! byte) (push_bit (unat (bit_index mod 8)) 1)])"

definition from_received_offsets :: "u16 list \<Rightarrow> selective_ack" where
  "from_received_offsets offsets =
     (let offs = filter (\<lambda>off. off \<ge> 2) offsets in
      if offs = [] then sack_empty
      else pop_zeros (fold set_sack_bit offs (replicate (unat (Max (set offs) div 8) + 1) 0)))"

definition is_acknowledged :: "selective_ack \<Rightarrow> u16 \<Rightarrow> bool" where
  "is_acknowledged bits offset_after_ack =
     (if offset_after_ack < 2 then False
      else let bit_index = offset_after_ack - 2; byte = unat (bit_index div 8); b = unat (bit_index mod 8) in
        byte < length bits \<and> and (bits ! byte) (push_bit b 1) \<noteq> 0)"

definition acknowledged_offsets :: "selective_ack \<Rightarrow> u16 list" where
  "acknowledged_offsets bits =
     concat (map (\<lambda>(byte_idx, byte).
       map (\<lambda>b. of_nat byte_idx * 8 + of_nat b + 2) (filter (\<lambda>b. and byte (push_bit b 1) \<noteq> 0) [0..<8]))
       (enumerate 0 bits))"

subsection \<open>The header\<close>

lemma type_byte:
  "drop_bit 4 (or (push_bit 4 (packet_type_u8 t)) 1) = packet_type_u8 t"
  "and (or (push_bit 4 (packet_type_u8 t)) 1) 0x0F = 1"
  "packet_type_from_u8 (packet_type_u8 t) = Some t"
  by (cases t; simp add: packet_type_from_u8_def)+

lemma split_byte: "or (push_bit 4 (drop_bit 4 b)) (and b 0x0F) = (b :: u8)"
proof (rule bit_eqI)
  fix n assume n: "possible_bit TYPE(u8) n"
  have m: "(0x0F :: u8) = mask 4" by (simp add: mask_eq_exp_minus_1)
  show "bit (or (push_bit 4 (drop_bit 4 b)) (and b 0x0F)) n = bit b n"
    unfolding m using n by (cases "n < 4") (auto simp: bit_or_iff bit_and_iff bit_push_bit_iff bit_drop_bit_eq bit_mask_iff)
qed

lemma packet_type_from_Some: "packet_type_from_u8 v = Some t \<Longrightarrow> packet_type_u8 t = v"
  by (auto simp: packet_type_from_u8_def split: if_splits)

lemma copy_at_zeros:
  "i = length a \<Longrightarrow> copy_at i x (a @ replicate n 0) = (a @ x) @ replicate (n - length x) 0"
  by (simp add: copy_at_def)

lemma header_encode_append:
  "utp_header_encode h = [or (push_bit 4 (packet_type_u8 (h_packet_type h))) (and (h_version h) 0x0F), h_extension h]
     @ u16_to_be_bytes (h_connection_id h) @ u32_to_be_bytes (h_timestamp_us h) @ u32_to_be_bytes (h_timestamp_diff h)
     @ u32_to_be_bytes (h_wnd_size h) @ u16_to_be_bytes (h_seq_nr h) @ u16_to_be_bytes (h_ack_nr h)"
proof -
  have "(replicate HEADER_SIZE 0)[0 := a, 1 := b] = [a, b] @ replicate 18 0" for a b :: u8
    by (simp add: HEADER_SIZE_def numeral_eq_Suc)
  then show ?thesis
    by (simp only: utp_header_encode_def Let_def) (simp add: copy_at_zeros del: append.simps append_assoc; simp)
qed

lemma header_parse_encode:
  assumes "h_version h = 1"
  shows "utp_header_parse (utp_header_encode h @ rest) = Inr h"
  using assms type_byte [of "h_packet_type h"]
  by (simp add: utp_header_parse_def header_encode_append HEADER_SIZE_def Let_def subslice_def)

lemma header_encode_parse:
  assumes "utp_header_parse buf = Inr h"
  shows "utp_header_encode h = take 20 buf" "h_version h = 1" "20 \<le> length buf" "h_extension h = buf ! 1"
proof -
  obtain t where len: "20 \<le> length buf" and v: "and (buf ! 0) 0x0F = 1" and t: "packet_type_from_u8 (drop_bit 4 (buf ! 0)) = Some t"
    and h: "h = \<lparr>h_packet_type = t, h_version = and (buf ! 0) 0x0F, h_extension = buf ! 1,
           h_connection_id = u16_from_be_bytes (subslice buf 2 4), h_timestamp_us = u32_from_be_bytes (subslice buf 4 8),
           h_timestamp_diff = u32_from_be_bytes (subslice buf 8 12), h_wnd_size = u32_from_be_bytes (subslice buf 12 16),
           h_seq_nr = u16_from_be_bytes (subslice buf 16 18), h_ack_nr = u16_from_be_bytes (subslice buf 18 20)\<rparr>"
    using assms by (auto simp: utp_header_parse_def HEADER_SIZE_def Let_def split: if_splits option.splits)
  have b0: "or (push_bit 4 (packet_type_u8 t)) (and (and (buf ! 0) 0x0F) 0x0F) = buf ! 0"
    using split_byte [of "buf ! 0"] packet_type_from_Some [OF t] by simp
  have "(((((take 2 buf @ subslice buf 2 4) @ subslice buf 4 8) @ subslice buf 8 12) @ subslice buf 12 16) @ subslice buf 16 18)
      @ subslice buf 18 20 = take 20 buf" by (simp only: take_subslice)
  moreover have "take 2 buf = [buf ! 0, buf ! 1]" using len by (cases buf; cases "tl buf") auto
  ultimately show "utp_header_encode h = take 20 buf"
    using len b0 by (simp add: header_encode_append h u16_to_from_be_bytes u32_to_from_be_bytes)
  show "h_version h = 1" "20 \<le> length buf" "h_extension h = buf ! 1" using len v h by simp_all
qed

subsection \<open>The extension chain\<close>

text \<open>\<open>ext_chain\<close> is the extension chain as it lies in a packet, each link naming the kind of the next.\<close>

fun ext_chain :: "utp_extension list \<Rightarrow> bytes" where
  "ext_chain [] = []"
| "ext_chain (e # es) = [first_kind es, of_nat (length (ext_data e))] @ ext_data e @ ext_chain es"

definition wf_utp_packet :: "utp_packet \<Rightarrow> bool" where
  "wf_utp_packet p \<longleftrightarrow> h_version (p_header p) = 1 \<and> h_extension (p_header p) = first_kind (p_extensions p) \<and>
     list_all (\<lambda>e. ext_kind e \<noteq> 0 \<and> length (ext_data e) \<le> 255) (p_extensions p)"

lemma first_kind_simps [simp]: "first_kind [] = 0" "first_kind (e # es) = ext_kind e"
  by (simp_all add: first_kind_def)

lemma fold_ext_chain:
  "fold (\<lambda>(idx, e) out. out @ [first_kind (drop (idx + 1) (pre @ es)), of_nat (length (ext_data e))] @ ext_data e)
     (enumerate (length pre) es) out = out @ ext_chain es"
proof (induction es arbitrary: pre out)
  case (Cons e es)
  show ?case using Cons.IH [of "pre @ [e]"] by simp
qed simp

lemma packet_encode_eq:
  "utp_packet_encode p =
     (case find (\<lambda>e. length (ext_data e) > 255) (p_extensions p) of
        Some e \<Rightarrow> Inl (ExtensionTooLong (ext_kind e) (length (ext_data e)))
      | None \<Rightarrow> Inr (utp_header_encode ((p_header p)\<lparr>h_extension := first_kind (p_extensions p)\<rparr>)
          @ ext_chain (p_extensions p) @ p_payload p))"
  using fold_ext_chain [of "[]" "p_extensions p", unfolded append_Nil list.size(3)]
  unfolding utp_packet_encode_def Let_def
  by (cases "find (\<lambda>e. length (ext_data e) > 255) (p_extensions p)") (simp_all only: option.case append_assoc)

lemma length_header_encode [simp]: "length (utp_header_encode h) = 20"
  by (simp add: header_encode_append)

lemma extension_loop_chain:
  assumes "list_all (\<lambda>e. ext_kind e \<noteq> 0 \<and> length (ext_data e) \<le> 255) es"
  shows "extension_loop (pre @ ext_chain es @ payld) (length pre) (first_kind es) acc
    = Inr (acc @ es, length pre + length (ext_chain es))"
  using assms
proof (induction es arbitrary: pre acc)
  case Nil
  show ?case by (simp add: extension_loop.simps [of _ _ 0])
next
  case (Cons e es)
  let ?d = "ext_data e"
  let ?l = "[first_kind es, of_nat (length ?d)] @ ?d"
  have k: "ext_kind e \<noteq> 0" and u: "unat (of_nat (length ?d) :: u8) = length ?d"
    using Cons.prems by (simp_all add: unat_of_nat)
  have e: "\<lparr>ext_kind = ext_kind e, ext_data = ?d\<rparr> = e" by simp
  have "extension_loop ((pre @ ?l) @ ext_chain es @ payld) (length (pre @ ?l)) (first_kind es) (acc @ [e])
      = Inr ((acc @ [e]) @ es, length (pre @ ?l) + length (ext_chain es))"
    using Cons.prems by (intro Cons.IH) simp
  then show ?case
    by (subst extension_loop.simps) (simp add: k u e nth_append subslice_def add.assoc Let_def)
qed

lemma extension_loop_sound:
  "extension_loop buf off k acc = Inr (exts, off') \<Longrightarrow> off \<le> length buf \<Longrightarrow>
    \<exists>es. exts = acc @ es \<and> first_kind es = k \<and> drop off buf = ext_chain es @ drop off' buf \<and>
      list_all (\<lambda>e. ext_kind e \<noteq> 0 \<and> length (ext_data e) \<le> 255) es"
proof (induction buf off k acc rule: extension_loop.induct)
  case (1 buf off k acc)
  show ?case
  proof (cases "k = 0")
    case True
    then show ?thesis using "1.prems" by (auto simp: extension_loop.simps intro: exI [of _ "[]"])
  next
    case False
    let ?n = "buf ! off" and ?l = "unat (buf ! (off + 1))"
    let ?e = "\<lparr>ext_kind = k, ext_data = subslice buf (off + 2) (off + 2 + ?l)\<rparr>"
    from False "1.prems"(1) have len: "2 \<le> length buf - off" "?l \<le> length buf - (off + 2)"
      and step: "extension_loop buf (off + 2 + ?l) ?n (acc @ [?e]) = Inr (exts, off')"
      by (auto simp: extension_loop.simps [of buf off] Let_def split: if_splits)
    have "\<exists>es. exts = (acc @ [?e]) @ es \<and> first_kind es = ?n \<and> drop (off + 2 + ?l) buf = ext_chain es @ drop off' buf \<and>
        list_all (\<lambda>e. ext_kind e \<noteq> 0 \<and> length (ext_data e) \<le> 255) es"
      using "1.IH" [OF False _ refl refl _ step] len by simp
    then obtain es where es: "exts = (acc @ [?e]) @ es" "first_kind es = ?n"
      "drop (off + 2 + ?l) buf = ext_chain es @ drop off' buf"
      "list_all (\<lambda>e. ext_kind e \<noteq> 0 \<and> length (ext_data e) \<le> 255) es" by blast
    have dl: "length (ext_data ?e) = ?l" using len by (simp add: subslice_def)
    have "?l < 256" by (rule order.strict_trans2 [OF unsigned_less]) simp
    then have l8: "?l \<le> 255" by simp
    have "drop off buf = ?n # buf ! (off + 1) # drop (off + 2) buf"
      using len by (simp add: Cons_nth_drop_Suc)
    also have "drop (off + 2) buf = ext_data ?e @ drop (off + 2 + ?l) buf"
      using append_take_drop_id [of ?l "drop (off + 2) buf"] by (simp add: subslice_def ac_simps del: append_take_drop_id)
    finally have "drop off buf = ext_chain (?e # es) @ drop off' buf" using es dl by simp
    then show ?thesis using es dl l8 False by (intro exI [of _ "?e # es"]) simp
  qed
qed

lemma wf_no_long: "wf_utp_packet p \<Longrightarrow> find (\<lambda>e. length (ext_data e) > 255) (p_extensions p) = None"
  by (auto simp: wf_utp_packet_def list_all_iff find_None_iff)

lemma packet_parse_encode:
  assumes "wf_utp_packet p"
  obtains bs where "utp_packet_encode p = Inr bs" "utp_packet_parse bs = Inr p"
proof -
  have h: "(p_header p)\<lparr>h_extension := first_kind (p_extensions p)\<rparr> = p_header p"
    using assms by (simp add: wf_utp_packet_def)
  let ?bs = "utp_header_encode (p_header p) @ ext_chain (p_extensions p) @ p_payload p"
  have enc: "utp_packet_encode p = Inr ?bs" by (simp add: packet_encode_eq wf_no_long [OF assms] h)
  have "utp_header_parse ?bs = Inr (p_header p)"
    using assms by (intro header_parse_encode) (simp add: wf_utp_packet_def)
  moreover have "extension_loop ?bs HEADER_SIZE (h_extension (p_header p)) [] = Inr (p_extensions p, 20 + length (ext_chain (p_extensions p)))"
    using assms extension_loop_chain [of "p_extensions p" "utp_header_encode (p_header p)" "p_payload p" "[]"]
    by (simp add: wf_utp_packet_def HEADER_SIZE_def)
  ultimately have "utp_packet_parse ?bs = Inr p" by (simp add: utp_packet_parse_def)
  with enc show ?thesis by (rule that)
qed

lemma packet_encode_parse:
  assumes "utp_packet_parse buf = Inr p"
  shows "wf_utp_packet p" "utp_packet_encode p = Inr buf"
proof -
  from assms obtain h exts off where h: "utp_header_parse buf = Inr h"
    and l: "extension_loop buf HEADER_SIZE (h_extension h) [] = Inr (exts, off)"
    and p: "p = \<lparr>p_header = h, p_extensions = exts, p_payload = drop off buf\<rparr>"
    by (auto simp: utp_packet_parse_def split: sum.splits prod.splits)
  note hd = header_encode_parse [OF h]
  from extension_loop_sound [OF l] hd(3) have es: "first_kind exts = h_extension h"
    "drop 20 buf = ext_chain exts @ drop off buf" "list_all (\<lambda>e. ext_kind e \<noteq> 0 \<and> length (ext_data e) \<le> 255) exts"
    by (auto simp: HEADER_SIZE_def)
  show wf: "wf_utp_packet p" using p hd es by (simp add: wf_utp_packet_def)
  have "h\<lparr>h_extension := first_kind exts\<rparr> = h" using es by simp
  moreover have "take 20 buf @ ext_chain exts @ drop off buf = buf" by (simp flip: es(2))
  ultimately show "utp_packet_encode p = Inr buf"
    using wf_no_long [OF wf] p hd(1) by (simp add: packet_encode_eq)
qed

lemma packet_encode_error:
  "(\<exists>e. utp_packet_encode p = Inl e) \<longleftrightarrow> (\<exists>x \<in> set (p_extensions p). 255 < length (ext_data x))"
proof -
  have "(\<exists>e. utp_packet_encode p = Inl e) \<longleftrightarrow> find (\<lambda>e. length (ext_data e) > 255) (p_extensions p) \<noteq> None"
    by (simp add: packet_encode_eq split: option.split)
  then show ?thesis by (auto simp: find_None_iff)
qed

definition utp_bytes :: "utp_packet \<Rightarrow> bytes" where
  "utp_bytes p = (case utp_packet_encode p of Inr bs \<Rightarrow> bs | Inl _ \<Rightarrow> [])"

interpretation utp_packets: canonical_codec utp_bytes utp_packet_parse wf_utp_packet "\<lambda>_. True"
proof unfold_locales
  show "utp_packet_parse (utp_bytes p) = Inr p" if "wf_utp_packet p" for p
    by (rule packet_parse_encode [OF that]) (simp add: utp_bytes_def)
  show "wf_utp_packet p \<and> utp_bytes p = bs" if "utp_packet_parse bs = Inr p" for bs p
    using packet_encode_parse [OF that] by (simp add: utp_bytes_def)
qed simp

text \<open>
  C11. The uTP packet format is canonical: the datagrams the parser accepts for a packet are exactly the
  one its encoding gives, for the well-formed packets (version 1, a non-zero kind and at most 255 bytes in
  every extension, and the header naming the first extension), and the encoder refuses a packet exactly
  when an extension is longer than its length byte can say.
\<close>

theorem utp_packet_canonical:
  "(utp_packet_parse buf = Inr p \<longleftrightarrow> wf_utp_packet p \<and> utp_packet_encode p = Inr buf) \<and>
   ((\<exists>e. utp_packet_encode q = Inl e) \<longleftrightarrow> (\<exists>x \<in> set (p_extensions q). 255 < length (ext_data x)))"
  using utp_packets.accepts_iff [of buf p] packet_encode_parse [of buf p] packet_encode_error [of q]
  by (auto simp: utp_bytes_def)

subsection \<open>The bit set of a selective acknowledgement\<close>

definition sack_bit :: "selective_ack \<Rightarrow> nat \<Rightarrow> bool" where
  "sack_bit bits k \<longleftrightarrow> k div 8 < length bits \<and> bit (bits ! (k div 8)) (k mod 8)"

lemma sack_index:
  assumes "2 \<le> (off :: u16)"
  shows "unat ((off - 2) div 8) = (unat off - 2) div 8" "unat ((off - 2) mod 8) = (unat off - 2) mod 8"
proof -
  have "unat (off - 2) = unat off - 2" using assms by (simp add: unat_sub)
  then show "unat ((off - 2) div 8) = (unat off - 2) div 8" "unat ((off - 2) mod 8) = (unat off - 2) mod 8"
    by (simp_all add: unat_div unat_mod)
qed

lemma is_acknowledged_iff: "is_acknowledged bits off \<longleftrightarrow> 2 \<le> off \<and> sack_bit bits (unat off - 2)"
  by (auto simp: is_acknowledged_def sack_bit_def Let_def sack_index bit_iff_and_push_bit_not_eq_0 not_less)

lemma sack_bit_set:
  assumes "2 \<le> off" "(unat off - 2) div 8 < length bits"
  shows "sack_bit (set_sack_bit off bits) k \<longleftrightarrow> sack_bit bits k \<or> k = unat off - 2"
proof -
  let ?j = "unat off - 2"
  have b: "bit (or x (push_bit (?j mod 8) 1)) (k mod 8) \<longleftrightarrow> bit x (k mod 8) \<or> k mod 8 = ?j mod 8" for x :: u8
    by (auto simp: bit_or_iff bit_exp_iff possible_bit_def)
  have "k = ?j \<longleftrightarrow> k div 8 = ?j div 8 \<and> k mod 8 = ?j mod 8" by (metis div_mult_mod_eq)
  with b assms show ?thesis
    by (auto simp: set_sack_bit_def sack_bit_def Let_def sack_index nth_list_update)
qed

lemma length_set_sack_bit [simp]: "length (set_sack_bit off bits) = length bits"
  by (simp add: set_sack_bit_def Let_def)

lemma sack_bit_fold:
  assumes "\<forall>x \<in> set offs. 2 \<le> x \<and> (unat x - 2) div 8 < length bits"
  shows "sack_bit (fold set_sack_bit offs bits) k \<longleftrightarrow> sack_bit bits k \<or> (\<exists>x \<in> set offs. k = unat x - 2)"
  using assms
proof (induction offs arbitrary: bits)
  case (Cons a offs)
  have "sack_bit (fold set_sack_bit offs (set_sack_bit a bits)) k \<longleftrightarrow>
      sack_bit (set_sack_bit a bits) k \<or> (\<exists>x \<in> set offs. k = unat x - 2)"
    using Cons.prems by (intro Cons.IH) simp
  then show ?case using Cons.prems sack_bit_set [of a bits k] by auto
qed simp

lemma pop_zeros_sack_bit: "sack_bit (pop_zeros bits) k = sack_bit bits k"
proof (induction bits rule: pop_zeros.induct)
  case (1 bits)
  show ?case
  proof (cases "bits \<noteq> [] \<and> last bits = 0")
    case True
    then obtain bs where bs: "bits = bs @ [0]" by (metis append_butlast_last_id)
    have "sack_bit (pop_zeros bits) k = sack_bit bs k" using "1.IH" True bs by (subst pop_zeros.simps) simp
    also have "\<dots> = sack_bit bits k" by (auto simp: bs sack_bit_def nth_append less_Suc_eq)
    finally show ?thesis .
  qed (subst pop_zeros.simps, auto)
qed

lemma pop_zeros_last: "pop_zeros bits = [] \<or> last (pop_zeros bits) \<noteq> 0"
  by (induction bits rule: pop_zeros.induct) (subst (1 2) pop_zeros.simps, auto)

lemma pop_zeros_length: "length (pop_zeros bits) \<le> length bits"
  by (induction bits rule: pop_zeros.induct) (subst pop_zeros.simps, auto)

lemma offset_within:
  assumes "x \<in> set offs" "2 \<le> (x :: u16)"
  shows "(unat x - 2) div 8 < unat (Max (set offs) div 8) + 1"
proof -
  have "x \<le> Max (set offs)" using assms by simp
  then have "unat x \<le> unat (Max (set offs))" by (simp add: word_le_nat_alt)
  then have "(unat x - 2) div 8 \<le> unat (Max (set offs)) div 8" by (intro div_le_mono) simp
  then show ?thesis by (simp add: unat_div)
qed

lemma from_received_bit:
  "sack_bit (from_received_offsets offsets) k \<longleftrightarrow> (\<exists>x \<in> set offsets. 2 \<le> x \<and> k = unat x - 2)"
proof (cases "filter (\<lambda>off. off \<ge> 2) offsets = []")
  case True
  then show ?thesis by (auto simp: from_received_offsets_def Let_def sack_empty_def sack_bit_def filter_empty_conv)
next
  case False
  let ?offs = "filter (\<lambda>off. off \<ge> 2) offsets"
  have "sack_bit (from_received_offsets offsets) k \<longleftrightarrow>
      sack_bit (fold set_sack_bit ?offs (replicate (unat (Max (set ?offs) div 8) + 1) 0)) k"
    using False by (simp only: from_received_offsets_def Let_def if_False pop_zeros_sack_bit)
  also have "\<dots> \<longleftrightarrow> sack_bit (replicate (unat (Max (set ?offs) div 8) + 1) 0) k \<or> (\<exists>x \<in> set ?offs. k = unat x - 2)"
    using offset_within [of _ ?offs] by (intro sack_bit_fold) (simp del: add_Suc_right)
  moreover have "\<not> sack_bit (replicate (unat (Max (set ?offs) div 8) + 1) 0) k"
    by (auto simp: sack_bit_def simp del: replicate_Suc)
  ultimately show ?thesis by auto
qed

lemma acknowledged_offsets_set: "set (acknowledged_offsets bits) = (\<lambda>k. of_nat (k + 2)) ` {k. sack_bit bits k}"
proof (intro set_eqI iffI)
  fix x assume "x \<in> set (acknowledged_offsets bits)"
  then obtain i b where x: "x = of_nat i * 8 + of_nat b + 2" and i: "i < length bits" "b < 8" "bit (bits ! i) b"
    by (auto simp: acknowledged_offsets_def in_set_enumerate_eq bit_iff_and_push_bit_not_eq_0)
  then have "sack_bit bits (i * 8 + b)" by (simp add: sack_bit_def)
  moreover have "x = of_nat ((i * 8 + b) + 2)" by (simp add: x)
  ultimately show "x \<in> (\<lambda>k. of_nat (k + 2)) ` {k. sack_bit bits k}" by blast
next
  fix x assume "x \<in> (\<lambda>k. of_nat (k + 2) :: u16) ` {k. sack_bit bits k}"
  then obtain k where k: "sack_bit bits k" and x: "x = of_nat (k + 2)" by blast
  have "(of_nat (k + 2) :: u16) = of_nat (k div 8 * 8 + k mod 8 + 2)" by (simp only: div_mult_mod_eq)
  then have "x = of_nat (k div 8) * 8 + of_nat (k mod 8) + 2" by (simp only: x of_nat_add of_nat_mult of_nat_numeral)
  with k show "x \<in> set (acknowledged_offsets bits)"
    by (auto simp: acknowledged_offsets_def sack_bit_def in_set_enumerate_eq bit_iff_and_push_bit_not_eq_0
        intro!: bexI [of _ "(k div 8, bits ! (k div 8))"])
qed

text \<open>
  C12. A selective acknowledgement built from the offsets received says exactly which of them it stands
  for: an offset is acknowledged, by the test and in the list, when it is one of those received and at
  least 2 (the first two places after the acknowledged packet have no bit), and the bit set ends in a
  byte that is not zero.
\<close>

theorem selective_ack_exact:
  "(is_acknowledged (from_received_offsets offsets) off \<longleftrightarrow> off \<in> set offsets \<and> 2 \<le> off) \<and>
   set (acknowledged_offsets (from_received_offsets offsets)) = {x \<in> set offsets. 2 \<le> x} \<and>
   (from_received_offsets offsets = [] \<or> 0 < last (from_received_offsets offsets))"
proof (intro conjI)
  have inj: "x = y" if "2 \<le> x" "2 \<le> y" "unat x - 2 = unat y - 2" for x y :: u16
    using that by (simp add: word_le_nat_alt eq_diff_iff word_unat_eq_iff)
  show "is_acknowledged (from_received_offsets offsets) off \<longleftrightarrow> off \<in> set offsets \<and> 2 \<le> off"
    using inj by (auto simp: is_acknowledged_iff from_received_bit)
  have off_back: "of_nat (unat x - 2 + 2) = x" if "2 \<le> x" for x :: u16
    using that by (simp add: word_le_nat_alt)
  show "set (acknowledged_offsets (from_received_offsets offsets)) = {x \<in> set offsets. 2 \<le> x}"
    unfolding acknowledged_offsets_set from_received_bit using off_back by (force simp del: of_nat_add)
  show "from_received_offsets offsets = [] \<or> 0 < last (from_received_offsets offsets)"
    using pop_zeros_last by (auto simp: from_received_offsets_def Let_def sack_empty_def word_gt_0)
qed

end
