(* ===== verification/Utp_Congestion.thy ===== *)
theory Utp_Congestion
  imports TNG_Prelude
begin

text \<open>
  The delay-based congestion controller of uTP, \<open>congestion.rs\<close> of \<open>crates/rt-utp\<close>: the window stays
  within its limits, and the base delay is the minimum over the last three one-minute buckets, whatever
  the 32-bit clock wraps to. Times of the reference definition count microseconds without wrapping.
\<close>

subsection \<open>Controller\<close>

definition DEFAULT_INITIAL_WINDOW_BYTES :: u32 where
  "DEFAULT_INITIAL_WINDOW_BYTES = 64 * 1024"

definition DEFAULT_MTU_PAYLOAD_BYTES :: nat where
  "DEFAULT_MTU_PAYLOAD_BYTES = 1352"

definition TARGET_DELAY_US :: u32 where
  "TARGET_DELAY_US = 100000"

definition MIN_CONGESTION_WINDOW_BYTES :: u32 where
  "MIN_CONGESTION_WINDOW_BYTES = of_nat DEFAULT_MTU_PAYLOAD_BYTES"

definition MAX_CONGESTION_WINDOW_BYTES :: u32 where
  "MAX_CONGESTION_WINDOW_BYTES = 16 * 1024 * 1024"

definition BASE_DELAY_BUCKET_COUNT :: nat where
  "BASE_DELAY_BUCKET_COUNT = 3"

definition BASE_DELAY_BUCKET_DURATION_US :: u32 where
  "BASE_DELAY_BUCKET_DURATION_US = 60000000"

record delay_sample =
  timestamp_diff_us :: u32
  bytes_acked :: u32

record congestion_controller =
  cwnd_bytes :: u32
  base_delay_buckets :: "u32 option list"
  base_delay_bucket_started_us :: "u32 option"
  current_delay_us :: "u32 option"
  target_delay_us :: u32

definition clamp :: "'a::linorder \<Rightarrow> 'a \<Rightarrow> 'a \<Rightarrow> 'a" where
  "clamp lo hi x = (if x < lo then lo else if x > hi then hi else x)"

definition congestion_new :: "u32 \<Rightarrow> u32 \<Rightarrow> congestion_controller" where
  "congestion_new initial_window_bytes target =
     \<lparr>cwnd_bytes = clamp MIN_CONGESTION_WINDOW_BYTES MAX_CONGESTION_WINDOW_BYTES initial_window_bytes,
      base_delay_buckets = replicate BASE_DELAY_BUCKET_COUNT None,
      base_delay_bucket_started_us = None, current_delay_us = None, target_delay_us = max target 1\<rparr>"

definition congestion_default :: congestion_controller where
  "congestion_default = congestion_new DEFAULT_INITIAL_WINDOW_BYTES TARGET_DELAY_US"

definition base_delay_us :: "congestion_controller \<Rightarrow> u32 option" where
  "base_delay_us c =
     (let known = List.map_filter id (base_delay_buckets c) in if known = [] then None else Some (Min (set known)))"

definition rotate_buckets :: "nat \<Rightarrow> u32 option list \<Rightarrow> u32 option list" where
  "rotate_buckets n buckets =
     (let rotated = rotate n buckets in take (length rotated - n) rotated @ replicate n None)"

definition record_base_delay_sample :: "u32 \<Rightarrow> u32 \<Rightarrow> congestion_controller \<Rightarrow> congestion_controller" where
  "record_base_delay_sample now_us delay c =
     (let c1 = (case base_delay_bucket_started_us c of
            None \<Rightarrow> c\<lparr>base_delay_bucket_started_us := Some now_us\<rparr>
          | Some started \<Rightarrow>
              (let elapsed = now_us - started in
               if elapsed \<ge> BASE_DELAY_BUCKET_DURATION_US then
                 let buckets_elapsed = elapsed div BASE_DELAY_BUCKET_DURATION_US;
                     rotate_by = min (unat buckets_elapsed) BASE_DELAY_BUCKET_COUNT in
                 c\<lparr>base_delay_buckets := rotate_buckets rotate_by (base_delay_buckets c),
                   base_delay_bucket_started_us := Some (started + buckets_elapsed * BASE_DELAY_BUCKET_DURATION_US)\<rparr>
               else c));
          current = last (base_delay_buckets c1) in
      c1\<lparr>base_delay_buckets := butlast (base_delay_buckets c1)
           @ [Some (case current of None \<Rightarrow> delay | Some m \<Rightarrow> min m delay)]\<rparr>)"

definition congestion_on_ack :: "u32 \<Rightarrow> delay_sample \<Rightarrow> congestion_controller \<Rightarrow> congestion_controller" where
  "congestion_on_ack now_us sample c0 =
     (let delay = timestamp_diff_us sample;
          c = (record_base_delay_sample now_us delay c0)\<lparr>current_delay_us := Some delay\<rparr> in
      if bytes_acked sample = 0 then c
      else let queuing_delay = saturating_sub delay (case base_delay_us c of None \<Rightarrow> delay | Some d \<Rightarrow> d) in
      if queuing_delay \<le> target_delay_us c then
        let headroom = target_delay_us c - queuing_delay;
            gain = max (u64_from (max (bytes_acked sample) 1) * u64_from headroom div u64_from (target_delay_us c)) 1 in
        c\<lparr>cwnd_bytes := clamp MIN_CONGESTION_WINDOW_BYTES MAX_CONGESTION_WINDOW_BYTES
            (saturating_add (cwnd_bytes c) (ucast (min gain (u64_from (-1)))))\<rparr>
      else
        let overshoot = queuing_delay - target_delay_us c;
            reduction = max (u64_from (cwnd_bytes c) * u64_from overshoot div u64_from queuing_delay)
              (u64_from (of_nat DEFAULT_MTU_PAYLOAD_BYTES)) in
        c\<lparr>cwnd_bytes := clamp MIN_CONGESTION_WINDOW_BYTES MAX_CONGESTION_WINDOW_BYTES
            (saturating_sub (cwnd_bytes c) (ucast (min reduction (u64_from (-1)))))\<rparr>)"

definition congestion_on_timeout :: "congestion_controller \<Rightarrow> congestion_controller" where
  "congestion_on_timeout c = c\<lparr>cwnd_bytes := max (cwnd_bytes c div 2) MIN_CONGESTION_WINDOW_BYTES\<rparr>"

subsection \<open>The reference: a minimum over a sliding window\<close>

text \<open>
  \<open>slot\<close> numbers the one-minute buckets from the first sample on, and \<open>slot_min\<close> is the least delay seen
  in the bucket \<open>age\<close> places before bucket \<open>J\<close>.
\<close>

definition slot :: "nat \<Rightarrow> nat \<Rightarrow> nat" where
  "slot t0 t = (t - t0) div 60000000"

definition min_of :: "u32 list \<Rightarrow> u32 option" where
  "min_of ds = (if ds = [] then None else Some (Min (set ds)))"

definition slot_min :: "nat \<Rightarrow> nat \<Rightarrow> nat \<Rightarrow> (nat \<times> u32) list \<Rightarrow> u32 option" where
  "slot_min t0 J age xs = min_of (map snd (filter (\<lambda>(t, _). slot t0 t + age = J) xs))"

definition window_min :: "nat \<Rightarrow> nat \<Rightarrow> (nat \<times> u32) list \<Rightarrow> u32 option" where
  "window_min t0 now xs = min_of (map snd (filter (\<lambda>(t, _). slot t0 now \<le> slot t0 t + 2) xs))"

definition ack_run :: "(nat \<times> delay_sample) list \<Rightarrow> congestion_controller \<Rightarrow> congestion_controller" where
  "ack_run = fold (\<lambda>(t, s). congestion_on_ack (of_nat t) s)"

definition clock_ok :: "nat list \<Rightarrow> bool" where
  "clock_ok = successively (\<lambda>a b. a \<le> b \<and> b - a \<le> 2 ^ 32 - 60000000)"

definition slots_match :: "nat \<Rightarrow> nat \<Rightarrow> (nat \<times> u32) list \<Rightarrow> congestion_controller \<Rightarrow> bool" where
  "slots_match t0 J xs c \<longleftrightarrow>
     base_delay_bucket_started_us c = Some (of_nat (t0 + 60000000 * J)) \<and>
     base_delay_buckets c = [slot_min t0 J 2 xs, slot_min t0 J 1 xs, slot_min t0 J 0 xs]"

lemma min_of_append:
  "min_of (xs @ ys) = (case (min_of xs, min_of ys) of
     (None, m) \<Rightarrow> m | (m, None) \<Rightarrow> m | (Some a, Some b) \<Rightarrow> Some (min a b))"
  by (simp add: min_of_def Min_Un)

lemma slot_min_old: "\<forall>(t, _) \<in> set xs. slot t0 t < J \<Longrightarrow> slot_min t0 J 0 xs = None"
  by (auto simp: slot_min_def min_of_def filter_empty_conv)

lemma slot_min_shift:
  assumes "\<forall>(t, _) \<in> set xs. slot t0 t \<le> J"
  shows "slot_min t0 (J + n) age xs = (if n \<le> age then slot_min t0 J (age - n) xs else None)"
proof (cases "n \<le> age")
  case True
  then have "slot t0 t + age = J + n \<longleftrightarrow> slot t0 t + (age - n) = J" for t by linarith
  with True show ?thesis by (simp add: slot_min_def)
next
  case False
  then show ?thesis using assms by (fastforce simp: slot_min_def min_of_def filter_empty_conv)
qed

lemma rotate_buckets_three:
  "rotate_buckets 0 [a, b, c] = [a, b, c]" "rotate_buckets 1 [a, b, c] = [b, c, None]"
  "rotate_buckets 2 [a, b, c] = [c, None, None]" "rotate_buckets 3 [a, b, c] = [None, None, None]"
  by (simp_all add: rotate_buckets_def numeral_2_eq_2 numeral_3_eq_3)

lemma rotate_slots:
  assumes "\<forall>(t, _) \<in> set xs. slot t0 t \<le> J"
  shows "rotate_buckets (min n 3) [slot_min t0 J 2 xs, slot_min t0 J 1 xs, slot_min t0 J 0 xs]
    = [slot_min t0 (J + n) 2 xs, slot_min t0 (J + n) 1 xs, slot_min t0 (J + n) 0 xs]"
proof -
  consider "n = 0" | "n = 1" | "n = 2" | "3 \<le> n" by linarith
  then show ?thesis unfolding slot_min_shift [OF assms]
    by cases (simp_all add: rotate_buckets_three [simplified] min_absorb2)
qed

lemma elapsed_slots:
  assumes "t0 + 60000000 * J \<le> t" "t - (t0 + 60000000 * J) < 2 ^ 32"
  shows "unat (of_nat t - of_nat (t0 + 60000000 * J) :: u32) = t - (t0 + 60000000 * J)"
    and "slot t0 t = J + (t - (t0 + 60000000 * J)) div 60000000"
proof -
  have "(of_nat t - of_nat (t0 + 60000000 * J) :: u32) = of_nat (t - (t0 + 60000000 * J))"
    using assms(1) by (simp only: of_nat_diff)
  then show "unat (of_nat t - of_nat (t0 + 60000000 * J) :: u32) = t - (t0 + 60000000 * J)"
    using assms(2) by (simp only: unat_of_nat) simp
  have "t - t0 = J * 60000000 + (t - (t0 + 60000000 * J))" using assms(1) by simp
  then show "slot t0 t = J + (t - (t0 + 60000000 * J)) div 60000000" unfolding slot_def by simp
qed

lemma slot_min_snoc:
  "slot_min t0 J 0 (xs @ [(t, d)]) = (if slot t0 t = J then
     Some (case slot_min t0 J 0 xs of None \<Rightarrow> d | Some m \<Rightarrow> min m d) else slot_min t0 J 0 xs)"
  "0 < age \<Longrightarrow> slot t0 t = J \<Longrightarrow> slot_min t0 J age (xs @ [(t, d)]) = slot_min t0 J age xs"
  by (auto simp: slot_min_def min_of_append split: option.split) (auto simp: min_of_def)

lemma record_slots:
  assumes m: "slots_match t0 J xs c" and old: "\<forall>(t, _) \<in> set xs. slot t0 t \<le> J"
    and t: "t0 + 60000000 * J \<le> t" "t - (t0 + 60000000 * J) < 2 ^ 32"
  shows "slots_match t0 (slot t0 t) (xs @ [(t, d)]) (record_base_delay_sample (of_nat t) d c)"
proof -
  let ?s = "t0 + 60000000 * J" and ?J = "slot t0 t"
  let ?n = "(t - ?s) div 60000000"
  let ?e = "of_nat t - of_nat ?s :: u32"
  let ?b = "[slot_min t0 ?J 2 xs, slot_min t0 ?J 1 xs, slot_min t0 ?J 0 xs]"
  have e: "unat ?e = t - ?s" and J: "?J = J + ?n" using elapsed_slots [OF t] by auto
  have n: "unat (?e div 60000000) = ?n" using e by (simp add: unat_div)
  have w: "of_nat ?s + (?e div 60000000) * 60000000 = (of_nat (t0 + 60000000 * ?J) :: u32)"
  proof -
    have "?e div 60000000 = of_nat (unat (?e div 60000000))" by simp
    then have "?e div 60000000 = of_nat ?n" unfolding n .
    then show ?thesis by (simp add: J algebra_simps)
  qed
  have rot: "rotate_buckets (min ?n 3) (base_delay_buckets c) = ?b"
    using m rotate_slots [OF old, of ?n] by (simp add: slots_match_def J)
  have small: "?n = 0" if "\<not> 60000000 \<le> ?e" using that e by (simp add: word_le_nat_alt)
  have "record_base_delay_sample (of_nat t) d c = c\<lparr>base_delay_buckets := ?b, base_delay_bucket_started_us := Some (of_nat (t0 + 60000000 * ?J))\<rparr>
      \<lparr>base_delay_buckets := [slot_min t0 ?J 2 xs, slot_min t0 ?J 1 xs,
         Some (case slot_min t0 ?J 0 xs of None \<Rightarrow> d | Some m \<Rightarrow> min m d)]\<rparr>"
  proof (cases "60000000 \<le> ?e")
    case True
    then show ?thesis using m rot n w
      by (simp add: record_base_delay_sample_def slots_match_def Let_def BASE_DELAY_BUCKET_DURATION_US_def BASE_DELAY_BUCKET_COUNT_def)
  next
    case False
    with m small J show ?thesis
      by (simp add: record_base_delay_sample_def slots_match_def Let_def BASE_DELAY_BUCKET_DURATION_US_def)
  qed
  then show ?thesis by (simp add: slots_match_def slot_min_snoc)
qed

lemma on_ack_buckets [simp]:
  "base_delay_buckets (congestion_on_ack t s c) = base_delay_buckets (record_base_delay_sample t (timestamp_diff_us s) c)"
  "base_delay_bucket_started_us (congestion_on_ack t s c) =
     base_delay_bucket_started_us (record_base_delay_sample t (timestamp_diff_us s) c)"
  by (simp_all add: congestion_on_ack_def Let_def)

lemma first_slots:
  assumes "base_delay_bucket_started_us c = None" "base_delay_buckets c = [None, None, None]"
  shows "slots_match t0 0 [(t0, d)] (record_base_delay_sample (of_nat t0) d c)"
  using assms by (simp add: record_base_delay_sample_def slots_match_def slot_min_def slot_def min_of_def Let_def)

lemma min_of_three: "min_of (List.map_filter id [min_of a, min_of b, min_of c]) = min_of (a @ b @ c)"
proof -
  have one: "min_of [x] = Some x" "min_of [x, y] = Some (min x y)" "min_of [x, y, z] = Some (min x (min y z))" for x y z
    by (simp_all add: min_of_def)
  show ?thesis
    unfolding min_of_append by (cases "min_of a"; cases "min_of b"; cases "min_of c") (simp_all add: map_filter_simps one, simp add: min_of_def)
qed

lemma slots_match_window:
  assumes "slots_match t0 J xs c" "\<forall>(t, _) \<in> set xs. slot t0 t \<le> J" "J = slot t0 now"
  shows "base_delay_us c = window_min t0 now xs"
proof -
  let ?f = "\<lambda>a. map snd (filter (\<lambda>(t, _). slot t0 t + a = J) xs)"
  have known: "base_delay_us c = min_of (List.map_filter id [min_of (?f 2), min_of (?f 1), min_of (?f 0)])"
    using assms(1) by (simp add: base_delay_us_def slots_match_def min_of_def slot_min_def Let_def)
  also have "\<dots> = min_of (?f 2 @ ?f 1 @ ?f 0)"
    by (rule min_of_three)
  also have "\<dots> = min_of (map snd (filter (\<lambda>(t, _). J \<le> slot t0 t + 2) xs))"
  proof -
    have "set (?f 2 @ ?f 1 @ ?f 0) = set (map snd (filter (\<lambda>(t, _). J \<le> slot t0 t + 2) xs))"
    proof -
      have "slot t0 t + 2 = J \<or> slot t0 t + 1 = J \<or> slot t0 t + 0 = J \<longleftrightarrow> J \<le> slot t0 t + 2" if "(t, d) \<in> set xs" for t d
        using bspec [OF assms(2) that] by auto
      then show ?thesis
        unfolding set_append set_map set_filter image_Un [symmetric] by (intro arg_cong [where f = "(`) snd"]) auto
    qed
    then show ?thesis unfolding min_of_def by (metis set_empty)
  qed
  finally show ?thesis using assms(3) by (simp add: window_min_def)
qed

subsection \<open>Properties\<close>

definition window_ok :: "congestion_controller \<Rightarrow> bool" where
  "window_ok c \<longleftrightarrow> MIN_CONGESTION_WINDOW_BYTES \<le> cwnd_bytes c \<and> cwnd_bytes c \<le> MAX_CONGESTION_WINDOW_BYTES \<and>
     length (base_delay_buckets c) = BASE_DELAY_BUCKET_COUNT \<and> 1 \<le> target_delay_us c"

lemmas window_consts = MIN_CONGESTION_WINDOW_BYTES_def MAX_CONGESTION_WINDOW_BYTES_def DEFAULT_MTU_PAYLOAD_BYTES_def

lemma clamp_window:
  "MIN_CONGESTION_WINDOW_BYTES \<le> clamp MIN_CONGESTION_WINDOW_BYTES MAX_CONGESTION_WINDOW_BYTES x"
  "clamp MIN_CONGESTION_WINDOW_BYTES MAX_CONGESTION_WINDOW_BYTES x \<le> MAX_CONGESTION_WINDOW_BYTES"
  by (auto simp: clamp_def window_consts)

lemma record_frame:
  "cwnd_bytes (record_base_delay_sample t d c) = cwnd_bytes c"
  "target_delay_us (record_base_delay_sample t d c) = target_delay_us c"
  by (simp_all add: record_base_delay_sample_def Let_def split: option.split)

lemma length_rotate_buckets: "n \<le> length bs \<Longrightarrow> length (rotate_buckets n bs) = length bs"
  by (simp add: rotate_buckets_def Let_def)

lemma record_length:
  assumes "length (base_delay_buckets c) = BASE_DELAY_BUCKET_COUNT"
  shows "length (base_delay_buckets (record_base_delay_sample t d c)) = BASE_DELAY_BUCKET_COUNT"
  using assms
  by (auto simp: record_base_delay_sample_def Let_def length_rotate_buckets BASE_DELAY_BUCKET_COUNT_def split: option.split)

lemma window_ok_new: "window_ok (congestion_new w target)"
  by (simp add: window_ok_def congestion_new_def clamp_window)

lemma window_ok_on_ack: "window_ok c \<Longrightarrow> window_ok (congestion_on_ack t s c)"
  unfolding window_ok_def
  by (simp add: record_length) (simp add: congestion_on_ack_def Let_def record_frame clamp_window)

lemma window_ok_on_timeout: "window_ok c \<Longrightarrow> window_ok (congestion_on_timeout c)"
proof -
  assume ok: "window_ok c"
  have "cwnd_bytes c div 2 \<le> cwnd_bytes c" by (simp add: word_le_nat_alt unat_div)
  with ok show ?thesis by (auto simp: window_ok_def congestion_on_timeout_def max_def intro: order.trans)
qed

lemma ack_run_slots:
  assumes "clock_ok (t0 # map fst xs)"
    and "base_delay_bucket_started_us c = None" "base_delay_buckets c = [None, None, None]"
  shows "slots_match t0 (slot t0 (last (t0 # map fst xs))) (map (apsnd timestamp_diff_us) ((t0, s0) # xs)) (ack_run ((t0, s0) # xs) c) \<and>
    (\<forall>(t, _) \<in> set ((t0, s0) # xs). t0 \<le> t \<and> t \<le> last (t0 # map fst xs))"
  using assms(1)
proof (induction xs rule: rev_induct)
  case Nil
  show ?case using first_slots [OF assms(2,3), of t0 "timestamp_diff_us s0"]
    by (simp add: ack_run_def slots_match_def slot_def)
next
  case (snoc x xs)
  obtain t s where x: "x = (t, s)" by force
  let ?now = "last (t0 # map fst xs)" and ?ys = "(t0, s0) # xs"
  let ?ds = "map (apsnd timestamp_diff_us) ?ys"
  let ?c = "ack_run ?ys c" and ?J = "slot t0 (last (t0 # map fst xs))"
  have clk: "?now \<le> t" "t - ?now \<le> 2 ^ 32 - 60000000" and "clock_ok (t0 # map fst xs)"
    using snoc.prems successively_append_iff [of _ "t0 # map fst xs" "[t]"] by (auto simp: clock_ok_def x)
  with snoc.IH have m: "slots_match t0 ?J ?ds ?c" and ts: "\<forall>(t, _) \<in> set ?ys. t0 \<le> t \<and> t \<le> ?now" by auto
  have old: "\<forall>(t, _) \<in> set ?ds. slot t0 t \<le> ?J"
    using ts by (auto simp: slot_def intro!: div_le_mono diff_le_mono simp del: last.simps)
  have "t0 \<le> ?now" using ts by auto
  then have "t0 + 60000000 * ?J \<le> ?now" "?now < t0 + 60000000 * ?J + 60000000"
    unfolding slot_def by (auto simp del: last.simps)
  with clk have "slots_match t0 (slot t0 t) (?ds @ [(t, timestamp_diff_us s)]) (record_base_delay_sample (of_nat t) (timestamp_diff_us s) ?c)"
    by (intro record_slots [OF m old]) (simp_all del: last.simps)
  moreover have "ack_run ((t0, s0) # xs @ [x]) c = congestion_on_ack (of_nat t) s ?c" by (simp add: ack_run_def x)
  ultimately have "slots_match t0 (slot t0 t) (?ds @ [(t, timestamp_diff_us s)]) (ack_run ((t0, s0) # xs @ [x]) c)"
    by (simp add: slots_match_def)
  moreover have "\<forall>(t', _) \<in> set ((t0, s0) # xs @ [x]). t0 \<le> t' \<and> t' \<le> t"
    using ts clk(1) \<open>t0 \<le> ?now\<close> by (fastforce simp: x simp del: last.simps)
  ultimately show ?case by (simp add: x)
qed

text \<open>
  C10. After any sequence of acknowledgements, the controller's base delay is the least delay seen in
  the current one-minute bucket and the two before it, buckets counted from the first sample, although
  the code only keeps three minima and a clock of 32 bits: it is enough that the clock does not go back
  and that no two samples are further apart than the clock can tell (about 70 minutes). An increase of
  the path's delay is thus seen within three minutes.
\<close>

theorem base_delay_windowed:
  assumes "clock_ok (t0 # map fst xs)"
  shows "base_delay_us (ack_run ((t0, s0) # xs) (congestion_new w target))
    = window_min t0 (last (t0 # map fst xs)) (map (apsnd timestamp_diff_us) ((t0, s0) # xs))"
proof -
  let ?now = "last (t0 # map fst xs)"
  have "base_delay_bucket_started_us (congestion_new w target) = None"
    "base_delay_buckets (congestion_new w target) = [None, None, None]"
    by (simp_all add: congestion_new_def BASE_DELAY_BUCKET_COUNT_def numeral_3_eq_3)
  from ack_run_slots [OF assms this]
  have m: "slots_match t0 (slot t0 ?now) (map (apsnd timestamp_diff_us) ((t0, s0) # xs)) (ack_run ((t0, s0) # xs) (congestion_new w target))"
    and ts: "\<forall>(t, _) \<in> set ((t0, s0) # xs). t0 \<le> t \<and> t \<le> ?now" by auto
  have "\<forall>(t, _) \<in> set (map (apsnd timestamp_diff_us) ((t0, s0) # xs)). slot t0 t \<le> slot t0 ?now"
    using ts by (auto simp: slot_def intro!: div_le_mono diff_le_mono simp del: last.simps)
  from slots_match_window [OF m this refl] show ?thesis .
qed

theorem base_delay_windowed_witness:
  "base_delay_us (ack_run [(4294900000, \<lparr>timestamp_diff_us = 500, bytes_acked = 0\<rparr>),
       (4494900000, \<lparr>timestamp_diff_us = 900, bytes_acked = 0\<rparr>)] (congestion_new 65536 100000)) = Some 900"
  using base_delay_windowed [of 4294900000 "[(4494900000, \<lparr>timestamp_diff_us = 900, bytes_acked = 0\<rparr>)]"
      "\<lparr>timestamp_diff_us = 500, bytes_acked = 0\<rparr>" 65536 100000]
  by (simp add: clock_ok_def window_min_def min_of_def slot_def)

end
