(* ===== verification/Utp_Connection.thy ===== *)
theory Utp_Connection
  imports Utp_Packet Utp_Congestion
begin

text \<open>
  The uTP connection state machine, \<open>state.rs\<close> of \<open>crates/rt-utp\<close>: connection ids, sequence numbers,
  acknowledgements, round-trip estimates and the state changes of a connection, with the stream one end
  sends and the other delivers over a network that loses, repeats and reorders datagrams.
\<close>

subsection \<open>Connection ids\<close>

datatype endpoint_role = Initiator | Acceptor

record connection_ids =
  ids_send :: u16
  ids_recv :: u16

definition new_syn :: "u16 \<Rightarrow> connection_ids" where
  "new_syn connection_id = \<lparr>ids_send = connection_id, ids_recv = connection_id + 1\<rparr>"

definition from_syn_for_acceptor :: "u16 \<Rightarrow> connection_ids" where
  "from_syn_for_acceptor connection_id = \<lparr>ids_send = connection_id + 1, ids_recv = connection_id\<rparr>"

fun for_role :: "endpoint_role \<Rightarrow> u16 \<Rightarrow> connection_ids" where
  "for_role Initiator syn_connection_id = new_syn syn_connection_id"
| "for_role Acceptor syn_connection_id = from_syn_for_acceptor syn_connection_id"

definition expected_for :: "connection_ids \<Rightarrow> packet_type \<Rightarrow> u16" where
  "expected_for ids pt = (case pt of PtSyn \<Rightarrow> ids_recv ids - 1 | _ \<Rightarrow> ids_recv ids)"

definition validate_inbound :: "connection_ids \<Rightarrow> utp_header \<Rightarrow> utp_error + unit" where
  "validate_inbound ids h =
     (let expected = expected_for ids (h_packet_type h) in
      if h_connection_id h = expected then Inr () else Inl (ConnectionIdMismatch expected (h_connection_id h)))"

subsection \<open>Connection\<close>

datatype inbound_action = ActNone | SendState | DeliverPayload | Close | ActReset

definition DEFAULT_RETRANSMIT_TIMEOUT_US :: u64 where
  "DEFAULT_RETRANSMIT_TIMEOUT_US = 500000"

record utp_connection =
  conn_state :: connection_state
  conn_ids :: connection_ids
  seq_nr :: u16
  ack_nr :: u16
  last_received :: "u16 option"
  oldest_unacked :: u16
  newest_sent :: u16
  remote_window_bytes :: u32
  local_window_bytes :: u32
  bytes_in_flight :: u32
  rtt_us :: "u32 option"
  rtt_var_us :: "u32 option"
  retransmit_timeout_us :: u64
  congestion :: congestion_controller

definition utp_connect :: "u16 \<Rightarrow> u16 \<Rightarrow> utp_connection" where
  "utp_connect connection_id initial_seq_nr =
     \<lparr>conn_state = SynSent, conn_ids = new_syn connection_id, seq_nr = initial_seq_nr, ack_nr = 0, last_received = None,
      oldest_unacked = initial_seq_nr, newest_sent = initial_seq_nr,
      remote_window_bytes = DEFAULT_INITIAL_WINDOW_BYTES, local_window_bytes = DEFAULT_INITIAL_WINDOW_BYTES,
      bytes_in_flight = 0, rtt_us = None, rtt_var_us = None,
      retransmit_timeout_us = DEFAULT_RETRANSMIT_TIMEOUT_US, congestion = congestion_default\<rparr>"

definition utp_accept :: "utp_header \<Rightarrow> u16 \<Rightarrow> utp_error + utp_connection" where
  "utp_accept syn initial_seq_nr =
     (if h_packet_type syn \<noteq> PtSyn then Inl (InvalidStatePacket Closed (h_packet_type syn))
      else Inr
        \<lparr>conn_state = SynReceived, conn_ids = from_syn_for_acceptor (h_connection_id syn), seq_nr = initial_seq_nr,
         ack_nr = h_seq_nr syn, last_received = Some (h_seq_nr syn),
         oldest_unacked = initial_seq_nr, newest_sent = initial_seq_nr,
         remote_window_bytes = h_wnd_size syn, local_window_bytes = DEFAULT_INITIAL_WINDOW_BYTES,
         bytes_in_flight = 0, rtt_us = None, rtt_var_us = None,
         retransmit_timeout_us = DEFAULT_RETRANSMIT_TIMEOUT_US, congestion = congestion_default\<rparr>)"

definition available_send_window :: "utp_connection \<Rightarrow> u32" where
  "available_send_window c = saturating_sub (min (remote_window_bytes c) (cwnd_bytes (congestion c))) (bytes_in_flight c)"

definition set_local_window_bytes :: "u32 \<Rightarrow> utp_connection \<Rightarrow> utp_connection" where
  "set_local_window_bytes b c = c\<lparr>local_window_bytes := b\<rparr>"

definition is_established :: "utp_connection \<Rightarrow> bool" where
  "is_established c \<longleftrightarrow> (case conn_state c of Connected \<Rightarrow> True | FinSent \<Rightarrow> True | FinReceived \<Rightarrow> True | _ \<Rightarrow> False)"

definition conn_header :: "packet_type \<Rightarrow> u16 \<Rightarrow> u32 \<Rightarrow> u32 \<Rightarrow> utp_connection \<Rightarrow> utp_header" where
  "conn_header pt connection_id now_us timestamp_diff c =
     \<lparr>h_packet_type = pt, h_version = 1, h_extension = 0, h_connection_id = connection_id, h_timestamp_us = now_us,
      h_timestamp_diff = timestamp_diff, h_wnd_size = local_window_bytes c, h_seq_nr = seq_nr c, h_ack_nr = ack_nr c\<rparr>"

definition mark_sent :: "u32 \<Rightarrow> utp_connection \<Rightarrow> utp_connection" where
  "mark_sent payload_len c =
     c\<lparr>newest_sent := seq_nr c, seq_nr := seq_nr c + 1, bytes_in_flight := saturating_add (bytes_in_flight c) payload_len\<rparr>"

definition build_syn :: "u32 \<Rightarrow> utp_connection \<Rightarrow> utp_packet \<times> utp_connection" where
  "build_syn now_us c =
     (\<lparr>p_header = conn_header PtSyn (ids_send (conn_ids c)) now_us 0 c, p_extensions = [], p_payload = []\<rparr>, mark_sent 0 c)"

definition build_state :: "u32 \<Rightarrow> u32 \<Rightarrow> utp_connection \<Rightarrow> utp_packet \<times> utp_connection" where
  "build_state now_us timestamp_diff c =
     (\<lparr>p_header = conn_header PtState (ids_send (conn_ids c)) now_us timestamp_diff c, p_extensions = [], p_payload = []\<rparr>,
      if conn_state c = SynReceived then mark_sent 0 c else c)"

definition build_data :: "u32 \<Rightarrow> u32 \<Rightarrow> bytes \<Rightarrow> utp_connection \<Rightarrow> utp_packet \<times> utp_connection" where
  "build_data now_us timestamp_diff data c =
     (\<lparr>p_header = conn_header PtData (ids_send (conn_ids c)) now_us timestamp_diff c, p_extensions = [], p_payload = data\<rparr>,
      mark_sent (of_nat (length data)) c)"

definition build_fin :: "u32 \<Rightarrow> u32 \<Rightarrow> utp_connection \<Rightarrow> utp_packet \<times> utp_connection" where
  "build_fin now_us timestamp_diff c =
     (\<lparr>p_header = conn_header PtFin (ids_send (conn_ids c)) now_us timestamp_diff c, p_extensions = [], p_payload = []\<rparr>,
      (mark_sent 0 c)\<lparr>conn_state := FinSent\<rparr>)"

definition build_state_with_selective_ack :: "u32 \<Rightarrow> u32 \<Rightarrow> selective_ack \<Rightarrow> utp_connection \<Rightarrow> utp_packet" where
  "build_state_with_selective_ack now_us timestamp_diff sack c =
     \<lparr>p_header = conn_header PtState (ids_send (conn_ids c)) now_us timestamp_diff c,
      p_extensions = (if sack = [] then [] else [\<lparr>ext_kind = SACK_EXTENSION_KIND, ext_data = sack\<rparr>]), p_payload = []\<rparr>"

definition sequence_before :: "u16 \<Rightarrow> u16 \<Rightarrow> bool" where
  "sequence_before a b \<longleftrightarrow> a \<noteq> b \<and> a - b > 0x8000"

definition apply_ack :: "u16 \<Rightarrow> utp_connection \<Rightarrow> (utp_error + bool) \<times> utp_connection" where
  "apply_ack ack c =
     (if sequence_before (newest_sent c) ack then (Inl (AckOutOfWindow ack (oldest_unacked c) (newest_sent c)), c)
      else if \<not> sequence_before (oldest_unacked c) ack \<and> oldest_unacked c \<noteq> ack then (Inr False, c)
      else (Inr True, c\<lparr>oldest_unacked := ack + 1, bytes_in_flight := 0\<rparr>))"

definition abs_diff :: "u32 \<Rightarrow> u32 \<Rightarrow> u32" where
  "abs_diff a b = (if a < b then b - a else a - b)"

definition update_rtt :: "u32 \<Rightarrow> utp_connection \<Rightarrow> utp_connection" where
  "update_rtt measured_us c =
     (let c1 = (case (rtt_us c, rtt_var_us c) of
            (Some rtt, Some var) \<Rightarrow>
              (let delta = abs_diff rtt measured_us;
                   next_var = (u64_from var * 3 + u64_from delta) div 4;
                   next_rtt = (u64_from rtt * 7 + u64_from measured_us) div 8 in
               c\<lparr>rtt_us := Some (ucast (min next_rtt (u64_from (-1)))), rtt_var_us := Some (ucast (min next_var (u64_from (-1))))\<rparr>)
          | _ \<Rightarrow> c\<lparr>rtt_us := Some measured_us, rtt_var_us := Some (measured_us div 2)\<rparr>);
          rtt = u64_from (case rtt_us c1 of Some r \<Rightarrow> r | None \<Rightarrow> ucast DEFAULT_RETRANSMIT_TIMEOUT_US);
          var = u64_from (case rtt_var_us c1 of Some v \<Rightarrow> v | None \<Rightarrow> 0) in
      c1\<lparr>retransmit_timeout_us := max (rtt + 4 * var) 100000\<rparr>)"

definition accept_inbound_sequence :: "u16 \<Rightarrow> utp_connection \<Rightarrow> bool \<times> utp_connection" where
  "accept_inbound_sequence seq c =
     (case last_received c of
        None \<Rightarrow> (False, c)
      | Some l \<Rightarrow> if seq \<noteq> l + 1 then (False, c) else (True, c\<lparr>ack_nr := seq, last_received := Some seq\<rparr>))"

text \<open>
  \<open>on_inbound\<close> returns the connection along with the result, since a packet that is refused late has
  changed it already. The last branch of \<open>inbound_packet\<close> is the \<open>unreachable!\<close> of the source: a RESET has
  returned before.
\<close>

definition inbound_ack :: "utp_packet \<Rightarrow> u32 \<Rightarrow> utp_connection \<Rightarrow> (utp_error + unit) \<times> utp_connection" where
  "inbound_ack packet now_us c0 =
     (let h = p_header packet; c = c0\<lparr>remote_window_bytes := h_wnd_size h\<rparr>; acked = bytes_in_flight c in
      case apply_ack (h_ack_nr h) c of
        (Inl e, c1) \<Rightarrow> (Inl e, c1)
      | (Inr ack_advanced, c1) \<Rightarrow>
          (Inr (),
           if h_timestamp_diff h > 0 then
             let c2 = update_rtt (h_timestamp_diff h) c1 in
             c2\<lparr>congestion := congestion_on_ack now_us
                 \<lparr>timestamp_diff_us = h_timestamp_diff h, bytes_acked = (if ack_advanced then acked else 0)\<rparr> (congestion c2)\<rparr>
           else c1))"

definition inbound_packet :: "utp_packet \<Rightarrow> utp_connection \<Rightarrow> (utp_error + inbound_action) \<times> utp_connection" where
  "inbound_packet packet c =
     (let h = p_header packet in
      case h_packet_type h of
        PtSyn \<Rightarrow> (Inl (InvalidStatePacket (conn_state c) PtSyn), c)
      | PtState \<Rightarrow>
          (Inr ActNone,
           if conn_state c = SynSent then c\<lparr>ack_nr := h_seq_nr h, last_received := Some (h_seq_nr h), conn_state := Connected\<rparr>
           else if conn_state c = FinSent then c\<lparr>conn_state := Closing\<rparr> else c)
      | PtData \<Rightarrow>
          (case accept_inbound_sequence (h_seq_nr h) c of
             (False, c1) \<Rightarrow> (Inr SendState, c1)
           | (True, c1) \<Rightarrow> (Inr DeliverPayload, if conn_state c1 = SynReceived then c1\<lparr>conn_state := Connected\<rparr> else c1))
      | PtFin \<Rightarrow>
          (case accept_inbound_sequence (h_seq_nr h) c of
             (False, c1) \<Rightarrow> (Inr SendState, c1)
           | (True, c1) \<Rightarrow> (Inr Close, c1\<lparr>conn_state := (if conn_state c1 = FinSent then Closing else FinReceived)\<rparr>))
      | PtReset \<Rightarrow> (Inr ActReset, c))"

definition on_inbound :: "utp_packet \<Rightarrow> u32 \<Rightarrow> utp_connection \<Rightarrow> (utp_error + inbound_action) \<times> utp_connection" where
  "on_inbound packet now_us c =
     (case validate_inbound (conn_ids c) (p_header packet) of
        Inl e \<Rightarrow> (Inl e, c)
      | Inr _ \<Rightarrow>
          if h_packet_type (p_header packet) = PtReset then (Inr ActReset, c\<lparr>conn_state := ResetState\<rparr>)
          else
            (case inbound_ack packet now_us c of
               (Inl e, c1) \<Rightarrow> (Inl e, c1)
             | (Inr _, c1) \<Rightarrow> inbound_packet packet c1))"

definition mark_closed :: "utp_connection \<Rightarrow> utp_connection" where
  "mark_closed c = c\<lparr>conn_state := Closed\<rparr>"

definition utp_on_timeout :: "utp_connection \<Rightarrow> utp_connection" where
  "utp_on_timeout c = c\<lparr>congestion := congestion_on_timeout (congestion c)\<rparr>"

definition all_sent_packets_acked :: "utp_connection \<Rightarrow> bool" where
  "all_sent_packets_acked c \<longleftrightarrow> oldest_unacked c = seq_nr c"

subsection \<open>What an inbound packet changes\<close>

lemma update_rtt_frame [simp]:
  "seq_nr (update_rtt m c) = seq_nr c" "newest_sent (update_rtt m c) = newest_sent c"
  "oldest_unacked (update_rtt m c) = oldest_unacked c" "ack_nr (update_rtt m c) = ack_nr c"
  "last_received (update_rtt m c) = last_received c" "conn_state (update_rtt m c) = conn_state c"
  "conn_ids (update_rtt m c) = conn_ids c" "congestion (update_rtt m c) = congestion c"
  by (simp_all add: update_rtt_def Let_def split: option.split)

lemma apply_ack_frame:
  assumes "apply_ack a c = (r, c')"
  shows "seq_nr c' = seq_nr c" "newest_sent c' = newest_sent c" "ack_nr c' = ack_nr c" "last_received c' = last_received c"
    "conn_state c' = conn_state c" "congestion c' = congestion c" "rtt_us c' = rtt_us c" "rtt_var_us c' = rtt_var_us c"
    "retransmit_timeout_us c' = retransmit_timeout_us c"
    "oldest_unacked c' = oldest_unacked c \<or> oldest_unacked c' = a + 1"
  using assms by (auto simp: apply_ack_def split: if_splits)

lemma inbound_ack_frame:
  assumes "inbound_ack p now c = (r, c')"
  shows "seq_nr c' = seq_nr c" "newest_sent c' = newest_sent c" "ack_nr c' = ack_nr c" "last_received c' = last_received c"
    "conn_state c' = conn_state c"
    "oldest_unacked c' = oldest_unacked c \<or> oldest_unacked c' = h_ack_nr (p_header p) + 1"
proof -
  let ?c = "c\<lparr>remote_window_bytes := h_wnd_size (p_header p)\<rparr>"
  obtain q d where q: "apply_ack (h_ack_nr (p_header p)) ?c = (q, d)" by force
  note f = apply_ack_frame [OF q]
  show "seq_nr c' = seq_nr c" "newest_sent c' = newest_sent c" "ack_nr c' = ack_nr c" "last_received c' = last_received c"
    "conn_state c' = conn_state c" "oldest_unacked c' = oldest_unacked c \<or> oldest_unacked c' = h_ack_nr (p_header p) + 1"
    using assms f q by (auto simp: inbound_ack_def Let_def split: sum.splits if_splits)
qed

lemma inbound_packet_frame:
  assumes "inbound_packet p c = (r, c')"
  shows "seq_nr c' = seq_nr c" "newest_sent c' = newest_sent c" "oldest_unacked c' = oldest_unacked c"
  using assms
  by (auto simp: inbound_packet_def accept_inbound_sequence_def Let_def split: packet_type.splits option.splits if_splits prod.splits bool.splits)

lemma on_inbound_split:
  assumes "on_inbound p now c = (r, c')"
  obtains (refused) e where "r = Inl e" "c' = c"
    | (reset) "r = Inr ActReset" "c' = c\<lparr>conn_state := ResetState\<rparr>"
    | (bad_ack) e where "inbound_ack p now c = (Inl e, c')" "r = Inl e"
    | (packet) d where "inbound_ack p now c = (Inr (), d)" "inbound_packet p d = (r, c')"
  using assms by (auto simp: on_inbound_def split: sum.splits if_splits prod.splits)

lemma on_inbound_frame:
  assumes "on_inbound p now c = (r, c')"
  shows "seq_nr c' = seq_nr c \<and> newest_sent c' = newest_sent c \<and>
    (oldest_unacked c' = oldest_unacked c \<or> oldest_unacked c' = h_ack_nr (p_header p) + 1)"
  using assms
proof (cases rule: on_inbound_split)
  case (bad_ack e)
  then show ?thesis using inbound_ack_frame [OF bad_ack(1)] by simp
next
  case (packet d)
  then show ?thesis using inbound_ack_frame [OF packet(1)] inbound_packet_frame [OF packet(2)] by simp
qed auto

text \<open>
  A packet is delivered exactly when it is the next one in sequence; every other packet leaves the
  receive side as it was, once the connection has seen the other end's first sequence number.
\<close>

lemma inbound_packet_cases:
  assumes "inbound_packet p c = (r, c')" "conn_state c \<noteq> SynSent"
  obtains (next_one) l where "last_received c = Some l" "h_seq_nr (p_header p) = l + 1"
      "last_received c' = Some (l + 1)" "ack_nr c' = l + 1" "conn_state c' \<noteq> SynSent"
      "r = Inr DeliverPayload \<and> h_packet_type (p_header p) = PtData \<or> r = Inr Close \<and> h_packet_type (p_header p) = PtFin"
    | (other) "r \<noteq> Inr DeliverPayload" "r \<noteq> Inr Close" "last_received c' = last_received c" "ack_nr c' = ack_nr c"
      "conn_state c' \<noteq> SynSent"
  using assms
  by (auto simp: inbound_packet_def accept_inbound_sequence_def Let_def split: packet_type.splits option.splits if_splits prod.splits bool.splits)

lemma on_inbound_cases:
  assumes "on_inbound p now c = (r, c')" "conn_state c \<noteq> SynSent"
  obtains (next_one) l where "last_received c = Some l" "h_seq_nr (p_header p) = l + 1"
      "last_received c' = Some (l + 1)" "ack_nr c' = l + 1" "conn_state c' \<noteq> SynSent"
      "r = Inr DeliverPayload \<and> h_packet_type (p_header p) = PtData \<or> r = Inr Close \<and> h_packet_type (p_header p) = PtFin"
    | (other) "r \<noteq> Inr DeliverPayload" "r \<noteq> Inr Close" "last_received c' = last_received c" "ack_nr c' = ack_nr c"
      "conn_state c' \<noteq> SynSent"
  using assms(1)
proof (cases rule: on_inbound_split)
  case (bad_ack e)
  then show ?thesis using inbound_ack_frame [OF bad_ack(1)] assms(2) by (intro other) auto
next
  case (packet d)
  note f = inbound_ack_frame [OF packet(1)]
  have "conn_state d \<noteq> SynSent" using f assms(2) by simp
  with packet(2) show ?thesis
    by (rule inbound_packet_cases) (use f in \<open>auto intro: next_one other\<close>)
qed (use assms(2) in \<open>auto intro: other\<close>)

subsection \<open>Two ends and a network between them\<close>

text \<open>
  The client sends data and a FIN, the server delivers; \<open>sent\<close> and \<open>got\<close> record what was handed to one
  end and what the other handed on, \<open>None\<close> for the end of the stream. A datagram once sent stays in the
  network: it may be received any number of times, in any order, or never, which covers retransmission.
\<close>

record utp_system =
  cli :: utp_connection
  srv :: "utp_connection option"
  to_srv :: "utp_packet set"
  to_cli :: "utp_packet set"
  sent :: "bytes option list"
  got :: "bytes option list"

definition delivered :: "utp_error + inbound_action \<Rightarrow> utp_packet \<Rightarrow> bytes option list" where
  "delivered r p = (if r = Inr DeliverPayload then [Some (p_payload p)] else if r = Inr Close then [None] else [])"

definition replies :: "u32 \<Rightarrow> u32 \<Rightarrow> bytes \<Rightarrow> selective_ack \<Rightarrow> utp_connection \<Rightarrow> (utp_packet \<times> utp_connection) set" where
  "replies now diff data sack c =
     {build_state now diff c, build_data now diff data c, build_fin now diff c, (build_state_with_selective_ack now diff sack c, c)}"

inductive utp_run :: "u16 \<Rightarrow> u16 \<Rightarrow> utp_system \<Rightarrow> bool" for cid isn where
  client_opens: "build_syn now (utp_connect cid isn) = (p, c) \<Longrightarrow>
    utp_run cid isn \<lparr>cli = c, srv = None, to_srv = {p}, to_cli = {}, sent = [], got = []\<rparr>"
| client_data: "utp_run cid isn s \<Longrightarrow> build_data now diff data (cli s) = (p, c) \<Longrightarrow>
    utp_run cid isn (s\<lparr>cli := c, to_srv := insert p (to_srv s), sent := sent s @ [Some data]\<rparr>)"
| client_fin: "utp_run cid isn s \<Longrightarrow> build_fin now diff (cli s) = (p, c) \<Longrightarrow>
    utp_run cid isn (s\<lparr>cli := c, to_srv := insert p (to_srv s), sent := sent s @ [None]\<rparr>)"
| client_ack: "utp_run cid isn s \<Longrightarrow>
    utp_run cid isn (s\<lparr>to_srv := insert (build_state_with_selective_ack now diff sack (cli s)) (to_srv s)\<rparr>)"
| client_receives: "utp_run cid isn s \<Longrightarrow> p \<in> to_cli s \<Longrightarrow> on_inbound p now (cli s) = (r, c) \<Longrightarrow>
    utp_run cid isn (s\<lparr>cli := c\<rparr>)"
| client_timeout: "utp_run cid isn s \<Longrightarrow> utp_run cid isn (s\<lparr>cli := utp_on_timeout (cli s)\<rparr>)"
| server_opens: "utp_run cid isn s \<Longrightarrow> srv s = None \<Longrightarrow> p \<in> to_srv s \<Longrightarrow> utp_accept (p_header p) isn' = Inr c \<Longrightarrow>
    utp_run cid isn (s\<lparr>srv := Some c\<rparr>)"
| server_sends: "utp_run cid isn s \<Longrightarrow> srv s = Some b \<Longrightarrow> (p, b') \<in> replies now diff data sack b \<Longrightarrow>
    utp_run cid isn (s\<lparr>srv := Some b', to_cli := insert p (to_cli s)\<rparr>)"
| server_receives: "utp_run cid isn s \<Longrightarrow> srv s = Some b \<Longrightarrow> p \<in> to_srv s \<Longrightarrow> on_inbound p now b = (r, b') \<Longrightarrow>
    utp_run cid isn (s\<lparr>srv := Some b', got := got s @ delivered r p\<rparr>)"
| server_timeout: "utp_run cid isn s \<Longrightarrow> srv s = Some b \<Longrightarrow> utp_run cid isn (s\<lparr>srv := Some (utp_on_timeout b)\<rparr>)"

text \<open>
  The invariant: item \<open>i\<close> of the stream has sequence number \<open>isn + 1 + i\<close>; the server has seen up to
  \<open>isn + length got\<close>; and nothing acknowledges, and the client believes nothing to be acknowledged, that
  the server has not delivered.
\<close>

definition item_of :: "u16 \<Rightarrow> bytes option list \<Rightarrow> utp_packet \<Rightarrow> bool" where
  "item_of isn items p \<longleftrightarrow>
     (case h_packet_type (p_header p) of
        PtSyn \<Rightarrow> h_seq_nr (p_header p) = isn
      | PtData \<Rightarrow> \<exists>i < length items. items ! i = Some (p_payload p) \<and> h_seq_nr (p_header p) = isn + 1 + of_nat i
      | PtFin \<Rightarrow> \<exists>i < length items. items ! i = None \<and> h_seq_nr (p_header p) = isn + 1 + of_nat i
      | _ \<Rightarrow> True)"

definition acks_upto :: "u16 \<Rightarrow> nat \<Rightarrow> utp_packet \<Rightarrow> bool" where
  "acks_upto isn n p \<longleftrightarrow> (\<exists>k \<le> n. h_ack_nr (p_header p) = isn + of_nat k)"

definition server_at :: "u16 \<Rightarrow> nat \<Rightarrow> utp_connection \<Rightarrow> bool" where
  "server_at isn n b \<longleftrightarrow> last_received b = Some (isn + of_nat n) \<and> ack_nr b = isn + of_nat n \<and> conn_state b \<noteq> SynSent"

definition client_at :: "u16 \<Rightarrow> nat \<Rightarrow> nat \<Rightarrow> utp_connection \<Rightarrow> bool" where
  "client_at isn n_sent n_got c \<longleftrightarrow> seq_nr c = isn + 1 + of_nat n_sent \<and> (\<exists>j \<le> n_got + 1. oldest_unacked c = isn + of_nat j)"

definition server_ok :: "u16 \<Rightarrow> bytes option list \<Rightarrow> utp_connection option \<Rightarrow> bool" where
  "server_ok isn items sv \<longleftrightarrow> (case sv of None \<Rightarrow> items = [] | Some b \<Rightarrow> server_at isn (length items) b)"

definition stream_inv :: "u16 \<Rightarrow> utp_system \<Rightarrow> bool" where
  "stream_inv isn s \<longleftrightarrow>
     client_at isn (length (sent s)) (length (got s)) (cli s) \<and> length (got s) \<le> length (sent s) \<and>
     got s = take (length (got s)) (sent s) \<and> (\<forall>p \<in> to_srv s. item_of isn (sent s) p) \<and>
     (\<forall>p \<in> to_cli s. acks_upto isn (length (got s)) p) \<and>
     server_ok isn (got s) (srv s)"

lemma server_ok_simps [simp]:
  "server_ok isn items None \<longleftrightarrow> items = []" "server_ok isn items (Some b) \<longleftrightarrow> server_at isn (length items) b"
  by (simp_all add: server_ok_def)

lemma item_of_snoc: "item_of isn items p \<Longrightarrow> item_of isn (items @ [x]) p"
  by (auto simp: item_of_def nth_append split: packet_type.splits)

lemma item_of_last:
  assumes "h_seq_nr (p_header p) = isn + 1 + of_nat (length items)"
    "h_packet_type (p_header p) = PtData \<and> x = Some (p_payload p) \<or> h_packet_type (p_header p) = PtFin \<and> x = None"
  shows "item_of isn (items @ [x]) p"
  using assms by (auto simp: item_of_def intro!: exI [of _ "length items"])

lemma acks_upto_mono: "acks_upto isn n p \<Longrightarrow> n \<le> m \<Longrightarrow> acks_upto isn m p"
  unfolding acks_upto_def by (meson order.trans)

lemma client_send_inv:
  assumes "stream_inv isn s" "seq_nr c = seq_nr (cli s) + 1" "oldest_unacked c = oldest_unacked (cli s)"
    "h_seq_nr (p_header p) = seq_nr (cli s)"
    "h_packet_type (p_header p) = PtData \<and> x = Some (p_payload p) \<or> h_packet_type (p_header p) = PtFin \<and> x = None"
  shows "stream_inv isn (s\<lparr>cli := c, to_srv := insert p (to_srv s), sent := sent s @ [x]\<rparr>)"
proof -
  have "client_at isn (length (sent s)) (length (got s)) (cli s)" using assms(1) by (simp add: stream_inv_def)
  then have "client_at isn (Suc (length (sent s))) (length (got s)) c" "h_seq_nr (p_header p) = isn + 1 + of_nat (length (sent s))"
    using assms(2-4) by (auto simp: client_at_def)
  moreover from this(2) assms(5) have "item_of isn (sent s @ [x]) p" by (rule item_of_last)
  ultimately show ?thesis using assms(1) by (auto simp: stream_inv_def item_of_snoc)
qed

lemma client_receive_inv:
  assumes "stream_inv isn s" "p \<in> to_cli s" "on_inbound p now (cli s) = (r, c)"
  shows "stream_inv isn (s\<lparr>cli := c\<rparr>)"
proof -
  obtain k where k: "k \<le> length (got s)" "h_ack_nr (p_header p) = isn + of_nat k"
    using assms(1,2) by (auto simp: stream_inv_def acks_upto_def)
  then have "h_ack_nr (p_header p) + 1 = isn + of_nat (Suc k)" "Suc k \<le> length (got s) + 1" by simp_all
  moreover have "client_at isn (length (sent s)) (length (got s)) (cli s)" using assms(1) by (simp add: stream_inv_def)
  ultimately have "client_at isn (length (sent s)) (length (got s)) c"
    using on_inbound_frame [OF assms(3)] unfolding client_at_def by metis
  then show ?thesis using assms(1) by (simp add: stream_inv_def)
qed

lemma server_open_inv:
  assumes "stream_inv isn s" "srv s = None" "p \<in> to_srv s" "utp_accept (p_header p) isn' = Inr c"
  shows "stream_inv isn (s\<lparr>srv := Some c\<rparr>)"
proof -
  have syn: "h_packet_type (p_header p) = PtSyn" and c: "last_received c = Some (h_seq_nr (p_header p))"
    "ack_nr c = h_seq_nr (p_header p)" "conn_state c = SynReceived"
    using assms(4) by (auto simp: utp_accept_def split: if_splits)
  moreover from syn assms(1,3) have "h_seq_nr (p_header p) = isn" by (auto simp: stream_inv_def item_of_def)
  ultimately show ?thesis using assms(1,2) by (auto simp: stream_inv_def server_at_def)
qed

lemma server_send_inv:
  assumes "stream_inv isn s" "srv s = Some b" "(p, b') \<in> replies now diff data sack b"
  shows "stream_inv isn (s\<lparr>srv := Some b', to_cli := insert p (to_cli s)\<rparr>)"
proof -
  have "server_at isn (length (got s)) b" using assms(1,2) by (simp add: stream_inv_def)
  then have "server_at isn (length (got s)) b'" "acks_upto isn (length (got s)) p"
    using assms(3) by (auto simp: replies_def server_at_def acks_upto_def build_state_def build_data_def build_fin_def
        build_state_with_selective_ack_def mark_sent_def conn_header_def split: if_splits)
  then show ?thesis using assms(1) by (simp add: stream_inv_def)
qed

lemma u16_index_unique: "(of_nat i :: u16) = of_nat j \<Longrightarrow> i < 65536 \<Longrightarrow> j < 65536 \<Longrightarrow> i = j"
  by (simp add: word_of_nat_eq_iff take_bit_nat_eq_self)

lemma server_receive_inv:
  assumes inv: "stream_inv isn s" and srv: "srv s = Some b" and p: "p \<in> to_srv s"
    and r: "on_inbound p now b = (r, b')" and few: "length (sent s) < 65535"
  shows "stream_inv isn (s\<lparr>srv := Some b', got := got s @ delivered r p\<rparr>)"
proof -
  let ?n = "length (got s)"
  have at: "server_at isn ?n b" and le: "?n \<le> length (sent s)" and g: "got s = take ?n (sent s)"
    and it: "item_of isn (sent s) p" using inv srv p by (auto simp: stream_inv_def)
  from at have "conn_state b \<noteq> SynSent" by (simp add: server_at_def)
  with r show ?thesis
  proof (cases rule: on_inbound_cases)
    case (next_one l)
    then have l: "l = isn + of_nat ?n" using at by (simp add: server_at_def)
    obtain i x where i: "i < length (sent s)" "sent s ! i = x" "h_seq_nr (p_header p) = isn + 1 + of_nat i" "delivered r p = [x]"
      using next_one(6) it by (auto simp: item_of_def delivered_def)
    have "(of_nat i :: u16) = of_nat ?n" using i(3) next_one(2) l by simp
    then have "i = ?n" using i(1) le few by (intro u16_index_unique) auto
    then have "got s @ delivered r p = take (Suc ?n) (sent s)" "Suc ?n \<le> length (sent s)"
      using i g by (auto simp: take_Suc_conv_app_nth)
    moreover have "server_at isn (Suc ?n) b'" using next_one l by (simp add: server_at_def)
    moreover have "client_at isn (length (sent s)) (Suc ?n) (cli s)"
      using inv by (auto simp: stream_inv_def client_at_def intro: le_SucI)
    moreover have "\<forall>q \<in> to_cli s. acks_upto isn (Suc ?n) q"
      using inv acks_upto_mono [of isn ?n _ "Suc ?n"] by (simp add: stream_inv_def)
    ultimately show ?thesis using inv i(4) by (simp add: stream_inv_def)
  next
    case other
    then have "delivered r p = []" "server_at isn ?n b'" using at by (auto simp: delivered_def server_at_def)
    then show ?thesis using inv by (simp add: stream_inv_def)
  qed
qed

lemma utp_run_inv: "utp_run cid isn s \<Longrightarrow> length (sent s) < 65535 \<Longrightarrow> stream_inv isn s"
proof (induction rule: utp_run.induct)
  case (client_opens now p c)
  then show ?case
    by (auto simp: build_syn_def utp_connect_def mark_sent_def conn_header_def stream_inv_def client_at_def item_of_def
        intro: exI [of _ 0])
next
  case (client_data s now diff data p c)
  then show ?case by (intro client_send_inv) (auto simp: build_data_def mark_sent_def conn_header_def)
next
  case (client_fin s now diff p c)
  then show ?case by (intro client_send_inv) (auto simp: build_fin_def mark_sent_def conn_header_def)
next
  case (client_ack s now diff sack)
  then show ?case
    by (auto simp: stream_inv_def item_of_def build_state_with_selective_ack_def conn_header_def)
next
  case (client_timeout s)
  then show ?case by (auto simp: stream_inv_def client_at_def utp_on_timeout_def)
next
  case (server_timeout s b)
  then show ?case by (auto simp: stream_inv_def server_at_def utp_on_timeout_def)
next
  case (client_receives s p now r c)
  then show ?case by (intro client_receive_inv) simp_all
next
  case (server_opens s p isn' c)
  then show ?case by (intro server_open_inv) simp_all
next
  case (server_sends s b p b' now diff data sack)
  then show ?case by (intro server_send_inv [where b = b]) simp_all
next
  case (server_receives s b p now r b')
  then show ?case by (intro server_receive_inv [where b = b]) simp_all
qed

lemmas connection_run = build_syn_def build_data_def build_state_def utp_connect_def utp_accept_def mark_sent_def conn_header_def
  on_inbound_def validate_inbound_def expected_for_def inbound_ack_def apply_ack_def sequence_before_def inbound_packet_def
  accept_inbound_sequence_def new_syn_def from_syn_for_acceptor_def delivered_def all_sent_packets_acked_def Let_def

lemma one_packet_run:
  obtains s where "utp_run 7 65535 s" "sent s = [Some [1, 2]]" "all_sent_packets_acked (cli s)"
proof -
  let ?p0 = "fst (build_syn 0 (utp_connect 7 65535))" and ?c1 = "snd (build_syn 0 (utp_connect 7 65535))"
  let ?p1 = "fst (build_data 0 0 [1, 2] ?c1)" and ?c2 = "snd (build_data 0 0 [1, 2] ?c1)"
  let ?b0 = "projr (utp_accept (p_header ?p0) 0)"
  let ?r = "fst (on_inbound ?p1 0 ?b0)" and ?b1 = "snd (on_inbound ?p1 0 ?b0)"
  let ?p2 = "fst (build_state 0 0 ?b1)" and ?b2 = "snd (build_state 0 0 ?b1)"
  let ?c3 = "snd (on_inbound ?p2 0 ?c2)"
  let ?s = "\<lparr>cli = ?c3, srv = Some ?b2, to_srv = {?p1, ?p0}, to_cli = {?p2}, sent = [Some [1, 2]], got = delivered ?r ?p1\<rparr>"
  have "utp_run 7 65535 \<lparr>cli = ?c1, srv = None, to_srv = {?p0}, to_cli = {}, sent = [], got = []\<rparr>"
    by (rule client_opens) simp
  from client_data [OF this, of 0 0 "[1, 2]" ?p1 ?c2]
  have "utp_run 7 65535 \<lparr>cli = ?c2, srv = None, to_srv = {?p1, ?p0}, to_cli = {}, sent = [Some [1, 2]], got = []\<rparr>" by simp
  from server_opens [OF this, of ?p0 0 ?b0]
  have "utp_run 7 65535 \<lparr>cli = ?c2, srv = Some ?b0, to_srv = {?p1, ?p0}, to_cli = {}, sent = [Some [1, 2]], got = []\<rparr>"
    by (simp add: connection_run)
  from server_receives [OF this, of ?b0 ?p1 0 ?r ?b1]
  have "utp_run 7 65535 \<lparr>cli = ?c2, srv = Some ?b1, to_srv = {?p1, ?p0}, to_cli = {}, sent = [Some [1, 2]], got = delivered ?r ?p1\<rparr>" by simp
  from server_sends [OF this, of ?b1 ?p2 ?b2 0 0 "[]" "[]"]
  have "utp_run 7 65535 \<lparr>cli = ?c2, srv = Some ?b2, to_srv = {?p1, ?p0}, to_cli = {?p2}, sent = [Some [1, 2]], got = delivered ?r ?p1\<rparr>"
    by (simp add: replies_def)
  from client_receives [OF this, of ?p2 0 "fst (on_inbound ?p2 0 ?c2)" ?c3]
  have "utp_run 7 65535 ?s" by simp
  moreover have "all_sent_packets_acked ?c3" by (simp add: connection_run)
  ultimately show ?thesis using that [of ?s] by simp
qed

text \<open>
  C2. A uTP stream is delivered in order, without loss in the middle, repetition or corruption, over a
  network that loses, repeats and reorders datagrams: at any moment what the server has handed on is a
  prefix of what the client was given to send, and when the client finds all its packets acknowledged
  the server has handed on all of it. The stream may have up to 65534 packets, so that a sequence number
  of 16 bits does not name two of them.
\<close>

theorem utp_stream_delivery:
  assumes "utp_run cid isn s" "length (sent s) < 65535"
  shows "got s = take (length (got s)) (sent s) \<and> (all_sent_packets_acked (cli s) \<longrightarrow> got s = sent s)"
proof (intro conjI impI)
  have inv: "stream_inv isn s" using assms by (rule utp_run_inv)
  show g: "got s = take (length (got s)) (sent s)" using inv by (simp add: stream_inv_def)
  assume acked: "all_sent_packets_acked (cli s)"
  from inv obtain j where j: "j \<le> length (got s) + 1" "oldest_unacked (cli s) = isn + of_nat j"
    "seq_nr (cli s) = isn + 1 + of_nat (length (sent s))" by (auto simp: stream_inv_def client_at_def)
  with acked have "(of_nat j :: u16) = of_nat (Suc (length (sent s)))" by (simp add: all_sent_packets_acked_def)
  moreover have le: "length (got s) \<le> length (sent s)" using inv by (simp add: stream_inv_def)
  ultimately have "j = Suc (length (sent s))" using j(1) assms(2) by (intro u16_index_unique) auto
  with j(1) le have "length (got s) = length (sent s)" by simp
  with g show "got s = sent s" by simp
qed

theorem utp_stream_delivery_witness:
  "\<exists>s. utp_run 7 65535 s \<and> sent s = [Some [1, 2]] \<and> got s = [Some [1, 2]]"
proof (rule one_packet_run)
  fix s assume s: "utp_run 7 65535 s" "sent s = [Some [1, 2]]" "all_sent_packets_acked (cli s)"
  then have "got s = sent s" using utp_stream_delivery [of 7 65535 s] by simp
  with s show ?thesis by auto
qed

subsection \<open>Well-formed connections\<close>

definition wf_connection :: "utp_connection \<Rightarrow> bool" where
  "wf_connection c \<longleftrightarrow>
     window_ok (congestion c) \<and> (rtt_us c = None \<longleftrightarrow> rtt_var_us c = None) \<and>
     100000 \<le> retransmit_timeout_us c \<and> unat (retransmit_timeout_us c) \<le> 5 * (2 ^ 32 - 1) \<and>
     (last_received c = None \<or> last_received c = Some (ack_nr c)) \<and>
     (conn_state c \<in> {SynReceived, Connected, FinReceived} \<longrightarrow> last_received c \<noteq> None) \<and>
     seq_nr c \<in> {newest_sent c, newest_sent c + 1}"

inductive connection_reachable :: "utp_connection \<Rightarrow> bool" where
  connected: "connection_reachable (utp_connect cid isn)"
| accepted: "utp_accept h isn = Inr c \<Longrightarrow> connection_reachable c"
| sent_syn: "connection_reachable c \<Longrightarrow> connection_reachable (snd (build_syn now c))"
| sent_state: "connection_reachable c \<Longrightarrow> connection_reachable (snd (build_state now diff c))"
| sent_data: "connection_reachable c \<Longrightarrow> connection_reachable (snd (build_data now diff data c))"
| sent_fin: "connection_reachable c \<Longrightarrow> connection_reachable (snd (build_fin now diff c))"
| received: "connection_reachable c \<Longrightarrow> connection_reachable (snd (on_inbound p now c))"
| timed_out: "connection_reachable c \<Longrightarrow> connection_reachable (utp_on_timeout c)"
| resized: "connection_reachable c \<Longrightarrow> connection_reachable (set_local_window_bytes b c)"
| marked_closed: "connection_reachable c \<Longrightarrow> connection_reachable (mark_closed c)"

lemma rto_bounds:
  fixes r v :: u32
  shows "100000 \<le> max (u64_from r + 4 * u64_from v) 100000" "unat (max (u64_from r + 4 * u64_from v) 100000) \<le> 5 * (2 ^ 32 - 1)"
proof -
  have "unat r < 2 ^ 32" "unat v < 2 ^ 32" by (rule order.strict_trans2 [OF unsigned_less], simp)+
  then have "unat (u64_from r + 4 * u64_from v) \<le> 5 * (2 ^ 32 - 1)"
    by (simp add: unat_word_ariths unat_u64_from)
  then show "unat (max (u64_from r + 4 * u64_from v) 100000) \<le> 5 * (2 ^ 32 - 1)" by (auto simp: max_def)
qed simp

lemma update_rtt_wf: "wf_connection c \<Longrightarrow> wf_connection (update_rtt m c)"
proof -
  assume wf: "wf_connection c"
  have "\<exists>r v. rtt_us (update_rtt m c) = Some r \<and> rtt_var_us (update_rtt m c) = Some v \<and>
      retransmit_timeout_us (update_rtt m c) = max (u64_from r + 4 * u64_from v) 100000"
    by (auto simp: update_rtt_def Let_def split: option.split)
  then show ?thesis using wf rto_bounds by (auto simp: wf_connection_def)
qed

lemma inbound_ack_wf:
  assumes "inbound_ack p now c = (r, c')" "wf_connection c"
  shows "wf_connection c'"
proof -
  let ?c = "c\<lparr>remote_window_bytes := h_wnd_size (p_header p)\<rparr>"
  obtain q d where q: "apply_ack (h_ack_nr (p_header p)) ?c = (q, d)" by force
  then have d: "wf_connection d" using apply_ack_frame [OF q] assms(2) by (simp add: wf_connection_def)
  have upd: "wf_connection (x\<lparr>congestion := congestion_on_ack t s (congestion x)\<rparr>)" if "wf_connection x" for x t s
    using that by (simp add: wf_connection_def window_ok_on_ack)
  show ?thesis
  proof (cases "q = Inl (projl q) \<or> \<not> h_timestamp_diff (p_header p) > 0")
    case True
    then show ?thesis using assms(1) q d by (auto simp: inbound_ack_def Let_def split: sum.splits)
  next
    case False
    then show ?thesis using assms(1) q upd [OF update_rtt_wf [OF d, of "h_timestamp_diff (p_header p)"]]
      by (auto simp: inbound_ack_def Let_def split: sum.splits)
  qed
qed

lemma inbound_packet_wf: "inbound_packet p c = (r, c') \<Longrightarrow> wf_connection c \<Longrightarrow> wf_connection c'"
  by (auto simp: wf_connection_def inbound_packet_def accept_inbound_sequence_def Let_def
      split: packet_type.splits option.splits if_splits prod.splits bool.splits)

lemma on_inbound_wf:
  assumes "wf_connection c" "on_inbound p now c = (r, c')"
  shows "wf_connection c'"
  using assms(2)
proof (cases rule: on_inbound_split)
  case (packet d)
  then show ?thesis using assms(1) inbound_ack_wf inbound_packet_wf by blast
next
  case (bad_ack e)
  then show ?thesis using assms(1) inbound_ack_wf by blast
qed (use assms(1) in \<open>auto simp: wf_connection_def\<close>)

lemma congestion_default_ok: "window_ok congestion_default"
  by (simp add: congestion_default_def window_ok_new)

text \<open>
  C39. Every connection is well formed, whatever packets it builds and receives in whatever order, the
  refused ones included: its congestion window is within its limits, the two round-trip estimates are
  known together and the retransmission timeout stays between a tenth of a second and five times the
  largest measurement, the acknowledgement it sends names the last packet it received, a connection past
  the handshake knows the other end's sequence number, and at most one sequence number follows the
  newest packet sent.
\<close>

theorem connection_well_formed: "connection_reachable c \<Longrightarrow> wf_connection c"
proof (induction rule: connection_reachable.induct)
  case (received c p now)
  then show ?case using on_inbound_wf [of c p now] by (cases "on_inbound p now c") simp
qed (auto simp: wf_connection_def utp_connect_def utp_accept_def build_syn_def build_state_def build_data_def build_fin_def mark_sent_def
    utp_on_timeout_def set_local_window_bytes_def mark_closed_def congestion_default_ok window_ok_on_timeout
    DEFAULT_RETRANSMIT_TIMEOUT_US_def split: if_splits)

theorem connection_well_formed_witness:
  "wf_connection (mark_closed (snd (build_fin 5 0 (snd (build_syn 3 (utp_connect 7 65535))))))"
  by (rule connection_well_formed) (intro connection_reachable.intros)

end
