(* ===== verification/Session_Torrent.thy ===== *)
theory Session_Torrent
  imports TNG_Text
begin

text \<open>
  The torrents of the session daemon, \<open>state.rs\<close>, \<open>torrent.rs\<close> and \<open>error.rs\<close> of \<open>crates/rt-session\<close>: the
  lifecycle states and the transitions between them, and the compact form a torrent without a running
  task is kept in. Strings are their UTF-8 bytes, whose lexicographic order is that of \<open>str\<close>.
\<close>

subsection \<open>Lifecycle states\<close>

datatype torrent_state =
    TsStopped | TsMetadataPending | TsChecking | TsSeeding | TsDownloading | TsPaused | TsQueued | TsError

definition is_terminal :: "torrent_state \<Rightarrow> bool" where
  "is_terminal s \<longleftrightarrow> s = TsError"

definition can_start :: "torrent_state \<Rightarrow> bool" where
  "can_start s \<longleftrightarrow> s \<in> {TsStopped, TsMetadataPending, TsPaused, TsError}"

definition can_pause :: "torrent_state \<Rightarrow> bool" where
  "can_pause s \<longleftrightarrow> s \<in> {TsSeeding, TsDownloading, TsQueued}"

definition can_check :: "torrent_state \<Rightarrow> bool" where
  "can_check s \<longleftrightarrow> s \<in> {TsStopped, TsPaused, TsSeeding, TsDownloading}"

fun state_as_str :: "torrent_state \<Rightarrow> string" where
  "state_as_str TsStopped = ''stopped''"
| "state_as_str TsMetadataPending = ''metadata_pending''"
| "state_as_str TsChecking = ''checking''"
| "state_as_str TsSeeding = ''seeding''"
| "state_as_str TsDownloading = ''downloading''"
| "state_as_str TsPaused = ''paused''"
| "state_as_str TsQueued = ''queued''"
| "state_as_str TsError = ''error''"

datatype session_error =
    SessionNotFound bytes
  | AlreadyExists bytes
  | InvalidTransition torrent_state torrent_state

subsection \<open>Entries\<close>

type_synonym torrent_handle = "128 word"

record transfer_stats =
  uploaded :: u64
  downloaded :: u64

definition add_upload :: "u64 \<Rightarrow> transfer_stats \<Rightarrow> transfer_stats" where
  "add_upload n s = s\<lparr>uploaded := saturating_add (uploaded s) n\<rparr>"

definition add_download :: "u64 \<Rightarrow> transfer_stats \<Rightarrow> transfer_stats" where
  "add_download n s = s\<lparr>downloaded := saturating_add (downloaded s) n\<rparr>"

record torrent_entry =
  te_handle :: torrent_handle
  te_info_hash :: bytes
  te_name :: bytes
  te_save_path :: bytes
  te_total_length :: u64
  te_amount_left :: u64
  te_state :: torrent_state
  te_stats :: transfer_stats
  te_added_at :: u64
  te_completed_at :: "u64 option"
  te_category :: "bytes option"
  te_tags :: "bytes list"
  te_error_message :: "bytes option"
  te_tracker_message :: "bytes option"
  te_finalizing :: bool

record dormant_torrent =
  dt_handle :: torrent_handle
  dt_info_hash :: bytes
  dt_name :: bytes
  dt_save_path :: bytes
  dt_total_length :: u64
  dt_amount_left :: u64
  dt_state :: torrent_state
  dt_stats :: transfer_stats
  dt_added_at :: u64
  dt_completed_at :: "u64 option"
  dt_category :: "bytes option"
  dt_tags :: "bytes list"
  dt_error_message :: "bytes option"
  dt_tracker_message :: "bytes option"

definition into_dormant :: "torrent_entry \<Rightarrow> dormant_torrent" where
  "into_dormant e =
     \<lparr>dt_handle = te_handle e, dt_info_hash = te_info_hash e, dt_name = te_name e, dt_save_path = te_save_path e,
      dt_total_length = te_total_length e, dt_amount_left = te_amount_left e, dt_state = te_state e, dt_stats = te_stats e,
      dt_added_at = te_added_at e, dt_completed_at = te_completed_at e, dt_category = te_category e, dt_tags = te_tags e,
      dt_error_message = te_error_message e, dt_tracker_message = te_tracker_message e\<rparr>"

definition dormant_to_entry :: "dormant_torrent \<Rightarrow> torrent_entry" where
  "dormant_to_entry d =
     \<lparr>te_handle = dt_handle d, te_info_hash = dt_info_hash d, te_name = dt_name d, te_save_path = dt_save_path d,
      te_total_length = dt_total_length d, te_amount_left = dt_amount_left d, te_state = dt_state d, te_stats = dt_stats d,
      te_added_at = dt_added_at d, te_completed_at = dt_completed_at d, te_category = dt_category d, te_tags = dt_tags d,
      te_error_message = dt_error_message d, te_tracker_message = dt_tracker_message d, te_finalizing = False\<rparr>"

definition dormant_contribution :: "dormant_torrent \<Rightarrow> torrent_state \<times> u64 \<times> u64 \<times> u64" where
  "dormant_contribution d = (dt_state d, uploaded (dt_stats d), downloaded (dt_stats d), dt_amount_left d)"

text \<open>A new entry takes its handle from the UUID generator and its time from the clock.\<close>

definition torrent_entry_new :: "torrent_handle \<Rightarrow> u64 \<Rightarrow> bytes \<Rightarrow> bytes \<Rightarrow> bytes \<Rightarrow> torrent_entry" where
  "torrent_entry_new handle now info_hash name save_path =
     \<lparr>te_handle = handle, te_info_hash = info_hash, te_name = name, te_save_path = save_path, te_total_length = 0,
      te_amount_left = 0, te_state = TsStopped, te_stats = \<lparr>uploaded = 0, downloaded = 0\<rparr>, te_added_at = now,
      te_completed_at = None, te_category = None, te_tags = [], te_error_message = None, te_tracker_message = None,
      te_finalizing = False\<rparr>"

fun valid_transition :: "torrent_state \<Rightarrow> torrent_state \<Rightarrow> bool" where
  "valid_transition TsStopped TsChecking = True"
| "valid_transition TsStopped TsMetadataPending = True"
| "valid_transition TsStopped TsDownloading = True"
| "valid_transition TsStopped TsPaused = True"
| "valid_transition TsMetadataPending TsChecking = True"
| "valid_transition TsMetadataPending TsDownloading = True"
| "valid_transition TsMetadataPending TsPaused = True"
| "valid_transition TsMetadataPending TsError = True"
| "valid_transition TsPaused TsChecking = True"
| "valid_transition TsPaused TsMetadataPending = True"
| "valid_transition TsPaused TsDownloading = True"
| "valid_transition TsPaused TsSeeding = True"
| "valid_transition TsChecking TsSeeding = True"
| "valid_transition TsChecking TsDownloading = True"
| "valid_transition TsChecking TsPaused = True"
| "valid_transition TsChecking TsStopped = True"
| "valid_transition TsChecking TsQueued = True"
| "valid_transition TsChecking TsError = True"
| "valid_transition TsDownloading TsChecking = True"
| "valid_transition TsDownloading TsSeeding = True"
| "valid_transition TsDownloading TsPaused = True"
| "valid_transition TsDownloading TsError = True"
| "valid_transition TsError TsChecking = True"
| "valid_transition TsSeeding TsPaused = True"
| "valid_transition TsSeeding TsStopped = True"
| "valid_transition TsSeeding TsError = True"
| "valid_transition TsSeeding TsChecking = True"
| "valid_transition TsSeeding TsDownloading = True"
| "valid_transition TsQueued TsChecking = True"
| "valid_transition TsQueued TsDownloading = True"
| "valid_transition TsQueued TsSeeding = True"
| "valid_transition TsQueued TsPaused = True"
| "valid_transition s TsStopped = (s \<noteq> TsStopped)"
| "valid_transition _ _ = False"

definition entry_transition :: "torrent_entry \<Rightarrow> torrent_state \<Rightarrow> session_error + torrent_entry" where
  "entry_transition e target =
     (if te_state e = target then Inr e
      else if \<not> valid_transition (te_state e) target then Inl (InvalidTransition (te_state e) target)
      else let e1 = e\<lparr>te_state := target\<rparr> in
        Inr (if target \<noteq> TsError then e1\<lparr>te_error_message := None\<rparr> else e1))"

definition set_error :: "torrent_entry \<Rightarrow> bytes \<Rightarrow> torrent_entry" where
  "set_error e msg = e\<lparr>te_state := TsError, te_error_message := Some msg\<rparr>"

subsection \<open>Lemmas\<close>

text \<open>
  The two forms show the same torrent, but for the hold on a finishing download, which only a running
  task has.
\<close>

definition forget_hold :: "torrent_entry \<Rightarrow> torrent_entry" where
  "forget_hold e = e\<lparr>te_finalizing := False\<rparr>"

lemma to_entry_into_dormant: "dormant_to_entry (into_dormant e) = forget_hold e"
  by (simp add: dormant_to_entry_def into_dormant_def forget_hold_def)

lemma into_dormant_to_entry: "into_dormant (dormant_to_entry d) = d"
  by (simp add: dormant_to_entry_def into_dormant_def)

lemma forget_hold_simps [simp]:
  "te_info_hash (forget_hold e) = te_info_hash e" "te_state (forget_hold e) = te_state e"
  "te_stats (forget_hold e) = te_stats e" "te_total_length (forget_hold e) = te_total_length e"
  "te_amount_left (forget_hold e) = te_amount_left e" "forget_hold (forget_hold e) = forget_hold e"
  "forget_hold (dormant_to_entry d) = dormant_to_entry d"
  by (simp_all add: forget_hold_def dormant_to_entry_def)

lemma dormant_to_entry_info_hash [simp]: "te_info_hash (dormant_to_entry d) = dt_info_hash d" "dt_info_hash (into_dormant e) = te_info_hash e"
  by (simp_all add: dormant_to_entry_def into_dormant_def)

end
