(* ===== verification/Session_Registry.thy ===== *)
theory Session_Registry
  imports Session_Torrent "HOL-Library.AList" "HOL-Library.Product_Lexorder"
begin

text \<open>
  The session registry, \<open>registry.rs\<close> of \<open>crates/rt-session\<close>. A hash map that is only looked up is a map;
  the hash map of entries, which some operations walk, is an association list with one pair per handle,
  in the order of the walk; a hash set is a list without repetition. The waiters on the change notifier
  and the poisoning of a cache's lock have no part in the model. Sorting by \<open>sort_unstable_by\<close> is
  \<open>sort_key\<close>: the keys sorted by are distinct.
\<close>

subsection \<open>Records, changes and counters\<close>

datatype registry_record = Active torrent_entry | Dormant dormant_torrent

record entry_contribution =
  ec_state :: torrent_state
  ec_uploaded :: u64
  ec_downloaded :: u64
  ec_total_length :: u64
  ec_amount_left :: u64

definition contribution_from_entry :: "torrent_entry \<Rightarrow> entry_contribution" where
  "contribution_from_entry e =
     \<lparr>ec_state = te_state e, ec_uploaded = uploaded (te_stats e), ec_downloaded = downloaded (te_stats e),
      ec_total_length = te_total_length e, ec_amount_left = te_amount_left e\<rparr>"

fun record_info_hash :: "registry_record \<Rightarrow> bytes" where
  "record_info_hash (Active e) = te_info_hash e"
| "record_info_hash (Dormant d) = dt_info_hash d"

fun record_contribution :: "registry_record \<Rightarrow> entry_contribution" where
  "record_contribution (Active e) = contribution_from_entry e"
| "record_contribution (Dormant d) =
     (case dormant_contribution d of
        (st, up, down, left) \<Rightarrow>
          \<lparr>ec_state = st, ec_uploaded = up, ec_downloaded = down, ec_total_length = dt_total_length d, ec_amount_left = left\<rparr>)"

fun record_to_entry :: "registry_record \<Rightarrow> torrent_entry" where
  "record_to_entry (Active e) = e"
| "record_to_entry (Dormant d) = dormant_to_entry d"

fun record_state :: "registry_record \<Rightarrow> torrent_state" where
  "record_state (Active e) = te_state e"
| "record_state (Dormant d) = dt_state d"

fun record_handle :: "registry_record \<Rightarrow> torrent_handle" where
  "record_handle (Active e) = te_handle e"
| "record_handle (Dormant d) = dt_handle d"

record registry_change =
  rc_revision :: u64
  rc_info_hash :: bytes
  rc_removed :: bool

record registry_stats =
  torrents_total :: u64
  torrents_stopped :: u64
  torrents_metadata_pending :: u64
  torrents_checking :: u64
  torrents_seeding :: u64
  torrents_downloading :: u64
  torrents_paused :: u64
  torrents_queued :: u64
  torrents_error :: u64
  bytes_uploaded :: u64
  bytes_downloaded :: u64
  bytes_total :: u64
  bytes_left :: u64

definition stats_default :: registry_stats where
  "stats_default =
     \<lparr>torrents_total = 0, torrents_stopped = 0, torrents_metadata_pending = 0, torrents_checking = 0, torrents_seeding = 0,
      torrents_downloading = 0, torrents_paused = 0, torrents_queued = 0, torrents_error = 0,
      bytes_uploaded = 0, bytes_downloaded = 0, bytes_total = 0, bytes_left = 0\<rparr>"

text \<open>\<open>add_state\<close> is only called with a delta of one or minus one: \<open>up\<close> says which.\<close>

definition step_counter :: "bool \<Rightarrow> u64 \<Rightarrow> u64" where
  "step_counter up counter = (if up then saturating_add counter 1 else saturating_sub counter 1)"

fun add_state :: "torrent_state \<Rightarrow> bool \<Rightarrow> registry_stats \<Rightarrow> registry_stats" where
  "add_state TsStopped up s = s\<lparr>torrents_stopped := step_counter up (torrents_stopped s)\<rparr>"
| "add_state TsMetadataPending up s = s\<lparr>torrents_metadata_pending := step_counter up (torrents_metadata_pending s)\<rparr>"
| "add_state TsChecking up s = s\<lparr>torrents_checking := step_counter up (torrents_checking s)\<rparr>"
| "add_state TsSeeding up s = s\<lparr>torrents_seeding := step_counter up (torrents_seeding s)\<rparr>"
| "add_state TsDownloading up s = s\<lparr>torrents_downloading := step_counter up (torrents_downloading s)\<rparr>"
| "add_state TsPaused up s = s\<lparr>torrents_paused := step_counter up (torrents_paused s)\<rparr>"
| "add_state TsQueued up s = s\<lparr>torrents_queued := step_counter up (torrents_queued s)\<rparr>"
| "add_state TsError up s = s\<lparr>torrents_error := step_counter up (torrents_error s)\<rparr>"

definition add_contribution :: "entry_contribution \<Rightarrow> registry_stats \<Rightarrow> registry_stats" where
  "add_contribution c s0 =
     (let s = add_state (ec_state c) True (s0\<lparr>torrents_total := saturating_add (torrents_total s0) 1\<rparr>) in
      s\<lparr>bytes_uploaded := saturating_add (bytes_uploaded s) (ec_uploaded c),
        bytes_downloaded := saturating_add (bytes_downloaded s) (ec_downloaded c),
        bytes_total := saturating_add (bytes_total s) (ec_total_length c),
        bytes_left := saturating_add (bytes_left s) (ec_amount_left c)\<rparr>)"

definition remove_contribution :: "entry_contribution \<Rightarrow> registry_stats \<Rightarrow> registry_stats" where
  "remove_contribution c s0 =
     (let s = add_state (ec_state c) False (s0\<lparr>torrents_total := saturating_sub (torrents_total s0) 1\<rparr>) in
      s\<lparr>bytes_uploaded := saturating_sub (bytes_uploaded s) (ec_uploaded c),
        bytes_downloaded := saturating_sub (bytes_downloaded s) (ec_downloaded c),
        bytes_total := saturating_sub (bytes_total s) (ec_total_length c),
        bytes_left := saturating_sub (bytes_left s) (ec_amount_left c)\<rparr>)"

definition adjust_counter :: "u64 \<Rightarrow> u64 \<Rightarrow> u64 \<Rightarrow> u64" where
  "adjust_counter current before after =
     (if after \<ge> before then saturating_add current (after - before) else saturating_sub current (before - after))"

definition apply_delta :: "entry_contribution \<Rightarrow> entry_contribution \<Rightarrow> registry_stats \<Rightarrow> registry_stats" where
  "apply_delta before after s0 =
     (let s = (if ec_state before \<noteq> ec_state after then add_state (ec_state after) True (add_state (ec_state before) False s0)
               else s0) in
      s\<lparr>bytes_uploaded := adjust_counter (bytes_uploaded s) (ec_uploaded before) (ec_uploaded after),
        bytes_downloaded := adjust_counter (bytes_downloaded s) (ec_downloaded before) (ec_downloaded after),
        bytes_total := adjust_counter (bytes_total s) (ec_total_length before) (ec_total_length after),
        bytes_left := adjust_counter (bytes_left s) (ec_amount_left before) (ec_amount_left after)\<rparr>)"

subsection \<open>Identities\<close>

definition is_ascii_hexdigit :: "u8 \<Rightarrow> bool" where
  "is_ascii_hexdigit b \<longleftrightarrow> 0x30 \<le> b \<and> b \<le> 0x39 \<or> 0x41 \<le> b \<and> b \<le> 0x46 \<or> 0x61 \<le> b \<and> b \<le> 0x66"

definition to_ascii_lowercase :: "u8 \<Rightarrow> u8" where
  "to_ascii_lowercase b = (if 0x41 \<le> b \<and> b \<le> 0x5A then b + 0x20 else b)"

definition canonical_info_hash :: "bytes \<Rightarrow> bytes" where
  "canonical_info_hash h =
     (if (length h = 40 \<or> length h = 64) \<and> list_all is_ascii_hexdigit h then map to_ascii_lowercase h else h)"

definition v2_wire_hash_prefix :: "bytes \<Rightarrow> bytes option" where
  "v2_wire_hash_prefix h =
     (if length h \<noteq> 64 \<or> \<not> list_all is_ascii_hexdigit h then None else Some (map to_ascii_lowercase (take 40 h)))"

definition SNAPSHOT_SHARDS :: nat where
  "SNAPSHOT_SHARDS = 64"

definition snapshot_shard :: "bytes \<Rightarrow> nat" where
  "snapshot_shard h =
     unat (and (fold (\<lambda>b hash. xor hash (ucast b) * 0x100000001b3) h 0xcbf29ce484222325) (of_nat (SNAPSHOT_SHARDS - 1) :: u64))"

definition CHANGE_LOG_CAPACITY :: nat where
  "CHANGE_LOG_CAPACITY = 16384"

definition MAX_BANNED_PEERS :: nat where
  "MAX_BANNED_PEERS = 65536"

text \<open>\<open>std::net::SocketAddr\<close> with its derived order: version 4 before version 6, then address, port, flow and scope.\<close>

datatype socket_addr = V4 u32 u16 | V6 "128 word" u16 u32 u32

fun addr_key :: "socket_addr \<Rightarrow> nat \<times> nat \<times> nat \<times> nat \<times> nat" where
  "addr_key (V4 ip port) = (0, unat ip, unat port, 0, 0)"
| "addr_key (V6 ip port flow scope) = (1, unat ip, unat port, unat flow, unat scope)"

lemma addr_key_inject: "addr_key a = addr_key b \<longleftrightarrow> a = b"
  by (cases a; cases b) (auto simp: word_unat_eq_iff)

instantiation socket_addr :: linorder
begin

definition less_eq_socket_addr :: "socket_addr \<Rightarrow> socket_addr \<Rightarrow> bool" where
  "less_eq_socket_addr a b \<longleftrightarrow> addr_key a \<le> addr_key b"

definition less_socket_addr :: "socket_addr \<Rightarrow> socket_addr \<Rightarrow> bool" where
  "less_socket_addr a b \<longleftrightarrow> addr_key a < addr_key b"

instance
proof
  fix a b c :: socket_addr
  show "a < b \<longleftrightarrow> a \<le> b \<and> \<not> b \<le> a" by (auto simp: less_eq_socket_addr_def less_socket_addr_def)
  show "a \<le> a" by (simp add: less_eq_socket_addr_def)
  show "a \<le> b \<Longrightarrow> b \<le> c \<Longrightarrow> a \<le> c" unfolding less_eq_socket_addr_def by (rule order.trans)
  show "a \<le> b \<Longrightarrow> b \<le> a \<Longrightarrow> a = b" using addr_key_inject by (auto simp: less_eq_socket_addr_def)
  show "a \<le> b \<or> b \<le> a" unfolding less_eq_socket_addr_def by (rule linear)
qed

end

subsection \<open>The registry\<close>

type_synonym snapshot_cache = "(u64 \<times> torrent_entry list) option"

record session_registry =
  by_hash :: "bytes \<Rightarrow> torrent_handle option"
  v2_by_wire_hash :: "bytes \<Rightarrow> torrent_handle list option"
  entries :: "(torrent_handle \<times> registry_record) list"
  revision :: u64
  shard_revisions :: "u64 list"
  shard_members :: "torrent_handle list list"
  changes :: "registry_change list"
  reg_stats :: registry_stats
  active_count :: nat
  dormant_count :: nat
  banned :: "socket_addr list"
  whole_cache :: snapshot_cache
  shard_snapshot_cache :: "snapshot_cache list"

record session_snapshot =
  snap_revision :: u64
  snap_entries :: "torrent_entry list"

definition registry_new :: session_registry where
  "registry_new =
     \<lparr>by_hash = Map.empty, v2_by_wire_hash = Map.empty, entries = [], revision = 0,
      shard_revisions = replicate SNAPSHOT_SHARDS 0, shard_members = replicate SNAPSHOT_SHARDS [], changes = [],
      reg_stats = stats_default, active_count = 0, dormant_count = 0, banned = [],
      whole_cache = None, shard_snapshot_cache = replicate SNAPSHOT_SHARDS None\<rparr>"

text \<open>The loop that drops the oldest changes.\<close>

function trim_log :: "registry_change list \<Rightarrow> registry_change list" where
  "trim_log log = (if length log > CHANGE_LOG_CAPACITY then trim_log (tl log) else log)"
  by pat_completeness auto
termination
  by (relation "measure length") (auto simp: CHANGE_LOG_CAPACITY_def)

declare trim_log.simps [simp del]

definition bump_revision :: "bytes \<Rightarrow> bool \<Rightarrow> session_registry \<Rightarrow> session_registry" where
  "bump_revision info_hash removed r =
     (let rev' = revision r + 1; shard = snapshot_shard info_hash in
      r\<lparr>whole_cache := None, revision := rev',
        shard_revisions := (shard_revisions r)[shard := shard_revisions r ! shard + 1],
        changes := trim_log (changes r @ [\<lparr>rc_revision = rev', rc_info_hash = info_hash, rc_removed = removed\<rparr>])\<rparr>)"

fun with_info_hash :: "bytes \<Rightarrow> registry_record \<Rightarrow> registry_record" where
  "with_info_hash h (Active e) = Active (e\<lparr>te_info_hash := h\<rparr>)"
| "with_info_hash h (Dormant d) = Dormant (d\<lparr>dt_info_hash := h\<rparr>)"

fun is_active :: "registry_record \<Rightarrow> bool" where
  "is_active (Active _) = True"
| "is_active (Dormant _) = False"

definition add_record :: "registry_record \<Rightarrow> session_registry \<Rightarrow> session_error + (torrent_handle \<times> session_registry)" where
  "add_record rec0 r =
     (let canonical = canonical_info_hash (record_info_hash rec0);
          rec = (if canonical \<noteq> record_info_hash rec0 then with_info_hash canonical rec0 else rec0);
          info_hash = record_info_hash rec in
      if by_hash r info_hash \<noteq> None then Inl (AlreadyExists info_hash)
      else
        let handle = record_handle rec;
            r1 = r\<lparr>by_hash := (by_hash r)(info_hash \<mapsto> handle)\<rparr>;
            r2 = (case v2_wire_hash_prefix info_hash of
                    None \<Rightarrow> r1
                  | Some prefix \<Rightarrow> r1\<lparr>v2_by_wire_hash := (v2_by_wire_hash r1)(prefix \<mapsto>
                      (case v2_by_wire_hash r1 prefix of None \<Rightarrow> [] | Some hs \<Rightarrow> hs) @ [handle])\<rparr>);
            r3 = r2\<lparr>reg_stats := add_contribution (record_contribution rec) (reg_stats r2)\<rparr>;
            r4 = (if is_active rec then r3\<lparr>active_count := active_count r3 + 1\<rparr> else r3\<lparr>dormant_count := dormant_count r3 + 1\<rparr>);
            r5 = r4\<lparr>entries := AList.update handle rec (entries r4)\<rparr>;
            shard = snapshot_shard info_hash;
            r6 = r5\<lparr>shard_members := (shard_members r5)[shard := List.insert handle (shard_members r5 ! shard)]\<rparr> in
        Inr (handle, bump_revision info_hash False r6))"

definition registry_add :: "torrent_entry \<Rightarrow> session_registry \<Rightarrow> session_error + (torrent_handle \<times> session_registry)" where
  "registry_add e r = add_record (Active e) r"

definition add_dormant :: "dormant_torrent \<Rightarrow> session_registry \<Rightarrow> session_error + (torrent_handle \<times> session_registry)" where
  "add_dormant d r = add_record (Dormant d) r"

text \<open>\<open>None\<close> is the panic of the \<open>unwrap\<close> on a handle without entry.\<close>

definition registry_remove :: "bytes \<Rightarrow> session_registry \<Rightarrow> (session_error + (torrent_entry \<times> session_registry)) option" where
  "registry_remove h r =
     (let info_hash = canonical_info_hash h in
      case by_hash r info_hash of
        None \<Rightarrow> Some (Inl (SessionNotFound info_hash))
      | Some handle \<Rightarrow>
          (let r1 = r\<lparr>by_hash := (by_hash r)(info_hash := None)\<rparr> in
           case map_of (entries r1) handle of
             None \<Rightarrow> None
           | Some rec \<Rightarrow>
               let r2 = r1\<lparr>entries := AList.delete handle (entries r1)\<rparr>;
                   info_hash = record_info_hash rec;
                   r3 = (case v2_wire_hash_prefix info_hash of
                           None \<Rightarrow> r2
                         | Some prefix \<Rightarrow>
                             (case v2_by_wire_hash r2 prefix of
                                None \<Rightarrow> r2
                              | Some hs \<Rightarrow>
                                  let hs' = filter (\<lambda>c. c \<noteq> handle) hs in
                                  r2\<lparr>v2_by_wire_hash := (v2_by_wire_hash r2)(prefix := if hs' = [] then None else Some hs')\<rparr>));
                   r4 = r3\<lparr>reg_stats := remove_contribution (record_contribution rec) (reg_stats r3)\<rparr>;
                   r5 = (if is_active rec then r4\<lparr>active_count := active_count r4 - 1\<rparr> else r4\<lparr>dormant_count := dormant_count r4 - 1\<rparr>);
                   shard = snapshot_shard info_hash;
                   r6 = r5\<lparr>shard_members := (shard_members r5)[shard := removeAll handle (shard_members r5 ! shard)]\<rparr> in
               Some (Inr (record_to_entry rec, bump_revision info_hash True r6))))"

definition registry_demote :: "bytes \<Rightarrow> session_registry \<Rightarrow> (session_error + (bool \<times> session_registry)) option" where
  "registry_demote h r =
     (let info_hash = canonical_info_hash h in
      case by_hash r info_hash of
        None \<Rightarrow> Some (Inl (SessionNotFound info_hash))
      | Some handle \<Rightarrow>
          (case map_of (entries r) handle of
             None \<Rightarrow> None
           | Some rec \<Rightarrow>
               let r1 = r\<lparr>entries := AList.delete handle (entries r)\<rparr> in
               (case rec of
                  Active e \<Rightarrow> Some (Inr (True, r1\<lparr>entries := AList.update handle (Dormant (into_dormant e)) (entries r1),
                      active_count := active_count r1 - 1, dormant_count := dormant_count r1 + 1\<rparr>))
                | Dormant d \<Rightarrow> Some (Inr (False, r1\<lparr>entries := AList.update handle (Dormant d) (entries r1)\<rparr>)))))"

definition registry_get :: "bytes \<Rightarrow> session_registry \<Rightarrow> torrent_entry option" where
  "registry_get h r =
     (case by_hash r (canonical_info_hash h) of
        None \<Rightarrow> None
      | Some handle \<Rightarrow> map_option record_to_entry (map_of (entries r) handle))"

definition first_entry :: "session_registry \<Rightarrow> torrent_entry option" where
  "first_entry r =
     (case map snd (entries r) of
        [] \<Rightarrow> None
      | x # xs \<Rightarrow> Some (record_to_entry
          (fold (\<lambda>y least. if record_info_hash y < record_info_hash least then y else least) xs x)))"

definition contains_hash :: "bytes \<Rightarrow> session_registry \<Rightarrow> bool" where
  "contains_hash h r \<longleftrightarrow> by_hash r (canonical_info_hash h) \<noteq> None"

definition resolve_info_hash :: "bytes \<Rightarrow> session_registry \<Rightarrow> bytes option" where
  "resolve_info_hash h r =
     (let info_hash = canonical_info_hash h in if by_hash r info_hash \<noteq> None then Some info_hash else None)"

definition find_v2_wire_hash_matches :: "bytes \<Rightarrow> session_registry \<Rightarrow> bytes list" where
  "find_v2_wire_hash_matches wire_hash r =
     (let prefix = canonical_info_hash wire_hash in
      if length prefix \<noteq> 40 \<or> \<not> list_all is_ascii_hexdigit prefix then []
      else map record_info_hash (List.map_filter (map_of (entries r))
        (case v2_by_wire_hash r prefix of None \<Rightarrow> [] | Some hs \<Rightarrow> take 2 hs)))"

definition is_dormant :: "bytes \<Rightarrow> session_registry \<Rightarrow> bool" where
  "is_dormant h r =
     (case Option.bind (by_hash r (canonical_info_hash h)) (map_of (entries r)) of
        Some (Dormant _) \<Rightarrow> True | _ \<Rightarrow> False)"

definition by_state :: "torrent_state \<Rightarrow> session_registry \<Rightarrow> torrent_entry list" where
  "by_state st r = map record_to_entry (filter (\<lambda>rec. record_state rec = st) (map snd (entries r)))"

definition registry_iter :: "session_registry \<Rightarrow> torrent_entry list" where
  "registry_iter r = map (record_to_entry \<circ> snd) (entries r)"

subsection \<open>Snapshots\<close>

text \<open>Reading a snapshot fills the caches, so it returns the registry along with the result.\<close>

definition shard_snapshot :: "nat \<Rightarrow> session_registry \<Rightarrow> torrent_entry list \<times> session_registry" where
  "shard_snapshot shard r =
     (let current = shard_revisions r ! shard;
          fresh = sort_key te_info_hash (map record_to_entry (List.map_filter (map_of (entries r)) (shard_members r ! shard)));
          rebuilt = (fresh, r\<lparr>shard_snapshot_cache := (shard_snapshot_cache r)[shard := Some (current, fresh)]\<rparr>) in
      case shard_snapshot_cache r ! shard of
        None \<Rightarrow> rebuilt
      | Some (rev', es) \<Rightarrow> if rev' = current then (es, r) else rebuilt)"

fun collect_shards :: "nat list \<Rightarrow> torrent_entry list \<Rightarrow> session_registry \<Rightarrow> torrent_entry list \<times> session_registry" where
  "collect_shards [] combined r = (combined, r)"
| "collect_shards (shard # shards) combined r =
     (case shard_snapshot shard r of (es, r1) \<Rightarrow> collect_shards shards (combined @ es) r1)"

definition rebuild_snapshot_entries :: "session_registry \<Rightarrow> torrent_entry list \<times> session_registry" where
  "rebuild_snapshot_entries r =
     (case collect_shards [0..<SNAPSHOT_SHARDS] [] r of (combined, r1) \<Rightarrow> (sort_key te_info_hash combined, r1))"

definition registry_snapshot :: "session_registry \<Rightarrow> session_snapshot \<times> session_registry" where
  "registry_snapshot r =
     (let rebuilt = (case rebuild_snapshot_entries r of
            (es, r1) \<Rightarrow> (\<lparr>snap_revision = revision r, snap_entries = es\<rparr>, r1\<lparr>whole_cache := Some (revision r, es)\<rparr>)) in
      case whole_cache r of
        None \<Rightarrow> rebuilt
      | Some (rev', es) \<Rightarrow>
          if rev' = revision r then (\<lparr>snap_revision = rev', snap_entries = es\<rparr>, r) else rebuilt)"

definition snapshot_find :: "bytes \<Rightarrow> session_snapshot \<Rightarrow> torrent_entry option" where
  "snapshot_find h s =
     (case binary_search_by (\<lambda>e. cmp_to (canonical_info_hash h) (te_info_hash e)) (snap_entries s) of
        Inl _ \<Rightarrow> None
      | Inr i \<Rightarrow> if i < length (snap_entries s) then Some (snap_entries s ! i) else None)"

subsection \<open>Mutable access\<close>

text \<open>
  The guard of \<open>get_mut\<close> remembers the identity and what the entry contributed; dropping it after a
  mutable access brings counters, revision and log up to date. \<open>registry_update\<close> is one use of the
  guard, \<open>None\<close> for a use that only reads.
\<close>

record entry_guard =
  guard_handle :: torrent_handle
  guard_info_hash :: bytes
  guard_before :: entry_contribution

definition get_mut :: "bytes \<Rightarrow> session_registry \<Rightarrow> (entry_guard \<times> torrent_entry \<times> session_registry) option" where
  "get_mut h r =
     (let info_hash = canonical_info_hash h in
      case by_hash r info_hash of
        None \<Rightarrow> None
      | Some handle \<Rightarrow>
          (let r1 = (case map_of (entries r) handle of
                 Some (Dormant d) \<Rightarrow> r\<lparr>entries := AList.update handle (Active (dormant_to_entry d)) (AList.delete handle (entries r)),
                     dormant_count := dormant_count r - 1, active_count := active_count r + 1\<rparr>
               | _ \<Rightarrow> r) in
           case map_of (entries r1) handle of
             Some (Active e) \<Rightarrow>
               Some (\<lparr>guard_handle = handle, guard_info_hash = info_hash, guard_before = contribution_from_entry e\<rparr>, e, r1)
           | _ \<Rightarrow> None))"

definition guard_drop :: "entry_guard \<Rightarrow> torrent_entry \<Rightarrow> session_registry \<Rightarrow> session_registry" where
  "guard_drop g e0 r =
     (let e = (if te_info_hash e0 \<noteq> guard_info_hash g then e0\<lparr>te_info_hash := guard_info_hash g\<rparr> else e0);
          rev' = revision r + 1; shard = snapshot_shard (guard_info_hash g) in
      r\<lparr>entries := AList.update (guard_handle g) (Active e) (entries r),
        reg_stats := apply_delta (guard_before g) (contribution_from_entry e) (reg_stats r),
        revision := rev', shard_revisions := (shard_revisions r)[shard := shard_revisions r ! shard + 1],
        changes := trim_log (changes r @ [\<lparr>rc_revision = rev', rc_info_hash = guard_info_hash g, rc_removed = False\<rparr>]),
        whole_cache := None\<rparr>)"

definition registry_update :: "bytes \<Rightarrow> (torrent_entry \<Rightarrow> torrent_entry) option \<Rightarrow> session_registry \<Rightarrow> session_registry option" where
  "registry_update h f r =
     (case get_mut h r of
        None \<Rightarrow> None
      | Some (g, e, r1) \<Rightarrow> Some (case f of None \<Rightarrow> r1 | Some m \<Rightarrow> guard_drop g (m e) r1))"

subsection \<open>Labels\<close>

text \<open>
  The three label operations walk the records, change some in place, and then record one change for each.
  \<open>edit\<close> returns the record if it changed.
\<close>

definition edit_records :: "(registry_record \<Rightarrow> registry_record option) \<Rightarrow> session_registry \<Rightarrow> nat \<times> session_registry" where
  "edit_records edit r =
     (let changed = map record_info_hash (List.map_filter (edit \<circ> snd) (entries r));
          r1 = r\<lparr>entries := map (\<lambda>(h, rec). (h, case edit rec of None \<Rightarrow> rec | Some rec' \<Rightarrow> rec')) (entries r)\<rparr> in
      (length changed, fold (\<lambda>h. bump_revision h False) changed r1))"

fun set_category :: "(bytes \<Rightarrow> bool) \<Rightarrow> bytes option \<Rightarrow> registry_record \<Rightarrow> registry_record option" where
  "set_category hit new (Active e) =
     (case te_category e of Some c \<Rightarrow> if hit c then Some (Active (e\<lparr>te_category := new\<rparr>)) else None | None \<Rightarrow> None)"
| "set_category hit new (Dormant d) =
     (case dt_category d of Some c \<Rightarrow> if hit c then Some (Dormant (d\<lparr>dt_category := new\<rparr>)) else None | None \<Rightarrow> None)"

definition rename_category :: "bytes \<Rightarrow> bytes \<Rightarrow> session_registry \<Rightarrow> nat \<times> session_registry" where
  "rename_category old_name new_name r =
     (if old_name = new_name then (0, r) else edit_records (set_category (\<lambda>c. c = old_name) (Some new_name)) r)"

definition clear_categories :: "bytes list \<Rightarrow> session_registry \<Rightarrow> nat \<times> session_registry" where
  "clear_categories names r = edit_records (set_category (\<lambda>c. c \<in> set names) None) r"

fun drop_tags :: "bytes list \<Rightarrow> registry_record \<Rightarrow> registry_record option" where
  "drop_tags names (Active e) =
     (let kept = filter (\<lambda>t. t \<notin> set names) (te_tags e) in
      if length (te_tags e) \<noteq> length kept then Some (Active (e\<lparr>te_tags := kept\<rparr>)) else None)"
| "drop_tags names (Dormant d) =
     (let kept = filter (\<lambda>t. t \<notin> set names) (dt_tags d) in
      if length (dt_tags d) \<noteq> length kept then Some (Dormant (d\<lparr>dt_tags := kept\<rparr>)) else None)"

definition clear_tags :: "bytes list \<Rightarrow> session_registry \<Rightarrow> nat \<times> session_registry" where
  "clear_tags names r = edit_records (drop_tags names) r"

subsection \<open>Bans and the change log\<close>

fun unseen :: "socket_addr list \<Rightarrow> socket_addr list \<Rightarrow> socket_addr list" where
  "unseen seen [] = []"
| "unseen seen (p # ps) = (if p \<in> set seen then unseen seen ps else p # unseen (p # seen) ps)"

definition bannable_peers :: "socket_addr list \<Rightarrow> session_registry \<Rightarrow> socket_addr list" where
  "bannable_peers peers r =
     (let available = MAX_BANNED_PEERS - length (banned r) in
      take available (unseen [] (filter (\<lambda>p. p \<notin> set (banned r)) peers)))"

definition ban_peers :: "socket_addr list \<Rightarrow> session_registry \<Rightarrow> nat \<times> session_registry" where
  "ban_peers peers r = (let accepted = bannable_peers peers r in (length accepted, r\<lparr>banned := banned r @ accepted\<rparr>))"

definition banned_peers :: "session_registry \<Rightarrow> socket_addr list" where
  "banned_peers r = sort (banned r)"

definition is_peer_banned :: "socket_addr \<Rightarrow> session_registry \<Rightarrow> bool" where
  "is_peer_banned p r \<longleftrightarrow> p \<in> set (banned r)"

definition changes_since :: "u64 \<Rightarrow> session_registry \<Rightarrow> registry_change list option" where
  "changes_since rev' r =
     (if rev' \<ge> revision r then Some []
      else if (case changes r of [] \<Rightarrow> False | first # _ \<Rightarrow> saturating_add rev' 1 < rc_revision first) then None
      else Some (filter (\<lambda>c. rc_revision c > rev') (changes r)))"

end
