(* ===== verification/Session_Index.thy ===== *)
theory Session_Index
  imports Session_Registry
begin

text \<open>
  The steps of the session registry, what each operation does to the entries, and that the indexes (by
  identity, by wire prefix and by shard) follow the entries through every operation.
\<close>

subsection \<open>Steps\<close>

text \<open>
  One step is one call of an operation. The handle of a new torrent is one no other torrent has: handles
  are random UUIDs. The revision counter of 64 bits has room for the step.
\<close>

inductive registry_step :: "session_registry \<Rightarrow> session_registry \<Rightarrow> bool" where
  step_add: "registry_add e r = Inr (hd', r') \<Longrightarrow> te_handle e \<notin> fst ` set (entries r) \<Longrightarrow> registry_step r r'"
| step_add_dormant: "add_dormant d r = Inr (hd', r') \<Longrightarrow> dt_handle d \<notin> fst ` set (entries r) \<Longrightarrow> registry_step r r'"
| step_remove: "registry_remove h r = Some (Inr (e, r')) \<Longrightarrow> registry_step r r'"
| step_demote: "registry_demote h r = Some (Inr (b, r')) \<Longrightarrow> registry_step r r'"
| step_update: "registry_update h f r = Some r' \<Longrightarrow> registry_step r r'"
| step_rename: "rename_category old new r = (n, r') \<Longrightarrow> registry_step r r'"
| step_clear_categories: "clear_categories names r = (n, r') \<Longrightarrow> registry_step r r'"
| step_clear_tags: "clear_tags names r = (n, r') \<Longrightarrow> registry_step r r'"
| step_snapshot: "registry_snapshot r = (s, r') \<Longrightarrow> registry_step r r'"
| step_ban: "ban_peers ps r = (n, r') \<Longrightarrow> registry_step r r'"

definition revision_room :: "session_registry \<Rightarrow> bool" where
  "revision_room r \<longleftrightarrow> unat (revision r) + length (entries r) + 1 < 2 ^ 64"

inductive registry_path :: "session_registry \<Rightarrow> session_registry \<Rightarrow> bool" where
  path_refl: "registry_path r r"
| path_step: "registry_path r r' \<Longrightarrow> registry_step r' r'' \<Longrightarrow> revision_room r' \<Longrightarrow> registry_path r r''"

subsection \<open>Indexes\<close>

text \<open>
  \<open>stored\<close> is the map of entries and \<open>hashes\<close> the identity of each handle; every index is a function of
  \<open>hashes\<close>.
\<close>

abbreviation stored :: "session_registry \<Rightarrow> torrent_handle \<Rightarrow> registry_record option" where
  "stored r \<equiv> map_of (entries r)"

definition hashes :: "session_registry \<Rightarrow> torrent_handle \<Rightarrow> bytes option" where
  "hashes r hd' = map_option record_info_hash (stored r hd')"

definition wire_handles :: "session_registry \<Rightarrow> bytes \<Rightarrow> torrent_handle list" where
  "wire_handles r p = (case v2_by_wire_hash r p of None \<Rightarrow> [] | Some hs \<Rightarrow> hs)"

definition index_inv :: "session_registry \<Rightarrow> bool" where
  "index_inv r \<longleftrightarrow>
     distinct (map fst (entries r)) \<and>
     (\<forall>h hd'. by_hash r h = Some hd' \<longleftrightarrow> hashes r hd' = Some h) \<and>
     (\<forall>h hd'. hashes r hd' = Some h \<longrightarrow> canonical_info_hash h = h) \<and>
     length (shard_members r) = SNAPSHOT_SHARDS \<and>
     (\<forall>s < SNAPSHOT_SHARDS. distinct (shard_members r ! s) \<and>
        set (shard_members r ! s) = {hd'. \<exists>h. hashes r hd' = Some h \<and> snapshot_shard h = s}) \<and>
     (\<forall>p. distinct (wire_handles r p) \<and> v2_by_wire_hash r p \<noteq> Some [] \<and>
        set (wire_handles r p) = {hd'. \<exists>h. hashes r hd' = Some h \<and> v2_wire_hash_prefix h = Some p})"

lemma snapshot_shard_bound [simp]: "snapshot_shard h < SNAPSHOT_SHARDS"
proof -
  have "snapshot_shard h \<le> unat (of_nat (SNAPSHOT_SHARDS - 1) :: u64)"
    unfolding snapshot_shard_def by (rule iffD1 [OF word_le_nat_alt]) (rule word_and_le1)
  also have "\<dots> < SNAPSHOT_SHARDS" by (simp add: SNAPSHOT_SHARDS_def)
  finally show ?thesis .
qed

lemma lowercase_idem: "to_ascii_lowercase (to_ascii_lowercase b) = to_ascii_lowercase b"
  by (auto simp: to_ascii_lowercase_def word_le_nat_alt unat_word_ariths)

lemma lowercase_hexdigit: "is_ascii_hexdigit b \<Longrightarrow> is_ascii_hexdigit (to_ascii_lowercase b)"
  by (auto simp: to_ascii_lowercase_def is_ascii_hexdigit_def word_le_nat_alt unat_word_ariths)

lemma canonical_idem [simp]: "canonical_info_hash (canonical_info_hash h) = canonical_info_hash h"
  by (auto simp: canonical_info_hash_def lowercase_idem list_all_iff lowercase_hexdigit)

lemma trim_log_drop: "trim_log log = drop (length log - CHANGE_LOG_CAPACITY) log"
proof (induction log rule: trim_log.induct)
  case (1 log)
  show ?case
  proof (cases "CHANGE_LOG_CAPACITY < length log")
    case True
    then show ?thesis using 1 by (subst trim_log.simps) (simp add: drop_Suc [symmetric] Suc_diff_Suc)
  qed (subst trim_log.simps, simp)
qed

lemma trim_log_append [simp]: "trim_log (trim_log a @ b) = trim_log (a @ b)"
  by (cases "length a \<le> CHANGE_LOG_CAPACITY") (simp_all add: trim_log_drop add.commute)

subsection \<open>What each operation does to the entries\<close>

lemma bump_fields [simp]:
  "by_hash (bump_revision h b r) = by_hash r" "v2_by_wire_hash (bump_revision h b r) = v2_by_wire_hash r"
  "entries (bump_revision h b r) = entries r" "shard_members (bump_revision h b r) = shard_members r"
  "reg_stats (bump_revision h b r) = reg_stats r" "active_count (bump_revision h b r) = active_count r"
  "dormant_count (bump_revision h b r) = dormant_count r" "banned (bump_revision h b r) = banned r"
  "shard_snapshot_cache (bump_revision h b r) = shard_snapshot_cache r" "whole_cache (bump_revision h b r) = None"
  "revision (bump_revision h b r) = revision r + 1"
  by (simp_all add: bump_revision_def Let_def)

lemma with_info_hash_simps [simp]:
  "record_info_hash (with_info_hash h rec) = h" "record_handle (with_info_hash h rec) = record_handle rec"
  "record_contribution (with_info_hash h rec) = record_contribution rec" "is_active (with_info_hash h rec) = is_active rec"
  by (cases rec; simp add: contribution_from_entry_def dormant_contribution_def)+

text \<open>\<open>inserted\<close>, \<open>deleted\<close> and \<open>replaced\<close> say how the entries, the identity map and the indexes change.\<close>

definition inserted :: "torrent_handle \<Rightarrow> registry_record \<Rightarrow> session_registry \<Rightarrow> session_registry \<Rightarrow> bool" where
  "inserted hd' rec r r' \<longleftrightarrow>
     (let h = record_info_hash rec; s = snapshot_shard h in
      entries r' = AList.update hd' rec (entries r) \<and> by_hash r h = None \<and> by_hash r' = (by_hash r)(h \<mapsto> hd') \<and>
      shard_members r' = (shard_members r)[s := List.insert hd' (shard_members r ! s)] \<and>
      v2_by_wire_hash r' = (case v2_wire_hash_prefix h of None \<Rightarrow> v2_by_wire_hash r
         | Some p \<Rightarrow> (v2_by_wire_hash r)(p \<mapsto> wire_handles r p @ [hd'])))"

definition deleted :: "torrent_handle \<Rightarrow> registry_record \<Rightarrow> session_registry \<Rightarrow> session_registry \<Rightarrow> bool" where
  "deleted hd' rec r r' \<longleftrightarrow>
     (let h = record_info_hash rec; s = snapshot_shard h in
      entries r' = AList.delete hd' (entries r) \<and> stored r hd' = Some rec \<and> by_hash r' = (by_hash r)(h := None) \<and>
      shard_members r' = (shard_members r)[s := removeAll hd' (shard_members r ! s)] \<and>
      (\<forall>p. wire_handles r' p = (if v2_wire_hash_prefix h = Some p then filter (\<lambda>c. c \<noteq> hd') (wire_handles r p) else wire_handles r p)) \<and>
      (\<forall>p. v2_by_wire_hash r' p = Some [] \<longrightarrow> v2_by_wire_hash r p = Some []))"

definition replaced :: "(torrent_handle \<Rightarrow> registry_record \<Rightarrow> registry_record) \<Rightarrow> session_registry \<Rightarrow> session_registry \<Rightarrow> bool" where
  "replaced g r r' \<longleftrightarrow>
     stored r' = (\<lambda>hd'. map_option (g hd') (stored r hd')) \<and> (\<forall>hd' rec. stored r hd' = Some rec \<longrightarrow> record_info_hash (g hd' rec) = record_info_hash rec) \<and>
     (distinct (map fst (entries r)) \<longrightarrow> distinct (map fst (entries r'))) \<and>
     by_hash r' = by_hash r \<and> shard_members r' = shard_members r \<and> v2_by_wire_hash r' = v2_by_wire_hash r"

lemma add_record_inserted:
  assumes "add_record rec0 r = Inr (hd', r')"
  obtains rec where "inserted hd' rec r r'" "record_info_hash rec = canonical_info_hash (record_info_hash rec0)"
    "hd' = record_handle rec0" "rec = rec0 \<or> rec = with_info_hash (record_info_hash rec) rec0"
    "reg_stats r' = add_contribution (record_contribution rec) (reg_stats r)"
    "active_count r' = active_count r + (if is_active rec then 1 else 0)"
    "dormant_count r' = dormant_count r + (if is_active rec then 0 else 1)"
    "banned r' = banned r"
    "\<exists>r0. r' = bump_revision (record_info_hash rec) False r0 \<and> revision r0 = revision r \<and> changes r0 = changes r \<and>
       shard_revisions r0 = shard_revisions r \<and> whole_cache r0 = whole_cache r \<and> shard_snapshot_cache r0 = shard_snapshot_cache r"
proof -
  let ?c = "canonical_info_hash (record_info_hash rec0)"
  let ?rec = "if ?c \<noteq> record_info_hash rec0 then with_info_hash ?c rec0 else rec0"
  have h: "record_info_hash ?rec = ?c" "record_handle ?rec = record_handle rec0" by auto
  show ?thesis
    by (rule that [of ?rec]; insert assms h)
      (auto simp: add_record_def inserted_def wire_handles_def Let_def split: if_splits option.splits)
qed

lemma by_hash_hashes: "index_inv r \<Longrightarrow> by_hash r h = Some hd' \<longleftrightarrow> hashes r hd' = Some h"
  by (simp add: index_inv_def)

lemma by_hash_stored:
  assumes "index_inv r" "by_hash r h = Some hd'"
  obtains rec where "stored r hd' = Some rec" "record_info_hash rec = h" "canonical_info_hash h = h"
  using assms by (fastforce simp: index_inv_def hashes_def)

text \<open>Fields that \<open>bump_revision\<close> reads, unchanged from \<open>r\<close> to \<open>r0\<close>.\<close>

definition same_log :: "session_registry \<Rightarrow> session_registry \<Rightarrow> bool" where
  "same_log r r0 \<longleftrightarrow> revision r0 = revision r \<and> changes r0 = changes r \<and> shard_revisions r0 = shard_revisions r \<and>
     whole_cache r0 = whole_cache r \<and> shard_snapshot_cache r0 = shard_snapshot_cache r"

lemma registry_remove_deleted:
  assumes inv: "index_inv r" and rm: "registry_remove h r = Some (Inr (e, r'))"
  obtains hd' rec r0 where "deleted hd' rec r r'" "record_info_hash rec = canonical_info_hash h" "e = record_to_entry rec"
    "reg_stats r' = remove_contribution (record_contribution rec) (reg_stats r)"
    "active_count r' = active_count r - (if is_active rec then 1 else 0)"
    "dormant_count r' = dormant_count r - (if is_active rec then 0 else 1)"
    "banned r' = banned r" "r' = bump_revision (record_info_hash rec) True r0" "same_log r r0"
proof -
  from rm obtain hd' where b: "by_hash r (canonical_info_hash h) = Some hd'"
    by (auto simp: registry_remove_def Let_def split: option.splits)
  from by_hash_stored [OF inv b] obtain rec where rec: "stored r hd' = Some rec" "record_info_hash rec = canonical_info_hash h" by blast
  let ?h = "canonical_info_hash h"
  define v where "v = (case v2_wire_hash_prefix ?h of None \<Rightarrow> v2_by_wire_hash r
      | Some p \<Rightarrow> (case v2_by_wire_hash r p of None \<Rightarrow> v2_by_wire_hash r
         | Some hs \<Rightarrow> (v2_by_wire_hash r)(p := if filter (\<lambda>c. c \<noteq> hd') hs = [] then None else Some (filter (\<lambda>c. c \<noteq> hd') hs))))"
  define r0 where "r0 = r\<lparr>by_hash := (by_hash r)(?h := None), entries := AList.delete hd' (entries r), v2_by_wire_hash := v,
      reg_stats := remove_contribution (record_contribution rec) (reg_stats r),
      active_count := active_count r - (if is_active rec then 1 else 0),
      dormant_count := dormant_count r - (if is_active rec then 0 else 1),
      shard_members := (shard_members r)[snapshot_shard ?h := removeAll hd' (shard_members r ! snapshot_shard ?h)]\<rparr>"
  have r': "e = record_to_entry rec" "r' = bump_revision ?h True r0"
    using rm b rec unfolding r0_def v_def
    by (auto simp: registry_remove_def Let_def split: option.splits)
  have v: "wire_handles r' p = (if v2_wire_hash_prefix ?h = Some p then filter (\<lambda>c. c \<noteq> hd') (wire_handles r p) else wire_handles r p)"
    "v2_by_wire_hash r' p = Some [] \<longrightarrow> v2_by_wire_hash r p = Some []" for p
    by (auto simp: r' r0_def v_def wire_handles_def split: option.splits)
  show ?thesis
    by (rule that [of hd' rec r0]) (use rec v in \<open>simp_all add: deleted_def r' r0_def same_log_def Let_def\<close>)
qed

lemma map_of_delete_update: "map_of (AList.update k v (AList.delete k al)) = (map_of al)(k \<mapsto> v)"
  by (simp add: update_conv' delete_conv')

lemma distinct_delete_update: "distinct (map fst al) \<Longrightarrow> distinct (map fst (AList.update k v (AList.delete k al)))"
  by (intro distinct_update distinct_delete)

lemma replaced_one:
  assumes "stored r hd' = Some rec" "record_info_hash rec' = record_info_hash rec"
    "entries r' = AList.update hd' rec' (AList.delete hd' (entries r)) \<or> entries r' = AList.update hd' rec' (entries r)"
    "by_hash r' = by_hash r" "shard_members r' = shard_members r" "v2_by_wire_hash r' = v2_by_wire_hash r"
  shows "replaced (\<lambda>k x. if k = hd' then rec' else x) r r'"
proof -
  have "stored r' = (stored r)(hd' \<mapsto> rec')" using assms(3) by (auto simp: map_of_delete_update update_conv')
  then have "stored r' = (\<lambda>k. map_option (\<lambda>x. if k = hd' then rec' else x) (stored r k))"
  proof -
    have "((stored r)(hd' \<mapsto> rec')) k = map_option (\<lambda>x. if k = hd' then rec' else x) (stored r k)" for k
      using assms(1) by (cases "stored r k") auto
    then show ?thesis unfolding \<open>stored r' = (stored r)(hd' \<mapsto> rec')\<close> by (rule ext)
  qed
  then show ?thesis using assms distinct_delete_update distinct_update by (auto simp: replaced_def)
qed

lemma registry_demote_replaced:
  assumes inv: "index_inv r" and d: "registry_demote h r = Some (Inr (b, r'))"
  obtains hd' rec rec' where "stored r hd' = Some rec" "rec' = rec \<or> (\<exists>e. rec = Active e \<and> rec' = Dormant (into_dormant e))"
    "replaced (\<lambda>k x. if k = hd' then rec' else x) r r'" "same_log r r'" "reg_stats r' = reg_stats r" "banned r' = banned r"
    "is_active rec \<and> active_count r' = active_count r - 1 \<and> dormant_count r' = dormant_count r + 1 \<and> \<not> is_active rec' \<or>
     \<not> is_active rec \<and> active_count r' = active_count r \<and> dormant_count r' = dormant_count r \<and> rec' = rec"
proof -
  from d obtain hd' rec where b: "by_hash r (canonical_info_hash h) = Some hd'" and rec: "stored r hd' = Some rec"
    by (auto simp: registry_demote_def Let_def split: option.splits)
  show ?thesis
  proof (cases rec)
    case (Active e)
    with d b rec have "r' = r\<lparr>entries := AList.update hd' (Dormant (into_dormant e)) (AList.delete hd' (entries r)),
        active_count := active_count r - 1, dormant_count := dormant_count r + 1\<rparr>"
      by (simp add: registry_demote_def Let_def)
    then show ?thesis using rec Active
      by (intro that [of hd' rec "Dormant (into_dormant e)"] replaced_one [of r hd' rec]) (simp_all add: same_log_def)
  next
    case (Dormant x)
    with d b rec have "r' = r\<lparr>entries := AList.update hd' rec (AList.delete hd' (entries r))\<rparr>"
      by (simp add: registry_demote_def Let_def)
    then show ?thesis using rec Dormant
      by (intro that [of hd' rec rec] replaced_one [of r hd' rec]) (simp_all add: same_log_def)
  qed
qed

text \<open>
  Mutable access first makes the record an active one, with what a reader sees unchanged, and then, when
  something was written, replaces the entry.
\<close>

lemma get_mut_replaced:
  assumes inv: "index_inv r" and g: "get_mut h r = Some (g, e, r1)"
  obtains rec where "stored r (guard_handle g) = Some rec" "e = record_to_entry rec" "record_info_hash rec = canonical_info_hash h"
    "guard_info_hash g = canonical_info_hash h" "guard_before g = contribution_from_entry e" "stored r1 (guard_handle g) = Some (Active e)"
    "replaced (\<lambda>k x. if k = guard_handle g then Active e else x) r r1" "same_log r r1" "reg_stats r1 = reg_stats r" "banned r1 = banned r"
    "active_count r1 = active_count r + (if is_active rec then 0 else 1)"
    "dormant_count r1 = dormant_count r - (if is_active rec then 0 else 1)"
proof -
  let ?h = "canonical_info_hash h"
  from g obtain hd' where b: "by_hash r ?h = Some hd'" by (auto simp: get_mut_def Let_def split: option.splits)
  from by_hash_stored [OF inv b] obtain rec where rec: "stored r hd' = Some rec" "record_info_hash rec = ?h" by blast
  show ?thesis
  proof (cases rec)
    case (Active e')
    have id: "replaced (\<lambda>k x. if k = hd' then Active e' else x) r r"
    proof -
      have "map_option (\<lambda>x. if k = hd' then Active e' else x) (stored r k) = stored r k" for k
        using rec(1) Active by (cases "stored r k") auto
      then show ?thesis using rec(1) Active by (auto simp: replaced_def)
    qed
    from g b rec Active have "g = \<lparr>guard_handle = hd', guard_info_hash = ?h, guard_before = contribution_from_entry e'\<rparr>" "e = e'" "r1 = r"
      by (auto simp: get_mut_def Let_def)
    then show ?thesis using rec Active id by (intro that [of rec]) (auto simp: same_log_def)
  next
    case (Dormant d)
    have e: "record_info_hash (Active (dormant_to_entry d)) = record_info_hash rec" using Dormant by simp
    from g b rec Dormant have "g = \<lparr>guard_handle = hd', guard_info_hash = ?h, guard_before = contribution_from_entry (dormant_to_entry d)\<rparr>"
      "e = dormant_to_entry d"
      "r1 = r\<lparr>entries := AList.update hd' (Active (dormant_to_entry d)) (AList.delete hd' (entries r)),
         dormant_count := dormant_count r - 1, active_count := active_count r + 1\<rparr>"
      by (auto simp: get_mut_def Let_def map_of_delete_update)
    moreover from this have "replaced (\<lambda>k x. if k = hd' then Active (dormant_to_entry d) else x) r r1"
      using rec e by (intro replaced_one [of r hd' rec]) simp_all
    ultimately show ?thesis using rec Dormant by (intro that [of rec]) (auto simp: same_log_def map_of_delete_update)
  qed
qed

lemma contribution_to_entry: "contribution_from_entry (record_to_entry rec) = record_contribution rec"
  by (cases rec) (simp_all add: contribution_from_entry_def dormant_to_entry_def dormant_contribution_def)

lemma guard_drop_replaced:
  assumes "stored r1 (guard_handle g) = Some (Active e)" "te_info_hash e = guard_info_hash g"
  obtains e' r0 where "te_info_hash e' = guard_info_hash g" "replaced (\<lambda>k x. if k = guard_handle g then Active e' else x) r1 (guard_drop g m r1)"
    "reg_stats (guard_drop g m r1) = apply_delta (guard_before g) (contribution_from_entry e') (reg_stats r1)"
    "active_count (guard_drop g m r1) = active_count r1" "dormant_count (guard_drop g m r1) = dormant_count r1"
    "banned (guard_drop g m r1) = banned r1"
    "guard_drop g m r1 = bump_revision (guard_info_hash g) False r0" "same_log r1 r0"
proof -
  let ?e = "if te_info_hash m \<noteq> guard_info_hash g then m\<lparr>te_info_hash := guard_info_hash g\<rparr> else m"
  let ?r0 = "r1\<lparr>entries := AList.update (guard_handle g) (Active ?e) (entries r1),
      reg_stats := apply_delta (guard_before g) (contribution_from_entry ?e) (reg_stats r1)\<rparr>"
  have d: "guard_drop g m r1 = bump_revision (guard_info_hash g) False ?r0"
    by (simp add: guard_drop_def bump_revision_def Let_def)
  show ?thesis
    by (rule that [of ?e ?r0]) (use assms d in \<open>auto simp: same_log_def intro!: replaced_one [of r1 "guard_handle g" "Active e"]\<close>)
qed

lemma fold_bump_fields [simp]:
  "by_hash (fold (\<lambda>h. bump_revision h b) hs r) = by_hash r" "v2_by_wire_hash (fold (\<lambda>h. bump_revision h b) hs r) = v2_by_wire_hash r"
  "entries (fold (\<lambda>h. bump_revision h b) hs r) = entries r" "shard_members (fold (\<lambda>h. bump_revision h b) hs r) = shard_members r"
  "reg_stats (fold (\<lambda>h. bump_revision h b) hs r) = reg_stats r" "active_count (fold (\<lambda>h. bump_revision h b) hs r) = active_count r"
  "dormant_count (fold (\<lambda>h. bump_revision h b) hs r) = dormant_count r" "banned (fold (\<lambda>h. bump_revision h b) hs r) = banned r"
  by (induction hs arbitrary: r) simp_all

text \<open>A label edit keeps identity, counters and the kind of record.\<close>

definition label_edit :: "(registry_record \<Rightarrow> registry_record option) \<Rightarrow> bool" where
  "label_edit edit \<longleftrightarrow> (\<forall>rec rec'. edit rec = Some rec' \<longrightarrow> record_info_hash rec' = record_info_hash rec \<and>
     record_contribution rec' = record_contribution rec \<and> is_active rec' = is_active rec)"

definition edited :: "(registry_record \<Rightarrow> registry_record option) \<Rightarrow> registry_record \<Rightarrow> registry_record" where
  "edited edit rec = (case edit rec of None \<Rightarrow> rec | Some rec' \<Rightarrow> rec')"

lemma label_edits: "label_edit (set_category hit new)" "label_edit (drop_tags names)"
proof -
  have "record_info_hash rec' = record_info_hash rec \<and> record_contribution rec' = record_contribution rec \<and> is_active rec' = is_active rec"
    if "set_category hit new rec = Some rec'" for rec rec'
    using that by (cases rec) (auto simp: contribution_from_entry_def dormant_contribution_def split: option.splits if_splits)
  then show "label_edit (set_category hit new)" by (simp add: label_edit_def)
  have "record_info_hash rec' = record_info_hash rec \<and> record_contribution rec' = record_contribution rec \<and> is_active rec' = is_active rec"
    if "drop_tags names rec = Some rec'" for rec rec'
    using that by (cases rec) (auto simp: contribution_from_entry_def dormant_contribution_def Let_def split: if_splits)
  then show "label_edit (drop_tags names)" by (simp add: label_edit_def)
qed

lemma label_edit_edited:
  assumes "label_edit edit"
  shows "record_info_hash (edited edit rec) = record_info_hash rec" "record_contribution (edited edit rec) = record_contribution rec"
    "is_active (edited edit rec) = is_active rec"
  using assms by (auto simp: label_edit_def edited_def split: option.splits)

lemma edit_records_replaced:
  assumes edit: "label_edit edit" and r: "edit_records edit r = (n, r')"
  obtains r1 where "replaced (\<lambda>k. edited edit) r r'" "reg_stats r' = reg_stats r" "active_count r' = active_count r"
    "dormant_count r' = dormant_count r" "banned r' = banned r" "same_log r r1" "entries r' = entries r1"
    "r' = fold (\<lambda>h. bump_revision h False) (map record_info_hash (List.map_filter (edit \<circ> snd) (entries r))) r1"
proof -
  let ?r1 = "r\<lparr>entries := map (\<lambda>(h, rec). (h, edited edit rec)) (entries r)\<rparr>"
  have r': "r' = fold (\<lambda>h. bump_revision h False) (map record_info_hash (List.map_filter (edit \<circ> snd) (entries r))) ?r1"
    using r by (simp add: edit_records_def edited_def [abs_def] Let_def)
  have "map_of (map (\<lambda>(h, rec). (h, edited edit rec)) (entries r)) = (\<lambda>k. map_option (edited edit) (map_of (entries r) k))"
    by (simp add: map_of_map comp_def)
  then have "replaced (\<lambda>k. edited edit) r r'"
    using label_edit_edited [OF edit] by (auto simp: replaced_def r' comp_def case_prod_beta)
  then show ?thesis by (rule that [of ?r1]) (simp_all add: r' same_log_def)
qed

subsection \<open>The indexes follow the entries\<close>

lemma hashes_replaced: "replaced g r r' \<Longrightarrow> hashes r' = hashes r"
  by (rule ext) (auto simp: replaced_def hashes_def option.map_comp intro!: option.map_cong)

lemma index_inv_replaced: "index_inv r \<Longrightarrow> replaced g r r' \<Longrightarrow> index_inv r'"
  using hashes_replaced [of g r r'] by (simp add: index_inv_def replaced_def wire_handles_def)

lemma hashes_inserted: "inserted hd' rec r r' \<Longrightarrow> hashes r' = (hashes r)(hd' \<mapsto> record_info_hash rec)"
  by (rule ext) (simp add: inserted_def hashes_def update_conv' Let_def)

lemma hashes_deleted: "deleted hd' rec r r' \<Longrightarrow> hashes r' = (hashes r)(hd' := None)"
  by (rule ext) (simp add: deleted_def hashes_def delete_conv' Let_def)

lemma index_inv_inserted:
  assumes inv: "index_inv r" and ins: "inserted hd' rec r r'" and fresh: "hd' \<notin> fst ` set (entries r)"
    and canon: "canonical_info_hash (record_info_hash rec) = record_info_hash rec"
  shows "index_inv r'"
proof -
  let ?h = "record_info_hash rec"
  have new: "hashes r hd' = None" using fresh by (simp add: hashes_def map_of_eq_None_iff)
  have b: "by_hash r ?h = None" "by_hash r' = (by_hash r)(?h \<mapsto> hd')" using ins by (simp_all add: inserted_def Let_def)
  have unused: "hashes r k \<noteq> Some ?h" for k using inv b(1) by (metis by_hash_hashes option.distinct(1))
  note H = hashes_inserted [OF ins]
  have "distinct (map fst (entries r'))" using inv ins by (auto simp: index_inv_def inserted_def Let_def intro: distinct_update)
  moreover have "by_hash r' h = Some k \<longleftrightarrow> hashes r' k = Some h" for h k
    using b new unused by_hash_hashes [OF inv] by (auto simp: H)
  moreover have "hashes r' k = Some h \<longrightarrow> canonical_info_hash h = h" for h k
    using inv canon by (auto simp: H index_inv_def)
  moreover have "length (shard_members r') = SNAPSHOT_SHARDS" using inv ins by (simp add: index_inv_def inserted_def Let_def)
  moreover have "distinct (shard_members r' ! s) \<and> set (shard_members r' ! s) = {k. \<exists>h. hashes r' k = Some h \<and> snapshot_shard h = s}"
    if "s < SNAPSHOT_SHARDS" for s
    using inv ins that new by (auto simp: index_inv_def inserted_def Let_def H nth_list_update)
  moreover have "distinct (wire_handles r' p) \<and> v2_by_wire_hash r' p \<noteq> Some [] \<and>
      set (wire_handles r' p) = {k. \<exists>h. hashes r' k = Some h \<and> v2_wire_hash_prefix h = Some p}" for p
  proof -
    have wh: "wire_handles r' p = (if v2_wire_hash_prefix ?h = Some p then wire_handles r p @ [hd'] else wire_handles r p)"
      "v2_by_wire_hash r' p = (if v2_wire_hash_prefix ?h = Some p then Some (wire_handles r p @ [hd']) else v2_by_wire_hash r p)"
      using ins by (auto simp: inserted_def Let_def wire_handles_def split: option.splits)
    have "distinct (wire_handles r p)" "v2_by_wire_hash r p \<noteq> Some []"
      "set (wire_handles r p) = {k. \<exists>h. hashes r k = Some h \<and> v2_wire_hash_prefix h = Some p}" using inv by (simp_all add: index_inv_def)
    then show ?thesis using new by (auto simp: wh H)
  qed
  ultimately show ?thesis unfolding index_inv_def by blast
qed

lemma index_inv_deleted:
  assumes inv: "index_inv r" and del: "deleted hd' rec r r'"
  shows "index_inv r'"
proof -
  let ?h = "record_info_hash rec"
  have old: "hashes r hd' = Some ?h" and b: "by_hash r' = (by_hash r)(?h := None)" using del by (simp_all add: deleted_def hashes_def Let_def)
  have only: "hashes r k = Some ?h \<Longrightarrow> k = hd'" for k using by_hash_hashes [OF inv, of ?h] old by (metis option.inject)
  note H = hashes_deleted [OF del]
  have "distinct (map fst (entries r))" "entries r' = AList.delete hd' (entries r)"
    using inv del by (simp_all add: index_inv_def deleted_def Let_def)
  then have "distinct (map fst (entries r'))" by (simp add: distinct_delete)
  moreover have "by_hash r' h = Some k \<longleftrightarrow> hashes r' k = Some h" for h k
  proof (cases "k = hd'")
    case True
    then show ?thesis using old by_hash_hashes [OF inv, of h hd'] by (simp add: H b)
  next
    case False
    then have "hashes r k \<noteq> Some ?h" using only by blast
    then show ?thesis using False by_hash_hashes [OF inv, of h k] by (simp add: H b)
  qed
  moreover have "hashes r' k = Some h \<longrightarrow> canonical_info_hash h = h" for h k using inv by (auto simp: H index_inv_def)
  moreover have "length (shard_members r') = SNAPSHOT_SHARDS" using inv del by (simp add: index_inv_def deleted_def Let_def)
  moreover have "distinct (shard_members r' ! s) \<and> set (shard_members r' ! s) = {k. \<exists>h. hashes r' k = Some h \<and> snapshot_shard h = s}"
    if "s < SNAPSHOT_SHARDS" for s
    using inv del that old by (auto simp: index_inv_def deleted_def Let_def H nth_list_update distinct_removeAll)
  moreover have "distinct (wire_handles r' p) \<and> v2_by_wire_hash r' p \<noteq> Some [] \<and>
      set (wire_handles r' p) = {k. \<exists>h. hashes r' k = Some h \<and> v2_wire_hash_prefix h = Some p}" for p
  proof -
    have wh: "wire_handles r' p = (if v2_wire_hash_prefix ?h = Some p then filter (\<lambda>c. c \<noteq> hd') (wire_handles r p) else wire_handles r p)"
      "v2_by_wire_hash r' p = Some [] \<longrightarrow> v2_by_wire_hash r p = Some []"
      using del by (simp_all add: deleted_def Let_def)
    have "distinct (wire_handles r p)" "v2_by_wire_hash r p \<noteq> Some []"
      "set (wire_handles r p) = {k. \<exists>h. hashes r k = Some h \<and> v2_wire_hash_prefix h = Some p}" using inv by (simp_all add: index_inv_def)
    then show ?thesis using old wh(2) by (auto simp: wh(1) H)
  qed
  ultimately show ?thesis unfolding index_inv_def by blast
qed

end
