(* ===== verification/Session_Counters.thy ===== *)
theory Session_Counters
  imports Session_Index
begin

text \<open>
  The counters of the session registry are the totals of its entries, through every operation.
\<close>

subsection \<open>Totals over the entries\<close>

definition total_of :: "(registry_record \<Rightarrow> nat) \<Rightarrow> session_registry \<Rightarrow> nat" where
  "total_of f r = (\<Sum>k \<in> dom (stored r). f (the (stored r k)))"

lemma finite_stored [simp]: "finite (dom (stored r))"
  by (rule finite_dom_map_of)

lemma total_of_split: "stored r k = Some rec \<Longrightarrow> total_of f r = f rec + (\<Sum>j \<in> dom (stored r) - {k}. f (the (stored r j)))"
  unfolding total_of_def by (subst sum.remove [of _ k]) auto

lemma total_inserted:
  assumes "inserted hd' rec r r'" "hd' \<notin> fst ` set (entries r)"
  shows "total_of f r' = total_of f r + f rec"
proof -
  have s: "stored r' = (stored r)(hd' \<mapsto> rec)" using assms(1) by (simp add: inserted_def update_conv' Let_def)
  have new: "hd' \<notin> dom (stored r)" using assms(2) by (simp add: dom_map_of_conv_image_fst)
  have "total_of f r' = f rec + (\<Sum>j \<in> dom (stored r') - {hd'}. f (the (stored r' j)))" by (rule total_of_split) (simp add: s)
  also have "(\<Sum>j \<in> dom (stored r') - {hd'}. f (the (stored r' j))) = total_of f r"
    unfolding total_of_def using new by (intro sum.cong) (auto simp: s)
  finally show ?thesis by simp
qed

lemma total_deleted:
  assumes "deleted hd' rec r r'"
  shows "total_of f r = total_of f r' + f rec"
proof -
  have s: "stored r' = (stored r)(hd' := None)" "stored r hd' = Some rec" using assms by (simp_all add: deleted_def delete_conv' Let_def)
  have "total_of f r = f rec + (\<Sum>j \<in> dom (stored r) - {hd'}. f (the (stored r j)))" by (rule total_of_split) (simp add: s)
  also have "(\<Sum>j \<in> dom (stored r) - {hd'}. f (the (stored r j))) = total_of f r'"
    unfolding total_of_def by (intro sum.cong) (auto simp: s)
  finally show ?thesis by simp
qed

lemma total_replaced_rest:
  assumes "replaced (\<lambda>k x. if k = hd' then rec' else x) r r'" "stored r hd' = Some rec"
  shows "\<exists>rest. total_of f r = rest + f rec \<and> total_of f r' = rest + f rec'"
proof -
  have s: "stored r' k = map_option (\<lambda>x. if k = hd' then rec' else x) (stored r k)" for k using assms(1) by (simp add: replaced_def)
  then have k: "stored r' hd' = Some rec'" using assms(2) by simp
  have "(\<Sum>j \<in> dom (stored r') - {hd'}. f (the (stored r' j))) = (\<Sum>j \<in> dom (stored r) - {hd'}. f (the (stored r j)))"
    by (intro sum.cong) (auto simp: s)
  then show ?thesis using total_of_split [OF k, of f] total_of_split [OF assms(2), of f] by simp
qed

lemma total_replaced:
  assumes "replaced (\<lambda>k x. if k = hd' then rec' else x) r r'" "stored r hd' = Some rec"
  shows "total_of f r' + f rec = total_of f r + f rec'"
  using total_replaced_rest [OF assms, of f] by auto

lemma total_same:
  assumes "replaced g r r'" "\<And>k rec. stored r k = Some rec \<Longrightarrow> f (g k rec) = f rec"
  shows "total_of f r' = total_of f r"
proof -
  have s: "stored r' k = map_option (g k) (stored r k)" for k using assms(1) by (simp add: replaced_def)
  show ?thesis unfolding total_of_def using assms(2) by (intro sum.cong) (auto simp: s)
qed

subsection \<open>The invariant\<close>

abbreviation actives :: "session_registry \<Rightarrow> nat" where
  "actives \<equiv> total_of (\<lambda>rec. if is_active rec then 1 else 0)"

abbreviation dormants :: "session_registry \<Rightarrow> nat" where
  "dormants \<equiv> total_of (\<lambda>rec. if is_active rec then 0 else 1)"

definition registry_inv :: "session_registry \<Rightarrow> bool" where
  "registry_inv r \<longleftrightarrow> index_inv r \<and> active_count r = actives r \<and> dormant_count r = dormants r \<and>
     distinct (banned r) \<and> length (banned r) \<le> MAX_BANNED_PEERS"

lemma registry_inv_new: "registry_inv registry_new"
  by (simp add: registry_inv_def index_inv_def registry_new_def total_of_def hashes_def wire_handles_def)

lemma add_record_inv:
  assumes "registry_inv r" "add_record rec0 r = Inr (hd', r')" "record_handle rec0 \<notin> fst ` set (entries r)"
  shows "registry_inv r'"
proof (rule add_record_inserted [OF assms(2)])
  fix rec
  assume ins: "inserted hd' rec r r'" and c: "record_info_hash rec = canonical_info_hash (record_info_hash rec0)" and hd': "hd' = record_handle rec0"
    and counts: "active_count r' = active_count r + (if is_active rec then 1 else 0)"
      "dormant_count r' = dormant_count r + (if is_active rec then 0 else 1)" "banned r' = banned r"
  have fresh: "hd' \<notin> fst ` set (entries r)" using assms(3) hd' by simp
  have "index_inv r'" by (rule index_inv_inserted [OF _ ins fresh]) (use assms(1) c in \<open>simp_all add: registry_inv_def\<close>)
  then show ?thesis using assms(1) counts by (simp add: registry_inv_def total_inserted [OF ins fresh])
qed

lemma registry_remove_inv:
  assumes "registry_inv r" "registry_remove h r = Some (Inr (e, r'))"
  shows "registry_inv r'"
proof -
  have inv: "index_inv r" using assms(1) by (simp add: registry_inv_def)
  show ?thesis
  proof (rule registry_remove_deleted [OF inv assms(2)])
    fix hd' rec r0
    assume del: "deleted hd' rec r r'" and counts: "active_count r' = active_count r - (if is_active rec then 1 else 0)"
      "dormant_count r' = dormant_count r - (if is_active rec then 0 else 1)" "banned r' = banned r"
    have "index_inv r'" using inv del by (rule index_inv_deleted)
    then show ?thesis using assms(1) counts by (simp add: registry_inv_def total_deleted [OF del])
  qed
qed

lemma registry_demote_inv:
  assumes "registry_inv r" "registry_demote h r = Some (Inr (b, r'))"
  shows "registry_inv r'"
proof -
  have inv: "index_inv r" using assms(1) by (simp add: registry_inv_def)
  show ?thesis
  proof (rule registry_demote_replaced [OF inv assms(2)])
    fix hd' rec rec'
    assume rec: "stored r hd' = Some rec" and rep: "replaced (\<lambda>k x. if k = hd' then rec' else x) r r'" and b: "banned r' = banned r"
      and counts: "is_active rec \<and> active_count r' = active_count r - 1 \<and> dormant_count r' = dormant_count r + 1 \<and> \<not> is_active rec' \<or>
        \<not> is_active rec \<and> active_count r' = active_count r \<and> dormant_count r' = dormant_count r \<and> rec' = rec"
    have "index_inv r'" using inv rep by (rule index_inv_replaced)
    moreover have "active_count r' = actives r'" "dormant_count r' = dormants r'"
      using counts assms(1) total_replaced [OF rep rec, of "\<lambda>rec. if is_active rec then 1 else 0"]
        total_replaced [OF rep rec, of "\<lambda>rec. if is_active rec then 0 else 1"] by (auto simp: registry_inv_def)
    ultimately show ?thesis using assms(1) b by (simp add: registry_inv_def)
  qed
qed

text \<open>Operations that leave the entries, the counts and the bans alone keep the invariant.\<close>

definition same_content :: "session_registry \<Rightarrow> session_registry \<Rightarrow> bool" where
  "same_content r r' \<longleftrightarrow> entries r' = entries r \<and> by_hash r' = by_hash r \<and> v2_by_wire_hash r' = v2_by_wire_hash r \<and>
     shard_members r' = shard_members r \<and> reg_stats r' = reg_stats r \<and> active_count r' = active_count r \<and>
     dormant_count r' = dormant_count r \<and> banned r' = banned r \<and> revision r' = revision r \<and>
     shard_revisions r' = shard_revisions r \<and> changes r' = changes r"

lemma same_content_refl [simp]: "same_content r r"
  by (simp add: same_content_def)

lemma same_content_trans: "same_content r r' \<Longrightarrow> same_content r' r'' \<Longrightarrow> same_content r r''"
  by (simp add: same_content_def)

lemma total_same_content: "same_content r r' \<Longrightarrow> total_of f r' = total_of f r"
  by (simp add: same_content_def total_of_def)

lemma hashes_same_content: "same_content r r' \<Longrightarrow> hashes r' = hashes r"
  by (simp add: same_content_def hashes_def fun_eq_iff)

lemma index_inv_same_content: "same_content r r' \<Longrightarrow> index_inv r \<Longrightarrow> index_inv r'"
  using hashes_same_content [of r r'] by (simp add: same_content_def index_inv_def wire_handles_def)

lemma shard_snapshot_content: "shard_snapshot s r = (es, r') \<Longrightarrow> same_content r r' \<and> whole_cache r' = whole_cache r"
  by (auto simp: shard_snapshot_def same_content_def Let_def split: option.splits if_splits)

lemma collect_shards_content: "collect_shards ss es r = (es', r') \<Longrightarrow> same_content r r' \<and> whole_cache r' = whole_cache r"
proof (induction ss arbitrary: es r)
  case (Cons s ss)
  obtain xs r1 where s: "shard_snapshot s r = (xs, r1)" by force
  show ?case using Cons.IH [of "es @ xs" r1] Cons.prems s shard_snapshot_content [OF s] by (auto intro: same_content_trans)
qed simp

lemma registry_snapshot_content: "registry_snapshot r = (s, r') \<Longrightarrow> same_content r r'"
proof -
  assume s: "registry_snapshot r = (s, r')"
  obtain es r1 where c: "collect_shards [0..<SNAPSHOT_SHARDS] [] r = (es, r1)" by force
  have "same_content r (r1\<lparr>whole_cache := w\<rparr>)" for w
    using collect_shards_content [OF c] by (simp add: same_content_def)
  then show ?thesis using s c
    by (auto simp: registry_snapshot_def rebuild_snapshot_entries_def Let_def split: option.splits if_splits)
qed

lemma unseen_distinct: "distinct (unseen seen ps) \<and> set (unseen seen ps) = set ps - set seen"
  by (induction seen ps rule: unseen.induct) auto

lemma ban_peers_inv:
  assumes "registry_inv r" "ban_peers ps r = (n, r')"
  shows "registry_inv r'"
proof -
  let ?u = "unseen [] (filter (\<lambda>p. p \<notin> set (banned r)) ps)"
  let ?a = "take (MAX_BANNED_PEERS - length (banned r)) ?u"
  have r': "r' = r\<lparr>banned := banned r @ ?a\<rparr>" using assms(2) by (auto simp: ban_peers_def bannable_peers_def Let_def)
  have "same_content r (r'\<lparr>banned := banned r\<rparr>)" by (simp add: r' same_content_def)
  moreover have "set ?a \<inter> set (banned r) = {}" "distinct ?a"
    using unseen_distinct [of "[]" "filter (\<lambda>p. p \<notin> set (banned r)) ps"] set_take_subset [of _ ?u] by auto
  ultimately show ?thesis using assms(1)
    by (auto simp: registry_inv_def r' index_inv_def hashes_def wire_handles_def total_of_def)
qed

lemma registry_update_inv:
  assumes "registry_inv r" "registry_update h f r = Some r'"
  shows "registry_inv r'"
proof -
  have inv: "index_inv r" using assms(1) by (simp add: registry_inv_def)
  from assms(2) obtain g e r1 where g: "get_mut h r = Some (g, e, r1)"
    and r': "r' = (case f of None \<Rightarrow> r1 | Some m \<Rightarrow> guard_drop g (m e) r1)"
    by (auto simp: registry_update_def split: option.splits)
  from get_mut_replaced [OF inv g] obtain rec where rec: "stored r (guard_handle g) = Some rec" "e = record_to_entry rec"
      "record_info_hash rec = guard_info_hash g" "stored r1 (guard_handle g) = Some (Active e)"
    and rep: "replaced (\<lambda>k x. if k = guard_handle g then Active e else x) r r1" and b: "banned r1 = banned r"
    and counts: "active_count r1 = active_count r + (if is_active rec then 0 else 1)" "dormant_count r1 = dormant_count r - (if is_active rec then 0 else 1)"
    by metis
  have "active_count r1 = actives r1" "dormant_count r1 = dormants r1"
    using counts assms(1) total_replaced [OF rep rec(1), of "\<lambda>rec. if is_active rec then 1 else 0"]
      total_replaced [OF rep rec(1), of "\<lambda>rec. if is_active rec then 0 else 1"] by (auto simp: registry_inv_def)
  with index_inv_replaced [OF inv rep] b assms(1) have r1: "registry_inv r1" by (simp add: registry_inv_def)
  show ?thesis
  proof (cases f)
    case None
    then show ?thesis using r' r1 by simp
  next
    case (Some m)
    have "te_info_hash e = guard_info_hash g" using rec(2,3) by (cases rec) simp_all
    from guard_drop_replaced [OF rec(4) this, of "m e"] obtain e' where
      rep2: "replaced (\<lambda>k x. if k = guard_handle g then Active e' else x) r1 (guard_drop g (m e) r1)"
      and c2: "active_count (guard_drop g (m e) r1) = active_count r1" "dormant_count (guard_drop g (m e) r1) = dormant_count r1"
        "banned (guard_drop g (m e) r1) = banned r1" by metis
    have inv1: "index_inv r1" using r1 by (simp add: registry_inv_def)
    show ?thesis using Some r' r1 c2 index_inv_replaced [OF inv1 rep2] total_replaced [OF rep2 rec(4), of "\<lambda>rec. if is_active rec then 1 else 0"]
        total_replaced [OF rep2 rec(4), of "\<lambda>rec. if is_active rec then 0 else 1"] by (simp add: registry_inv_def)
  qed
qed

lemma edit_records_inv:
  assumes "registry_inv r" "label_edit edit" "edit_records edit r = (n, r')"
  shows "registry_inv r'"
proof (rule edit_records_replaced [OF assms(2,3)])
  assume rep: "replaced (\<lambda>k. edited edit) r r'" and c: "active_count r' = active_count r" "dormant_count r' = dormant_count r" "banned r' = banned r"
  have "actives r' = actives r" "dormants r' = dormants r"
    by (rule total_same [OF rep], simp add: label_edit_edited [OF assms(2)])+
  then show ?thesis using assms(1) c index_inv_replaced [OF _ rep] by (simp add: registry_inv_def)
qed

lemma registry_step_inv: "registry_step r r' \<Longrightarrow> registry_inv r \<Longrightarrow> registry_inv r'"
proof (induction rule: registry_step.induct)
  case (step_add e r hd' r')
  then show ?case using add_record_inv [of r "Active e"] by (simp add: registry_add_def)
next
  case (step_add_dormant d r hd' r')
  then show ?case using add_record_inv [of r "Dormant d"] by (simp add: add_dormant_def)
next
  case (step_rename old new r n r')
  then show ?case using edit_records_inv [OF _ label_edits(1)] by (auto simp: rename_category_def split: if_splits)
next
  case (step_snapshot r s r')
  then show ?case using registry_snapshot_content [of r s r'] index_inv_same_content [of r r'] total_same_content [of r r']
    by (simp add: registry_inv_def same_content_def)
qed (auto simp: clear_categories_def clear_tags_def
    intro: registry_remove_inv registry_demote_inv registry_update_inv ban_peers_inv edit_records_inv label_edits)

subsection \<open>Counters\<close>

fun state_count :: "torrent_state \<Rightarrow> registry_stats \<Rightarrow> u64" where
  "state_count TsStopped s = torrents_stopped s"
| "state_count TsMetadataPending s = torrents_metadata_pending s"
| "state_count TsChecking s = torrents_checking s"
| "state_count TsSeeding s = torrents_seeding s"
| "state_count TsDownloading s = torrents_downloading s"
| "state_count TsPaused s = torrents_paused s"
| "state_count TsQueued s = torrents_queued s"
| "state_count TsError s = torrents_error s"

text \<open>The four byte counters, as pairs of what the registry keeps and what a record contributes.\<close>

definition byte_counters :: "((registry_stats \<Rightarrow> u64) \<times> (entry_contribution \<Rightarrow> u64)) set" where
  "byte_counters = {(bytes_uploaded, ec_uploaded), (bytes_downloaded, ec_downloaded), (bytes_total, ec_total_length), (bytes_left, ec_amount_left)}"

definition count_exact :: "registry_stats \<Rightarrow> session_registry \<Rightarrow> bool" where
  "count_exact s r \<longleftrightarrow> unat (torrents_total s) = total_of (\<lambda>_. 1) r \<and>
     (\<forall>st. unat (state_count st s) = total_of (\<lambda>rec. if ec_state (record_contribution rec) = st then 1 else 0) r)"

definition bytes_exact :: "registry_stats \<Rightarrow> session_registry \<Rightarrow> bool" where
  "bytes_exact s r \<longleftrightarrow> (\<forall>(sel, con) \<in> byte_counters. unat (sel s) = total_of (\<lambda>rec. unat (con (record_contribution rec))) r)"

definition totals_fit :: "session_registry \<Rightarrow> bool" where
  "totals_fit r \<longleftrightarrow> total_of (\<lambda>_. 1) r < 2 ^ 64 \<and>
     (\<forall>(sel, con) \<in> byte_counters. total_of (\<lambda>rec. unat (con (record_contribution rec))) r < 2 ^ 64)"

lemma state_count_add_state [simp]:
  "state_count st (add_state st' up s) = (if st = st' then step_counter up (state_count st s) else state_count st s)"
  by (cases st'; cases st; simp)

lemma add_state_frame [simp]:
  "torrents_total (add_state st up s) = torrents_total s" "bytes_uploaded (add_state st up s) = bytes_uploaded s"
  "bytes_downloaded (add_state st up s) = bytes_downloaded s" "bytes_total (add_state st up s) = bytes_total s"
  "bytes_left (add_state st up s) = bytes_left s"
  by (cases st; simp)+

lemma state_count_frame [simp]:
  "state_count st (s\<lparr>torrents_total := a\<rparr>) = state_count st s" "state_count st (s\<lparr>bytes_uploaded := a\<rparr>) = state_count st s"
  "state_count st (s\<lparr>bytes_downloaded := a\<rparr>) = state_count st s" "state_count st (s\<lparr>bytes_total := a\<rparr>) = state_count st s"
  "state_count st (s\<lparr>bytes_left := a\<rparr>) = state_count st s"
  by (cases st; simp)+

lemma unat_step_counter:
  "unat c + 1 < 2 ^ 64 \<Longrightarrow> unat (step_counter True c) = unat c + 1" "unat (step_counter False c) = unat c - 1"
  by (simp_all add: step_counter_def unat_saturating_add unat_saturating_sub)

lemma unat_u64_add: "unat a + unat b < 2 ^ 64 \<Longrightarrow> unat (saturating_add a (b :: u64)) = unat a + unat b"
  by (simp add: unat_saturating_add)

lemma unat_adjust_counter:
  assumes "unat c = t + unat before" "t + unat after < 2 ^ 64"
  shows "unat (adjust_counter c before after) = t + unat after"
proof (cases "before \<le> after")
  case True
  then have "unat before \<le> unat after" by (simp add: word_le_nat_alt)
  then show ?thesis using assms True by (simp add: adjust_counter_def unat_saturating_add unat_sub_le)
next
  case False
  then have "unat after < unat before" "after \<le> before" by (auto simp: word_le_nat_alt)
  then show ?thesis using assms False by (simp add: adjust_counter_def unat_saturating_sub unat_sub_le)
qed

lemma total_of_le: "(\<And>rec. f rec \<le> g rec) \<Longrightarrow> total_of f r \<le> total_of g r"
  unfolding total_of_def by (rule sum_mono)

lemma state_total_le: "total_of (\<lambda>rec. if P rec then 1 else 0) r \<le> total_of (\<lambda>_. 1) r"
  by (rule total_of_le) simp

lemma add_contribution_exact:
  assumes t: "\<And>f. total_of f r' = total_of f r + f rec" and ex: "count_exact s r" "bytes_exact s r" and fit: "totals_fit r'"
  shows "count_exact (add_contribution (record_contribution rec) s) r' \<and> bytes_exact (add_contribution (record_contribution rec) s) r'"
proof
  let ?s = "add_contribution (record_contribution rec) s"
  have n: "total_of (\<lambda>_. 1) r + 1 < 2 ^ 64" using fit t [of "\<lambda>_. 1"] by (simp add: totals_fit_def)
  have "unat (torrents_total ?s) = total_of (\<lambda>_. 1) r'"
    using ex(1) n by (simp add: add_contribution_def Let_def count_exact_def unat_u64_add t)
  moreover have "unat (state_count st ?s) = total_of (\<lambda>rec. if ec_state (record_contribution rec) = st then 1 else 0) r'" for st
  proof -
    have "unat (state_count st s) + 1 < 2 ^ 64"
      using ex(1) n state_total_le [of "\<lambda>rec. ec_state (record_contribution rec) = st" r] by (simp add: count_exact_def)
    then show ?thesis using ex(1) unat_step_counter(1) [of "state_count st s"]
      by (simp add: add_contribution_def Let_def count_exact_def t)
  qed
  ultimately show "count_exact ?s r'" by (simp add: count_exact_def)
  show "bytes_exact ?s r'"
    using ex(2) fit by (simp add: bytes_exact_def totals_fit_def byte_counters_def add_contribution_def Let_def t unat_u64_add)
qed

lemma remove_contribution_exact:
  assumes t: "\<And>f. total_of f r = total_of f r' + f rec" and ex: "count_exact s r" "bytes_exact s r"
  shows "count_exact (remove_contribution (record_contribution rec) s) r' \<and> bytes_exact (remove_contribution (record_contribution rec) s) r'"
  using ex unat_step_counter(2)
  by (simp add: bytes_exact_def count_exact_def byte_counters_def remove_contribution_def Let_def t unat_saturating_sub)

lemma apply_delta_exact:
  assumes rest: "\<And>f. \<exists>c. total_of f r = c + f rec \<and> total_of f r' = c + f rec'"
    and ex: "count_exact s r" "bytes_exact s r" and fit: "totals_fit r'"
  shows "count_exact (apply_delta (record_contribution rec) (record_contribution rec') s) r' \<and>
    bytes_exact (apply_delta (record_contribution rec) (record_contribution rec') s) r'"
proof
  let ?b = "record_contribution rec" and ?a = "record_contribution rec'"
  let ?s = "apply_delta ?b ?a s"
  let ?i = "\<lambda>st rec. if ec_state (record_contribution rec) = st then 1 else 0 :: nat"
  have t: "total_of f r' + f rec = total_of f r + f rec'" for f using rest [of f] by auto
  have n: "total_of (\<lambda>_. 1) r' = total_of (\<lambda>_. 1) r" "total_of (\<lambda>_. 1) r' < 2 ^ 64" using t [of "\<lambda>_. 1"] fit by (simp_all add: totals_fit_def)
  have "unat (state_count st ?s) = total_of (?i st) r'" for st
  proof -
    have st: "unat (state_count st s) = total_of (?i st) r" using ex(1) by (simp add: count_exact_def)
    have le: "total_of (?i st) r' \<le> total_of (\<lambda>_. 1) r'" by (rule state_total_le)
    consider "ec_state ?b = ec_state ?a" | "ec_state ?b \<noteq> ec_state ?a" "st = ec_state ?b" | "ec_state ?b \<noteq> ec_state ?a" "st = ec_state ?a"
      | "ec_state ?b \<noteq> ec_state ?a" "st \<noteq> ec_state ?a" "st \<noteq> ec_state ?b" by blast
    then show ?thesis
      using t [of "?i st"] st le n(2) unat_step_counter(1) [of "state_count st s"] unat_step_counter(2) [of "state_count st s"]
      by cases (simp_all add: apply_delta_def Let_def)
  qed
  moreover have "unat (torrents_total ?s) = total_of (\<lambda>_. 1) r'" using ex(1) n(1) by (simp add: count_exact_def apply_delta_def Let_def)
  ultimately show "count_exact ?s r'" by (simp add: count_exact_def)
  have one: "unat (adjust_counter (sel s) (con ?b) (con ?a)) = total_of (\<lambda>rec. unat (con (record_contribution rec))) r'"
    if "(sel, con) \<in> byte_counters" for sel con
  proof -
    let ?f = "\<lambda>rec. unat (con (record_contribution rec))"
    obtain c where c: "total_of ?f r = c + unat (con ?b)" "total_of ?f r' = c + unat (con ?a)" using rest [of ?f] by blast
    have "unat (sel s) = total_of ?f r" "total_of ?f r' < 2 ^ 64" using that ex(2) fit by (auto simp: bytes_exact_def totals_fit_def)
    then show ?thesis using c by (simp add: unat_adjust_counter [of _ c])
  qed
  then show "bytes_exact ?s r'" by (simp add: bytes_exact_def byte_counters_def apply_delta_def Let_def)
qed

definition stats_exact :: "session_registry \<Rightarrow> bool" where
  "stats_exact r \<longleftrightarrow> count_exact (reg_stats r) r \<and> bytes_exact (reg_stats r) r"

lemma stats_exact_same:
  assumes "stats_exact r" "reg_stats r' = reg_stats r" "\<And>f. total_of (f \<circ> record_contribution) r' = total_of (f \<circ> record_contribution) r"
  shows "stats_exact r'"
proof -
  have "total_of (\<lambda>_. 1) r' = total_of (\<lambda>_. 1) r" using assms(3) [of "\<lambda>_. 1"] by (simp add: comp_def)
  moreover have "total_of (\<lambda>rec. if ec_state (record_contribution rec) = st then 1 else 0) r'
      = total_of (\<lambda>rec. if ec_state (record_contribution rec) = st then 1 else 0) r" for st
    using assms(3) [of "\<lambda>c. if ec_state c = st then 1 else 0"] by (simp add: comp_def)
  moreover have "total_of (\<lambda>rec. unat (con (record_contribution rec))) r' = total_of (\<lambda>rec. unat (con (record_contribution rec))) r"
    for con :: "entry_contribution \<Rightarrow> u64" using assms(3) [of "\<lambda>c. unat (con c)"] by (simp add: comp_def)
  ultimately show ?thesis using assms(1,2) by (simp add: stats_exact_def count_exact_def bytes_exact_def)
qed

lemma stats_exact_replaced:
  assumes "stats_exact r" "reg_stats r' = reg_stats r" "replaced g r r'"
    "\<And>k rec. stored r k = Some rec \<Longrightarrow> record_contribution (g k rec) = record_contribution rec"
  shows "stats_exact r'"
  using assms by (intro stats_exact_same [of r r']) (auto intro!: total_same)

lemma contribution_into_dormant: "record_contribution (Dormant (into_dormant e)) = record_contribution (Active e)"
  by (simp add: dormant_contribution_def into_dormant_def contribution_from_entry_def)

lemma registry_update_stats:
  assumes inv: "registry_inv r" and ex: "stats_exact r" and u: "registry_update h f r = Some r'" and fit: "totals_fit r'"
  shows "stats_exact r'"
proof -
  have ix: "index_inv r" using inv by (simp add: registry_inv_def)
  from u obtain g e r1 where g: "get_mut h r = Some (g, e, r1)"
    and r': "r' = (case f of None \<Rightarrow> r1 | Some m \<Rightarrow> guard_drop g (m e) r1)"
    by (auto simp: registry_update_def split: option.splits)
  from get_mut_replaced [OF ix g] obtain rec where rec: "stored r (guard_handle g) = Some rec" "e = record_to_entry rec"
      "record_info_hash rec = guard_info_hash g" "stored r1 (guard_handle g) = Some (Active e)" "guard_before g = contribution_from_entry e"
    and rep: "replaced (\<lambda>k x. if k = guard_handle g then Active e else x) r r1" and st: "reg_stats r1 = reg_stats r"
    by metis
  have ex1: "stats_exact r1"
    by (rule stats_exact_replaced [OF ex st rep]) (use rec in \<open>auto simp: contribution_to_entry\<close>)
  show ?thesis
  proof (cases f)
    case None
    then show ?thesis using r' ex1 by simp
  next
    case (Some m)
    have "te_info_hash e = guard_info_hash g" using rec(2,3) by (cases rec) simp_all
    moreover have gd: "guard_drop g (m e) r1 = r'" using r' Some by simp
    ultimately obtain e' where rep2: "replaced (\<lambda>k x. if k = guard_handle g then Active e' else x) r1 r'"
      and s: "reg_stats r' = apply_delta (guard_before g) (contribution_from_entry e') (reg_stats r1)"
      using guard_drop_replaced [OF rec(4), of "m e", unfolded gd] by blast
    have s2: "reg_stats r' = apply_delta (record_contribution (Active e)) (record_contribution (Active e')) (reg_stats r1)"
      by (simp add: s rec(5))
    show ?thesis
      using apply_delta_exact [of r1 "Active e" r' "Active e'" "reg_stats r1", OF total_replaced_rest [OF rep2 rec(4)]] ex1 fit s2
      by (simp add: stats_exact_def)
  qed
qed

lemma edit_records_stats:
  assumes "stats_exact r" "label_edit edit" "edit_records edit r = (n, r')"
  shows "stats_exact r'"
proof (rule edit_records_replaced [OF assms(2,3)])
  assume "replaced (\<lambda>k. edited edit) r r'" "reg_stats r' = reg_stats r"
  then show ?thesis using assms(1) label_edit_edited [OF assms(2)] by (intro stats_exact_replaced [of r r'])
qed

lemma add_record_stats:
  assumes "stats_exact r" "add_record rec0 r = Inr (hd', r')" "record_handle rec0 \<notin> fst ` set (entries r)" "totals_fit r'"
  shows "stats_exact r'"
proof (rule add_record_inserted [OF assms(2)])
  fix rec
  assume ins: "inserted hd' rec r r'" and hd': "hd' = record_handle rec0"
    and s: "reg_stats r' = add_contribution (record_contribution rec) (reg_stats r)"
  have fresh: "hd' \<notin> fst ` set (entries r)" using assms(3) hd' by simp
  show ?thesis using add_contribution_exact [OF total_inserted [OF ins fresh], of "reg_stats r"] assms(1,4) s by (simp add: stats_exact_def)
qed

lemma registry_remove_stats:
  assumes "registry_inv r" "stats_exact r" "registry_remove h r = Some (Inr (e, r'))"
  shows "stats_exact r'"
proof -
  have inv: "index_inv r" using assms(1) by (simp add: registry_inv_def)
  show ?thesis
  proof (rule registry_remove_deleted [OF inv assms(3)])
    fix hd' rec r0
    assume del: "deleted hd' rec r r'" and s: "reg_stats r' = remove_contribution (record_contribution rec) (reg_stats r)"
    show ?thesis using remove_contribution_exact [OF total_deleted [OF del], of "reg_stats r"] assms(2) s by (simp add: stats_exact_def)
  qed
qed

lemma registry_demote_stats:
  assumes "registry_inv r" "stats_exact r" "registry_demote h r = Some (Inr (b, r'))"
  shows "stats_exact r'"
proof -
  have inv: "index_inv r" using assms(1) by (simp add: registry_inv_def)
  show ?thesis
  proof (rule registry_demote_replaced [OF inv assms(3)])
    fix hd' rec rec'
    assume rec: "stored r hd' = Some rec" "rec' = rec \<or> (\<exists>e. rec = Active e \<and> rec' = Dormant (into_dormant e))"
      and rep: "replaced (\<lambda>k x. if k = hd' then rec' else x) r r'" and s: "reg_stats r' = reg_stats r"
    have "record_contribution rec' = record_contribution rec" using rec(2) contribution_into_dormant by auto
    then show ?thesis by (intro stats_exact_replaced [OF assms(2) s rep]) (use rec in auto)
  qed
qed

lemma registry_step_stats:
  assumes "registry_step r r'" "registry_inv r" "stats_exact r" "totals_fit r'"
  shows "stats_exact r'"
  using assms
proof (induction rule: registry_step.induct)
  case (step_add e r hd' r')
  then show ?case using add_record_stats [of r "Active e"] by (simp add: registry_add_def)
next
  case (step_add_dormant d r hd' r')
  then show ?case using add_record_stats [of r "Dormant d"] by (simp add: add_dormant_def)
next
  case (step_rename old new r n r')
  then show ?case using edit_records_stats [OF _ label_edits(1)] by (auto simp: rename_category_def split: if_splits)
next
  case (step_snapshot r s r')
  then have c: "same_content r r'" by (simp add: registry_snapshot_content)
  show ?case by (rule stats_exact_same [OF step_snapshot(3)]) (use c in \<open>simp_all add: same_content_def total_of_def\<close>)
next
  case (step_ban ps r n r')
  then have "entries r' = entries r" "reg_stats r' = reg_stats r" by (auto simp: ban_peers_def Let_def)
  then show ?case by (intro stats_exact_same [OF step_ban(3)]) (simp_all add: total_of_def)
qed (auto simp: clear_categories_def clear_tags_def
    intro: registry_remove_stats registry_demote_stats registry_update_stats edit_records_stats label_edits)

end
