(* ===== verification/Session_Laws.thy ===== *)
theory Session_Laws
  imports Session_Counters
begin

text \<open>
  What readers of the session registry rely on: a snapshot shows the entries as they are, whatever parts
  of it come from the caches, and the change log tells a reader everything that changed since the
  snapshot it holds. One flag is excepted, the hold on a finishing download, which a demotion clears
  without recording a change; on the paths without such a demotion both are exact.
\<close>

subsection \<open>The view of a reader\<close>

text \<open>
  What a reader compares: with \<open>x\<close> the entry itself, without it the entry but for the hold on a finishing
  download. The second comparison holds on every path. The first one holds on the paths that keep the
  holds, that is, on which no torrent is demoted while it has one: a demotion drops the hold and records
  no change.
\<close>

definition shown :: "bool \<Rightarrow> torrent_entry \<Rightarrow> torrent_entry" where
  "shown x e = (if x then e else forget_hold e)"

lemma shown_simps [simp]:
  "te_info_hash (shown x e) = te_info_hash e" "shown x (shown x e) = shown x e"
  "shown x (dormant_to_entry d) = dormant_to_entry d"
  by (simp_all add: shown_def)

lemma shown_exact: "shown True = (\<lambda>e. e)" "shown False = forget_hold"
  by (simp_all add: shown_def fun_eq_iff)

definition keeps_holds :: "session_registry \<Rightarrow> session_registry \<Rightarrow> bool" where
  "keeps_holds r r' \<longleftrightarrow> (\<forall>k e d. stored r k = Some (Active e) \<longrightarrow> te_finalizing e \<longrightarrow> stored r' k \<noteq> Some (Dormant d))"

inductive hold_path :: "session_registry \<Rightarrow> session_registry \<Rightarrow> bool" where
  hold_refl: "hold_path r r"
| hold_step: "hold_path r r' \<Longrightarrow> registry_step r' r'' \<Longrightarrow> revision_room r' \<Longrightarrow> keeps_holds r' r'' \<Longrightarrow> hold_path r r''"

inductive path_of :: "bool \<Rightarrow> session_registry \<Rightarrow> session_registry \<Rightarrow> bool" for x where
  of_refl: "path_of x r r"
| of_step: "path_of x r r' \<Longrightarrow> registry_step r' r'' \<Longrightarrow> revision_room r' \<Longrightarrow> (x \<Longrightarrow> keeps_holds r' r'') \<Longrightarrow> path_of x r r''"

lemma path_of_registry_path: "registry_path r r' \<Longrightarrow> path_of False r r'"
  by (induction rule: registry_path.induct) (auto intro: path_of.intros)

lemma path_of_hold_path: "hold_path r r' \<Longrightarrow> path_of True r r'"
  by (induction rule: hold_path.induct) (auto intro: path_of.intros)

definition view :: "bool \<Rightarrow> session_registry \<Rightarrow> bytes \<Rightarrow> torrent_entry option" where
  "view x r h = map_option (shown x \<circ> record_to_entry) (Option.bind (by_hash r h) (stored r))"

lemma view_get: "view x r (canonical_info_hash h) = map_option (shown x) (registry_get h r)"
  by (simp add: view_def registry_get_def option.map_comp split: option.split)

lemma view_stored:
  assumes "index_inv r"
  shows "view x r h = Some e \<longleftrightarrow> (\<exists>k rec. stored r k = Some rec \<and> record_info_hash rec = h \<and> e = shown x (record_to_entry rec))"
proof
  assume "view x r h = Some e"
  then obtain k rec where k: "by_hash r h = Some k" "stored r k = Some rec" "e = shown x (record_to_entry rec)"
    by (auto simp: view_def bind_eq_Some_conv)
  then have "record_info_hash rec = h" using by_hash_hashes [OF assms, of h k] by (simp add: hashes_def)
  with k show "\<exists>k rec. stored r k = Some rec \<and> record_info_hash rec = h \<and> e = shown x (record_to_entry rec)" by blast
next
  assume "\<exists>k rec. stored r k = Some rec \<and> record_info_hash rec = h \<and> e = shown x (record_to_entry rec)"
  then obtain k rec where k: "stored r k = Some rec" "record_info_hash rec = h" "e = shown x (record_to_entry rec)" by blast
  then have "by_hash r h = Some k" using by_hash_hashes [OF assms, of h k] by (simp add: hashes_def)
  with k show "view x r h = Some e" by (simp add: view_def)
qed

lemma record_to_entry_hash [simp]: "te_info_hash (record_to_entry rec) = record_info_hash rec"
  by (cases rec) simp_all

lemma view_hash: "index_inv r \<Longrightarrow> view x r h = Some e \<Longrightarrow> te_info_hash e = h"
  by (auto simp: view_stored)

lemma view_None: "index_inv r \<Longrightarrow> view x r h = None \<longleftrightarrow> (\<forall>k. hashes r k \<noteq> Some h)"
proof -
  assume inv: "index_inv r"
  have "view x r h = None \<longleftrightarrow> (\<nexists>e. view x r h = Some e)" by simp
  also have "\<dots> \<longleftrightarrow> (\<forall>k. hashes r k \<noteq> Some h)" by (auto simp: view_stored [OF inv] hashes_def)
  finally show ?thesis .
qed

lemma view_inserted:
  assumes inv: "index_inv r" "index_inv r'" and ins: "inserted hd' rec r r'" and fresh: "hd' \<notin> fst ` set (entries r)"
  shows "view x r' h = (if h = record_info_hash rec then Some (shown x (record_to_entry rec)) else view x r h)"
proof -
  have s: "stored r' = (stored r)(hd' \<mapsto> rec)" "by_hash r' = (by_hash r)(record_info_hash rec \<mapsto> hd')"
    using ins by (simp_all add: inserted_def update_conv' Let_def)
  have "stored r hd' = None" using fresh by (simp add: map_of_eq_None_iff)
  then have "by_hash r h \<noteq> Some hd'" using by_hash_hashes [OF inv(1), of h hd'] by (simp add: hashes_def)
  then show ?thesis by (cases "by_hash r h") (auto simp: view_def s)
qed

lemma view_deleted:
  assumes inv: "index_inv r" and del: "deleted hd' rec r r'"
  shows "view x r' h = (if h = record_info_hash rec then None else view x r h)"
proof -
  have s: "stored r' = (stored r)(hd' := None)" "by_hash r' = (by_hash r)(record_info_hash rec := None)" "stored r hd' = Some rec"
    using del by (simp_all add: deleted_def delete_conv' Let_def)
  have "h \<noteq> record_info_hash rec \<Longrightarrow> by_hash r h \<noteq> Some hd'" using by_hash_hashes [OF inv, of h hd'] s(3) by (simp add: hashes_def)
  then show ?thesis by (cases "by_hash r h") (auto simp: view_def s)
qed

lemma view_replaced:
  assumes inv: "index_inv r" and rep: "replaced g r r'"
    and same: "\<And>k rec. stored r k = Some rec \<Longrightarrow> record_info_hash rec = h \<Longrightarrow>
      shown x (record_to_entry (g k rec)) = shown x (record_to_entry rec)"
  shows "view x r' h = view x r h"
proof -
  have s: "stored r' k = map_option (g k) (stored r k)" "by_hash r' = by_hash r" for k using rep by (simp_all add: replaced_def)
  show ?thesis
  proof (cases "by_hash r h")
    case (Some k)
    from by_hash_stored [OF inv Some] obtain rec where "stored r k = Some rec" "record_info_hash rec = h" by blast
    with same [of k rec] Some show ?thesis by (simp add: view_def s)
  qed (simp add: view_def s)
qed

lemma view_present: "index_inv r \<Longrightarrow> replaced g r r' \<Longrightarrow> (view x r' h = None) = (view x r h = None)"
  using hashes_replaced [of g r r'] index_inv_replaced [of r g r'] by (simp add: view_None)

lemma view_same_content: "same_content r r' \<Longrightarrow> view x r' = view x r"
  by (simp add: same_content_def view_def fun_eq_iff)

subsection \<open>The log\<close>

fun numbered :: "u64 \<Rightarrow> (bytes \<times> bool) list \<Rightarrow> registry_change list" where
  "numbered v [] = []"
| "numbered v ((h, b) # hs) = \<lparr>rc_revision = v + 1, rc_info_hash = h, rc_removed = b\<rparr> # numbered (v + 1) hs"

lemma numbered_append: "numbered v (hs @ hs') = numbered v hs @ numbered (v + of_nat (length hs)) hs'"
  by (induction v hs rule: numbered.induct) (simp_all add: algebra_simps)

lemma length_numbered [simp]: "length (numbered v hs) = length hs"
  by (induction v hs rule: numbered.induct) simp_all

text \<open>\<open>logged r hs r'\<close>: from \<open>r\<close> to \<open>r'\<close> the changes \<open>hs\<close> were recorded, in this order.\<close>

definition logged :: "session_registry \<Rightarrow> (bytes \<times> bool) list \<Rightarrow> session_registry \<Rightarrow> bool" where
  "logged r hs r' \<longleftrightarrow>
     revision r' = revision r + of_nat (length hs) \<and>
     changes r' = (if hs = [] then changes r else trim_log (changes r @ numbered (revision r) hs)) \<and>
     length (shard_revisions r') = length (shard_revisions r) \<and>
     (\<forall>s < length (shard_revisions r). shard_revisions r' ! s
        = shard_revisions r ! s + of_nat (length (filter (\<lambda>(h, _). snapshot_shard h = s) hs))) \<and>
     shard_snapshot_cache r' = shard_snapshot_cache r \<and> whole_cache r' = (if hs = [] then whole_cache r else None)"

lemma logged_same: "same_log r r' \<Longrightarrow> logged r [] r'"
  by (simp add: same_log_def logged_def)

lemma logged_bump: "logged r [(h, b)] (bump_revision h b r)"
  by (auto simp: logged_def bump_revision_def Let_def nth_list_update)

lemma logged_trans:
  assumes "logged r hs r'" "logged r' hs' r''"
  shows "logged r (hs @ hs') r''"
proof -
  note a = assms [unfolded logged_def]
  have "revision r'' = revision r + of_nat (length (hs @ hs'))" using a by (simp add: add.assoc)
  moreover have "changes r'' = (if hs @ hs' = [] then changes r else trim_log (changes r @ numbered (revision r) (hs @ hs')))"
    using a by (cases "hs = []"; cases "hs' = []") (simp_all add: numbered_append)
  moreover have "shard_revisions r'' ! s = shard_revisions r ! s + of_nat (length (filter (\<lambda>(h, _). snapshot_shard h = s) (hs @ hs')))"
    if "s < length (shard_revisions r)" for s
    using a that by (simp add: add.assoc)
  moreover have "whole_cache r'' = (if hs @ hs' = [] then whole_cache r else None)"
    using a by (cases "hs = []"; cases "hs' = []") simp_all
  moreover have "length (shard_revisions r'') = length (shard_revisions r)" "shard_snapshot_cache r'' = shard_snapshot_cache r"
    using a by simp_all
  ultimately show ?thesis unfolding logged_def by blast
qed

lemma logged_fold: "logged r (map (\<lambda>h. (h, b)) hs) (fold (\<lambda>h. bump_revision h b) hs r)"
proof (induction hs arbitrary: r)
  case (Cons h hs)
  show ?case using logged_trans [OF logged_bump [of r h b] Cons.IH] by simp
qed (simp add: logged_def)

text \<open>
  \<open>delta_of r hs r'\<close>: a reader who knows the view in \<open>r\<close> and is told the changes \<open>hs\<close> knows which torrents
  are as they were, and of the others whether they are still there.
\<close>

definition delta_of :: "bool \<Rightarrow> session_registry \<Rightarrow> (bytes \<times> bool) list \<Rightarrow> session_registry \<Rightarrow> bool" where
  "delta_of x r hs r' \<longleftrightarrow> (\<forall>h. case map_of (rev hs) h of None \<Rightarrow> view x r' h = view x r h | Some gone \<Rightarrow> gone = (view x r' h = None))"

lemma delta_trans:
  assumes "delta_of x r hs r'" "delta_of x r' hs' r''"
  shows "delta_of x r (hs @ hs') r''"
  unfolding delta_of_def
proof
  fix h
  note a = assms [unfolded delta_of_def, THEN spec, of h]
  show "case map_of (rev (hs @ hs')) h of None \<Rightarrow> view x r'' h = view x r h | Some gone \<Rightarrow> gone = (view x r'' h = None)"
    using a by (cases "map_of (rev hs') h"; cases "map_of (rev hs) h") (simp_all add: map_add_def)
qed

lemma logged_bump_of: "same_log r r0 \<Longrightarrow> logged r [(h, b)] (bump_revision h b r0)"
  using logged_trans [OF logged_same logged_bump, of r r0 h b] by simp

lemma registry_update_effect:
  assumes inv: "index_inv r" and u: "registry_update h f r = Some r'"
  shows "\<exists>hs. logged r hs r' \<and> delta_of x r hs r' \<and> length hs \<le> 1"
proof -
  from u obtain g e r1 where g: "get_mut h r = Some (g, e, r1)"
    and r': "r' = (case f of None \<Rightarrow> r1 | Some m \<Rightarrow> guard_drop g (m e) r1)"
    by (auto simp: registry_update_def split: option.splits)
  from get_mut_replaced [OF inv g] obtain rec where rec: "stored r (guard_handle g) = Some rec" "e = record_to_entry rec"
      "record_info_hash rec = guard_info_hash g" "stored r1 (guard_handle g) = Some (Active e)"
    and rep: "replaced (\<lambda>k x. if k = guard_handle g then Active e else x) r r1" and log: "same_log r r1"
    by metis
  have inv1: "index_inv r1" using inv rep by (rule index_inv_replaced)
  have v1: "view x r1 h' = view x r h'" for h' by (rule view_replaced [OF inv rep]) (use rec in auto)
  show ?thesis
  proof (cases f)
    case None
    then show ?thesis using r' logged_same [OF log] v1 by (intro exI [of _ "[]"]) (simp add: delta_of_def)
  next
    case (Some m)
    have gh: "te_info_hash e = guard_info_hash g" using rec(2,3) by simp
    have gd: "guard_drop g (m e) r1 = r'" using r' Some by simp
    obtain e' r0 where e': "te_info_hash e' = guard_info_hash g" and rep2: "replaced (\<lambda>k x. if k = guard_handle g then Active e' else x) r1 r'"
      and b: "r' = bump_revision (guard_info_hash g) False r0" "same_log r1 r0"
      using guard_drop_replaced [OF rec(4) gh, of "m e", unfolded gd] by blast
    have "logged r [(guard_info_hash g, False)] r'"
      using logged_trans [OF logged_same [OF log] logged_bump_of [OF b(2)]] b(1) by simp
    moreover have "view x r' h' = view x r h'" if "h' \<noteq> guard_info_hash g" for h'
    proof -
      have "view x r' h' = view x r1 h'" by (rule view_replaced [OF inv1 rep2]) (use that rec(4) gh in auto)
      then show ?thesis by (simp add: v1)
    qed
    moreover have "view x r' (guard_info_hash g) \<noteq> None"
    proof -
      have "hashes r1 (guard_handle g) = Some (guard_info_hash g)" using rec(4) gh by (simp add: hashes_def)
      then show ?thesis using view_present [OF inv1 rep2, of x "guard_info_hash g"] view_None [OF inv1, of x "guard_info_hash g"] by blast
    qed
    ultimately show ?thesis by (intro exI [of _ "[(guard_info_hash g, False)]"]) (simp add: delta_of_def)
  qed
qed

lemma map_of_const_pairs: "map_of (map (\<lambda>h. (h, c)) hs) h = (if h \<in> set hs then Some c else None)"
  by (induction hs) auto

lemma edit_records_effect:
  assumes inv: "index_inv r" and ed: "label_edit edit" "edit_records edit r = (n, r')"
  shows "\<exists>hs. logged r hs r' \<and> delta_of x r hs r' \<and> length hs \<le> length (entries r)"
proof (rule edit_records_replaced [OF ed])
  let ?hs = "map record_info_hash (List.map_filter (edit \<circ> snd) (entries r))"
  let ?l = "map (\<lambda>h. (h, False)) ?hs"
  fix r1
  assume rep: "replaced (\<lambda>k. edited edit) r r'" and log: "same_log r r1" and r': "r' = fold (\<lambda>h. bump_revision h False) ?hs r1"
  have "logged r ([] @ ?l) r'" unfolding r' by (rule logged_trans [OF logged_same [OF log] logged_fold])
  then have "logged r ?l r'" by (simp only: append_Nil)
  moreover have "delta_of x r ?l r'"
  proof -
    have hit: "h \<in> set ?hs" if "stored r k = Some rec" "record_info_hash rec = h" "edit rec \<noteq> None" for k rec h
    proof -
      from that(3) obtain rec' where rec': "edit rec = Some rec'" by blast
      then have "record_info_hash rec' = h" using ed(1) that(2) by (simp add: label_edit_def)
      moreover have "(k, rec) \<in> set (entries r)" using that(1) by (rule map_of_SomeD)
      ultimately show ?thesis using rec' by (force simp: List.map_filter_def)
    qed
    have out: "view x r' h = view x r h" if "h \<notin> set ?hs" for h
      by (rule view_replaced [OF inv rep]) (use that hit in \<open>fastforce simp: edited_def split: option.split\<close>)
    have "view x r' h \<noteq> None" if "h \<in> set ?hs" for h
    proof -
      from that obtain k rec rec' where "(k, rec) \<in> set (entries r)" "edit rec = Some rec'" "record_info_hash rec' = h"
        by (auto simp: List.map_filter_def)
      then have "hashes r k = Some h" using inv ed(1) by (auto simp: hashes_def index_inv_def label_edit_def)
      then show ?thesis using view_present [OF inv rep, of x h] view_None [OF inv, of x h] by auto
    qed
    moreover have "map_of (rev ?l) h = (if h \<in> set ?hs then Some False else None)" for h
      by (simp only: rev_map map_of_const_pairs set_rev set_map)
    ultimately show ?thesis unfolding delta_of_def using out by simp
  qed
  moreover have "length ?l \<le> length (entries r)" by (simp add: List.map_filter_def)
  ultimately show ?thesis by blast
qed

lemma registry_step_effect:
  assumes "registry_step r r'" "registry_inv r" and holds: "x \<Longrightarrow> keeps_holds r r'"
  shows "(\<exists>hs. logged r hs r' \<and> delta_of x r hs r' \<and> length hs \<le> length (entries r) + 1) \<or> (\<exists>s. registry_snapshot r = (s, r'))"
proof -
  have inv: "index_inv r" using assms(2) by (simp add: registry_inv_def)
  have add: "\<exists>hs. logged r hs r' \<and> delta_of x r hs r' \<and> length hs \<le> length (entries r) + 1"
    if a: "add_record rec0 r = Inr (hd', r')" and fresh0: "record_handle rec0 \<notin> fst ` set (entries r)" for rec0 hd'
  proof (rule add_record_inserted [OF a])
    fix rec
    assume ins: "inserted hd' rec r r'" and hd': "hd' = record_handle rec0" and
      b: "\<exists>r0. r' = bump_revision (record_info_hash rec) False r0 \<and> revision r0 = revision r \<and> changes r0 = changes r \<and>
        shard_revisions r0 = shard_revisions r \<and> whole_cache r0 = whole_cache r \<and> shard_snapshot_cache r0 = shard_snapshot_cache r"
    have fresh: "hd' \<notin> fst ` set (entries r)" using fresh0 hd' by simp
    have "index_inv r'" using add_record_inv [OF assms(2) a fresh0] by (simp add: registry_inv_def)
    from view_inserted [OF inv this ins fresh] have "delta_of x r [(record_info_hash rec, False)] r'" by (simp add: delta_of_def)
    moreover have "logged r [(record_info_hash rec, False)] r'" using b logged_bump_of [of r] by (auto simp: same_log_def)
    ultimately show ?thesis by (intro exI [of _ "[(record_info_hash rec, False)]"]) simp
  qed
  show ?thesis using assms(1)
  proof (cases rule: registry_step.cases)
    case (step_add e hd')
    then show ?thesis using add [of "Active e"] by (simp add: registry_add_def)
  next
    case (step_add_dormant d hd')
    then show ?thesis using add [of "Dormant d"] by (simp add: add_dormant_def)
  next
    case (step_remove h e)
    then obtain hd' rec r0 where del: "deleted hd' rec r r'" and b: "r' = bump_revision (record_info_hash rec) True r0" "same_log r r0"
      using registry_remove_deleted [OF inv] by metis
    have "delta_of x r [(record_info_hash rec, True)] r'" using view_deleted [OF inv del] by (simp add: delta_of_def)
    then show ?thesis using logged_bump_of [OF b(2)] b(1) by (intro disjI1 exI [of _ "[(record_info_hash rec, True)]"]) simp
  next
    case (step_demote h b)
    then obtain hd' rec rec' where rec: "stored r hd' = Some rec" "rec' = rec \<or> (\<exists>e. rec = Active e \<and> rec' = Dormant (into_dormant e))"
      and rep: "replaced (\<lambda>k x. if k = hd' then rec' else x) r r'" and log: "same_log r r'"
      using registry_demote_replaced [OF inv] by metis
    have "stored r' hd' = Some rec'" using rep rec(1) by (simp add: replaced_def)
    then have "x \<Longrightarrow> rec' = rec \<or> \<not> te_finalizing (record_to_entry rec)"
      using holds rec(1,2) by (auto simp: keeps_holds_def)
    then have "shown x (record_to_entry rec') = shown x (record_to_entry rec)"
      using rec(2) by (auto simp: to_entry_into_dormant shown_def forget_hold_def)
    then have "view x r' h' = view x r h'" for h' by (intro view_replaced [OF inv rep]) (use rec(1) in auto)
    then show ?thesis using logged_same [OF log] by (intro disjI1 exI [of _ "[]"]) (simp add: delta_of_def)
  next
    case (step_update h f)
    then show ?thesis using registry_update_effect [OF inv] by fastforce
  next
    case (step_rename old new n)
    show ?thesis
    proof (cases "old = new")
      case True
      then show ?thesis using step_rename by (intro disjI1 exI [of _ "[]"]) (auto simp: rename_category_def delta_of_def intro: logged_same simp: same_log_def)
    next
      case False
      then show ?thesis using step_rename edit_records_effect [OF inv label_edits(1)] by (fastforce simp: rename_category_def)
    qed
  next
    case (step_clear_categories names n)
    then show ?thesis using edit_records_effect [OF inv label_edits(1)] by (fastforce simp: clear_categories_def)
  next
    case (step_clear_tags names n)
    then show ?thesis using edit_records_effect [OF inv label_edits(2)] by (fastforce simp: clear_tags_def)
  next
    case (step_ban ps n)
    then have "same_log r r'" "view x r' = view x r" by (auto simp: ban_peers_def Let_def same_log_def view_def)
    then show ?thesis by (intro disjI1 exI [of _ "[]"]) (simp add: delta_of_def logged_same)
  qed auto
qed

subsection \<open>Reading the log\<close>

definition log_inv :: "(bytes \<times> bool) list \<Rightarrow> session_registry \<Rightarrow> bool" where
  "log_inv hist r \<longleftrightarrow> changes r = trim_log (numbered 0 hist) \<and> revision r = of_nat (length hist) \<and> length hist < 2 ^ 64"

lemma log_inv_logged:
  assumes "log_inv hist r" "logged r hs r'" "length hist + length hs < 2 ^ 64"
  shows "log_inv (hist @ hs) r'"
  using assms by (cases "hs = []") (simp_all add: log_inv_def logged_def numbered_append)

lemma unat_of_nat_u64: "n < 2 ^ 64 \<Longrightarrow> unat (of_nat n :: u64) = n"
  by (simp add: unat_of_nat)

lemma path_of_log:
  assumes "path_of x r r'" "registry_inv r" "log_inv hist r"
  shows "\<exists>hs. log_inv (hist @ hs) r' \<and> delta_of x r hs r' \<and> registry_inv r'"
  using assms
proof (induction rule: path_of.induct)
  case (of_refl r)
  then show ?case by (intro exI [of _ "[]"]) (simp add: delta_of_def)
next
  case (of_step r r' r'')
  then obtain hs where hs: "log_inv (hist @ hs) r'" "delta_of x r hs r'" "registry_inv r'" by blast
  have inv: "registry_inv r''" using of_step.hyps(2) hs(3) by (rule registry_step_inv)
  consider hs' where "logged r' hs' r''" "delta_of x r' hs' r''" "length hs' \<le> length (entries r') + 1" | s where "registry_snapshot r' = (s, r'')"
    using registry_step_effect [OF of_step.hyps(2) hs(3) of_step.hyps(4)] by blast
  then show ?case
  proof cases
    case (1 hs')
    have "length (hist @ hs) + length hs' < 2 ^ 64"
      using hs(1) of_step.hyps(3) 1(3) unat_of_nat_u64 [of "length (hist @ hs)"] by (simp add: log_inv_def revision_room_def)
    with hs(1) 1(1) have "log_inv ((hist @ hs) @ hs') r''" by (rule log_inv_logged)
    then show ?thesis using delta_trans [OF hs(2) 1(2)] inv by (intro exI [of _ "hs @ hs'"]) simp
  next
    case (2 s)
    then have c: "same_content r' r''" by (rule registry_snapshot_content)
    then have "log_inv (hist @ hs) r''" using hs(1) by (simp add: log_inv_def same_content_def)
    moreover have "delta_of x r hs r''" using hs(2) unfolding delta_of_def view_same_content [OF c] .
    ultimately show ?thesis using inv by blast
  qed
qed

lemma numbered_revision:
  "i < length hs \<Longrightarrow> rc_revision (numbered v hs ! i) = v + of_nat (Suc i)"
  by (induction v hs arbitrary: i rule: numbered.induct) (auto simp: nth_Cons split: nat.split)

lemma unat_numbered_revision:
  assumes "c \<in> set (numbered (of_nat n) hs)" "n + length hs < 2 ^ 64"
  shows "n < unat (rc_revision c) \<and> unat (rc_revision c) \<le> n + length hs"
proof -
  from assms(1) obtain i where i: "i < length hs" "c = numbered (of_nat n) hs ! i" by (auto simp: in_set_conv_nth)
  then have "rc_revision c = of_nat (n + Suc i)" by (simp add: numbered_revision)
  then have "unat (rc_revision c) = n + Suc i" using assms(2) i(1) by (simp only: unat_of_nat_u64)
  then show ?thesis using i(1) by simp
qed

lemma changes_since_exact:
  assumes "log_inv (hist @ hs) r"
  shows "changes_since (of_nat (length hist)) r =
    (if length hs > CHANGE_LOG_CAPACITY then None else Some (numbered (of_nat (length hist)) hs))"
proof (cases "hs = []")
  case True
  then show ?thesis using assms by (simp add: changes_since_def log_inv_def)
next
  case False
  let ?a = "length hist" and ?n = "length hist + length hs"
  let ?d = "?n - CHANGE_LOG_CAPACITY"
  have n: "?n < 2 ^ 64" and rv: "revision r = of_nat ?n" and ch: "changes r = drop ?d (numbered 0 hist @ numbered (of_nat ?a) hs)"
    using assms by (simp_all add: log_inv_def trim_log_drop numbered_append)
  have a: "?a < ?n" "unat (of_nat ?a :: u64) = ?a" "unat (of_nat ?n :: u64) = ?n"
    using False n by (simp_all only: unat_of_nat_u64) simp_all
  have ch': "changes r = drop ?d (numbered 0 (hist @ hs))" using ch by (simp add: numbered_append)
  have "1 \<le> length hs" using False by (cases hs) auto
  then have small: "length hist + 1 < 2 ^ 64" using n by linarith
  have late: "\<not> of_nat ?a \<ge> revision r" using a by (simp add: rv word_le_nat_alt del: of_nat_add)
  have sat: "unat (saturating_add (of_nat ?a) 1 :: u64) = ?a + 1" using unat_u64_add [of "of_nat ?a" 1] a(2) small by simp
  have first: "rc_revision (hd (changes r)) = of_nat (Suc ?d)" "changes r \<noteq> []"
  proof -
    have "?d < ?n" using False by (simp add: CHANGE_LOG_CAPACITY_def)
    then have "hd (changes r) = numbered 0 (hist @ hs) ! ?d" "changes r \<noteq> []"
      unfolding ch' by (simp_all add: hd_drop_conv_nth)
    then show "rc_revision (hd (changes r)) = of_nat (Suc ?d)" "changes r \<noteq> []"
      using \<open>?d < ?n\<close> numbered_revision [of ?d "hist @ hs" 0] by simp_all
  qed
  have "Suc ?d < 2 ^ 64" using n a(1) by (simp add: CHANGE_LOG_CAPACITY_def)
  then have cut: "(case changes r of [] \<Rightarrow> False | f # _ \<Rightarrow> saturating_add (of_nat ?a) 1 < rc_revision f) \<longleftrightarrow> ?a < ?d"
    using first sat unat_of_nat_u64 [of "Suc ?d"] by (cases "changes r") (simp_all add: word_less_nat_alt)
  show ?thesis
  proof (cases "?a < ?d")
    case True
    then show ?thesis using late cut by (simp add: changes_since_def)
  next
    case fits: False
    have "filter (\<lambda>c. rc_revision c > of_nat ?a) (drop ?d (numbered 0 hist)) = []"
    proof -
      have "\<not> rc_revision c > of_nat ?a" if "c \<in> set (drop ?d (numbered 0 hist))" for c
        using unat_numbered_revision [of c 0 hist] in_set_dropD [OF that] n a(2) by (simp add: word_less_nat_alt)
      then show ?thesis by (simp add: filter_empty_conv)
    qed
    moreover have "filter (\<lambda>c. rc_revision c > of_nat ?a) (numbered (of_nat ?a) hs) = numbered (of_nat ?a) hs"
      using unat_numbered_revision [of _ ?a hs] n a(2) by (intro filter_True) (simp add: word_less_nat_alt)
    ultimately show ?thesis using late cut fits by (simp add: changes_since_def ch)
  qed
qed

subsection \<open>Caches\<close>

definition shows_set :: "bool \<Rightarrow> torrent_entry list \<Rightarrow> torrent_entry set \<Rightarrow> bool" where
  "shows_set x es S \<longleftrightarrow> sorted (map te_info_hash es) \<and> distinct (map te_info_hash es) \<and> shown x ` set es = S"

definition shard_view :: "bool \<Rightarrow> nat \<Rightarrow> session_registry \<Rightarrow> torrent_entry set" where
  "shard_view x s r = {e. view x r (te_info_hash e) = Some e \<and> snapshot_shard (te_info_hash e) = s}"

definition full_view :: "bool \<Rightarrow> session_registry \<Rightarrow> torrent_entry set" where
  "full_view x r = {e. view x r (te_info_hash e) = Some e}"

definition cache_inv :: "bool \<Rightarrow> session_registry \<Rightarrow> bool" where
  "cache_inv x r \<longleftrightarrow>
     length (shard_revisions r) = SNAPSHOT_SHARDS \<and> length (shard_snapshot_cache r) = SNAPSHOT_SHARDS \<and>
     (\<forall>s < SNAPSHOT_SHARDS. unat (shard_revisions r ! s) \<le> unat (revision r)) \<and>
     (\<forall>v es. whole_cache r = Some (v, es) \<longrightarrow> v = revision r \<and> shows_set x es (full_view x r)) \<and>
     (\<forall>s < SNAPSHOT_SHARDS. \<forall>v es. shard_snapshot_cache r ! s = Some (v, es) \<longrightarrow>
        v \<le> shard_revisions r ! s \<and> (v = shard_revisions r ! s \<longrightarrow> shows_set x es (shard_view x s r)))"

lemma cache_inv_new: "cache_inv x registry_new"
  by (simp add: cache_inv_def registry_new_def)

text \<open>A recorded change in a shard moves its revision past every cached one; the other shards look as before.\<close>

lemma shard_view_delta:
  assumes "delta_of x r hs r'" "filter (\<lambda>(h, _). snapshot_shard h = s) hs = []"
  shows "shard_view x s r' = shard_view x s r"
proof -
  have "view x r' h = view x r h" if "snapshot_shard h = s" for h
  proof -
    have "map_of (rev hs) h = None" using assms(2) that by (auto simp: map_of_eq_None_iff filter_empty_conv)
    then show ?thesis using assms(1) [unfolded delta_of_def, THEN spec, of h] by simp
  qed
  then show ?thesis unfolding shard_view_def by auto
qed

lemma cache_inv_logged:
  assumes inv: "cache_inv x r" and log: "logged r hs r'" and del: "delta_of x r hs r'" and room: "unat (revision r) + length hs < 2 ^ 64"
  shows "cache_inv x r'"
proof -
  let ?c = "\<lambda>s. length (filter (\<lambda>(h, _). snapshot_shard h = s) hs)"
  have rv: "unat (revision r') = unat (revision r) + length hs"
    using log room unat_of_nat_u64 [of "length hs"] by (simp add: logged_def unat_word_ariths)
  have sh: "unat (shard_revisions r' ! s) = unat (shard_revisions r ! s) + ?c s" "unat (shard_revisions r ! s) \<le> unat (revision r)"
    "?c s \<le> length hs" if "s < SNAPSHOT_SHARDS" for s
  proof -
    show le: "unat (shard_revisions r ! s) \<le> unat (revision r)" "?c s \<le> length hs" using inv that by (simp_all add: cache_inv_def)
    have "unat (shard_revisions r ! s) + ?c s < 2 ^ 64" using le room by linarith
    moreover have "shard_revisions r' ! s = shard_revisions r ! s + of_nat (?c s)" using log inv that by (simp add: logged_def cache_inv_def)
    ultimately show "unat (shard_revisions r' ! s) = unat (shard_revisions r ! s) + ?c s"
      using unat_of_nat_u64 [of "?c s"] by (simp add: unat_word_ariths)
  qed
  have "unat (shard_revisions r' ! s) \<le> unat (revision r')" if "s < SNAPSHOT_SHARDS" for s
    using sh [OF that] rv by linarith
  moreover have "v = revision r' \<and> shows_set x es (full_view x r')" if "whole_cache r' = Some (v, es)" for v es
  proof -
    have hs: "hs = []" "whole_cache r = Some (v, es)" using log that by (auto simp: logged_def split: if_splits)
    have "view x r' h = view x r h" for h using del [unfolded delta_of_def, THEN spec, of h] hs(1) by simp
    then show ?thesis using inv hs log by (simp add: cache_inv_def full_view_def logged_def)
  qed
  moreover have "v \<le> shard_revisions r' ! s \<and> (v = shard_revisions r' ! s \<longrightarrow> shows_set x es (shard_view x s r'))"
    if s: "s < SNAPSHOT_SHARDS" and c: "shard_snapshot_cache r' ! s = Some (v, es)" for s v es
  proof -
    have old: "v \<le> shard_revisions r ! s" "v = shard_revisions r ! s \<longrightarrow> shows_set x es (shard_view x s r)"
      using inv s c log by (auto simp: cache_inv_def logged_def)
    show ?thesis
    proof (cases "filter (\<lambda>(h, _). snapshot_shard h = s) hs = []")
      case True
      then show ?thesis using old sh(1) [OF s] shard_view_delta [OF del True] by (simp add: word_unat_eq_iff word_le_nat_alt)
    next
      case False
      then have "0 < ?c s" by simp
      then have "unat v < unat (shard_revisions r' ! s)" using old(1) sh(1) [OF s] unfolding word_le_nat_alt by linarith
      then show ?thesis by (auto simp: word_le_nat_alt)
    qed
  qed
  ultimately show ?thesis using log inv by (simp add: cache_inv_def logged_def)
qed

text \<open>What a shard shows when it is built afresh.\<close>

lemma map_filter_all: "(\<And>x. x \<in> set xs \<Longrightarrow> f x \<noteq> None) \<Longrightarrow> List.map_filter f xs = map (the \<circ> f) xs"
  by (induction xs) (auto simp: map_filter_simps split: option.splits)

lemma shows_sort_key: "distinct (map te_info_hash es) \<Longrightarrow> shows_set x (sort_key te_info_hash es) (shown x ` set es)"
  by (simp add: shows_set_def distinct_map)

lemma fresh_shard_shows:
  assumes inv: "index_inv r" and s: "s < SNAPSHOT_SHARDS"
  shows "shows_set x (sort_key te_info_hash (map record_to_entry (List.map_filter (stored r) (shard_members r ! s)))) (shard_view x s r)"
proof -
  let ?ms = "shard_members r ! s"
  let ?xs = "List.map_filter (stored r) ?ms"
  have ms: "distinct ?ms" "set ?ms = {k. \<exists>h. hashes r k = Some h \<and> snapshot_shard h = s}" using inv s by (simp_all add: index_inv_def)
  have xs: "?xs = map (the \<circ> stored r) ?ms" using ms(2) by (intro map_filter_all) (auto simp: hashes_def)
  have keys: "map te_info_hash (map record_to_entry ?xs) = map (the \<circ> hashes r) ?ms"
    unfolding xs using ms(2) by (auto simp: hashes_def comp_def)
  have "inj_on (the \<circ> hashes r) (set ?ms)"
  proof (rule inj_onI)
    fix j k assume jk: "j \<in> set ?ms" "k \<in> set ?ms" and eq: "(the \<circ> hashes r) j = (the \<circ> hashes r) k"
    from jk obtain h h' where h: "hashes r j = Some h" "hashes r k = Some h'" using ms(2) by blast
    with eq have "h' = h" by simp
    with h show "j = k" using by_hash_hashes [OF inv, of h j] by_hash_hashes [OF inv, of h k] by simp
  qed
  then have "distinct (map te_info_hash (map record_to_entry ?xs))" unfolding keys using ms(1) by (simp add: distinct_map)
  moreover have "shown x ` set (map record_to_entry ?xs) = shard_view x s r"
  proof (intro set_eqI iffI)
    fix e assume "e \<in> shown x ` set (map record_to_entry ?xs)"
    then obtain k rec where k: "k \<in> set ?ms" "stored r k = Some rec" "e = shown x (record_to_entry rec)"
      using ms(2) by (auto simp: xs hashes_def)
    then have "snapshot_shard (record_info_hash rec) = s" using ms(2) by (auto simp: hashes_def)
    then show "e \<in> shard_view x s r" using k view_stored [OF inv] by (auto simp: shard_view_def)
  next
    fix e assume "e \<in> shard_view x s r"
    then have e: "view x r (te_info_hash e) = Some e" "snapshot_shard (te_info_hash e) = s" by (simp_all add: shard_view_def)
    then obtain k rec where k: "stored r k = Some rec" "record_info_hash rec = te_info_hash e" "e = shown x (record_to_entry rec)"
      using view_stored [OF inv] by metis
    then have "k \<in> set ?ms" using ms(2) e(2) by (auto simp: hashes_def)
    then show "e \<in> shown x ` set (map record_to_entry ?xs)" using k by (force simp: xs)
  qed
  ultimately show ?thesis using shows_sort_key by metis
qed

lemma shard_snapshot_shows:
  assumes inv: "index_inv r" "cache_inv x r" and s: "s < SNAPSHOT_SHARDS" and ss: "shard_snapshot s r = (es, r')"
  shows "shows_set x es (shard_view x s r) \<and> cache_inv x r'"
proof -
  let ?fresh = "sort_key te_info_hash (map record_to_entry (List.map_filter (stored r) (shard_members r ! s)))"
  let ?r' = "r\<lparr>shard_snapshot_cache := (shard_snapshot_cache r)[s := Some (shard_revisions r ! s, ?fresh)]\<rparr>"
  note fresh = fresh_shard_shows [OF inv(1) s]
  have v: "view x ?r' = view x r" by (rule ext) (simp add: view_def)
  have nth: "(shard_snapshot_cache r)[s := x] ! t = (if t = s then x else shard_snapshot_cache r ! t)" if "t < SNAPSHOT_SHARDS" for t x
    using inv(2) that by (simp add: cache_inv_def nth_list_update)
  have sv: "shard_view x t ?r' = shard_view x t r" "full_view x ?r' = full_view x r" for t by (simp_all add: shard_view_def full_view_def v)
  have "cache_inv x ?r'"
    using inv(2) fresh by (simp add: cache_inv_def sv nth)
  moreover have "es = ?fresh \<and> r' = ?r' \<or> r' = r \<and> shard_snapshot_cache r ! s = Some (shard_revisions r ! s, es)"
    using ss by (auto simp: shard_snapshot_def Let_def split: option.splits if_splits)
  ultimately show ?thesis using fresh inv(2) s by (auto simp: cache_inv_def)
qed

lemma collect_shards_shows:
  assumes "index_inv r" "cache_inv x r" "set ss \<subseteq> {..<SNAPSHOT_SHARDS}" "distinct ss" "collect_shards ss es r = (es', r')"
    "distinct (map te_info_hash es)" "\<forall>e \<in> set es. snapshot_shard (te_info_hash e) \<notin> set ss"
  shows "distinct (map te_info_hash es') \<and> shown x ` set es' = shown x ` set es \<union> (\<Union>s \<in> set ss. shard_view x s r) \<and> cache_inv x r'"
  using assms
proof (induction ss arbitrary: es r)
  case (Cons s ss)
  obtain xs r1 where x: "shard_snapshot s r = (xs, r1)" by force
  have sh: "shows_set x xs (shard_view x s r)" and c1: "cache_inv x r1" using shard_snapshot_shows [OF Cons.prems(1,2) _ x] Cons.prems(3) by auto
  have same: "same_content r r1" using shard_snapshot_content [OF x] by simp
  then have inv1: "index_inv r1" using Cons.prems(1) by (rule index_inv_same_content)
  have sv: "shard_view x t r1 = shard_view x t r" for t by (simp add: shard_view_def view_same_content [OF same])
  have xs: "snapshot_shard (te_info_hash e) = s" if "e \<in> set xs" for e
  proof -
    have "shown x e \<in> shard_view x s r" using sh that by (auto simp: shows_set_def)
    then show ?thesis by (simp add: shard_view_def)
  qed
  have "distinct (map te_info_hash (es @ xs))"
  proof -
    have "te_info_hash ` set es \<inter> te_info_hash ` set xs = {}" using xs Cons.prems(7) by fastforce
    then show ?thesis using Cons.prems(6) sh by (simp add: shows_set_def)
  qed
  moreover have "\<forall>e \<in> set (es @ xs). snapshot_shard (te_info_hash e) \<notin> set ss" using xs Cons.prems(4,7) by auto
  moreover have "collect_shards ss (es @ xs) r1 = (es', r')" using Cons.prems(5) x by simp
  ultimately have "distinct (map te_info_hash es') \<and>
      shown x ` set es' = shown x ` set (es @ xs) \<union> (\<Union>t \<in> set ss. shard_view x t r1) \<and> cache_inv x r'"
    using Cons.prems(3,4) by (intro Cons.IH [OF inv1 c1]) simp_all
  moreover have "shown x ` set xs = shard_view x s r" using sh by (simp add: shows_set_def)
  ultimately show ?case by (auto simp: sv image_Un)
qed simp

lemma registry_snapshot_shows:
  assumes inv: "index_inv r" "cache_inv x r" and sn: "registry_snapshot r = (s, r')"
  shows "shows_set x (snap_entries s) (full_view x r) \<and> snap_revision s = revision r \<and> cache_inv x r'"
proof -
  obtain es r1 where c: "collect_shards [0..<SNAPSHOT_SHARDS] [] r = (es, r1)" by force
  have es: "distinct (map te_info_hash es)" "shown x ` set es = (\<Union>s \<in> {..<SNAPSHOT_SHARDS}. shard_view x s r)" and c1: "cache_inv x r1"
    using collect_shards_shows [OF inv _ _ c] by (auto simp: atLeast0LessThan)
  have "(\<Union>s \<in> {..<SNAPSHOT_SHARDS}. shard_view x s r) = full_view x r" by (auto simp: shard_view_def full_view_def)
  with es have full: "shows_set x (sort_key te_info_hash es) (full_view x r)" using shows_sort_key by metis
  have same: "same_content r r1" using collect_shards_content [OF c] by simp
  have "cache_inv x (r1\<lparr>whole_cache := Some (revision r, sort_key te_info_hash es)\<rparr>)"
  proof -
    have "view x (r1\<lparr>whole_cache := Some (revision r, sort_key te_info_hash es)\<rparr>) = view x r1" "view x r1 = view x r"
      using view_same_content [OF same] by (simp_all add: view_def fun_eq_iff)
    then show ?thesis using c1 full same by (simp add: cache_inv_def shard_view_def full_view_def same_content_def)
  qed
  then show ?thesis using sn c full inv(2)
    by (auto simp: registry_snapshot_def rebuild_snapshot_entries_def cache_inv_def Let_def split: option.splits if_splits)
qed

lemma path_of_caches:
  assumes "path_of x r r'" "registry_inv r" "cache_inv x r"
  shows "registry_inv r' \<and> cache_inv x r'"
  using assms
proof (induction rule: path_of.induct)
  case (of_step r r' r'')
  then have inv: "registry_inv r'" "cache_inv x r'" by simp_all
  have "registry_inv r''" using of_step.hyps(2) inv(1) by (rule registry_step_inv)
  moreover consider hs where "logged r' hs r''" "delta_of x r' hs r''" "length hs \<le> length (entries r') + 1" | s where "registry_snapshot r' = (s, r'')"
    using registry_step_effect [OF of_step.hyps(2) inv(1) of_step.hyps(4)] by blast
  then have "cache_inv x r''"
  proof cases
    case (1 hs)
    have "unat (revision r') + length hs < 2 ^ 64" using 1(3) of_step.hyps(3) unfolding revision_room_def by linarith
    with 1 show ?thesis by (intro cache_inv_logged [OF inv(2)])
  next
    case (2 s)
    then show ?thesis using registry_snapshot_shows [of r' x s r''] inv by (simp add: registry_inv_def)
  qed
  ultimately show ?case by simp
qed simp

subsection \<open>Lists of entries\<close>

lemma total_of_sum_list:
  assumes "distinct (map fst (entries r))"
  shows "total_of f r = sum_list (map (f \<circ> snd) (entries r))"
proof -
  have "sum_list (map (f \<circ> snd) (entries r)) = (\<Sum>x \<in> set (entries r). f (snd x))"
    using assms by (subst sum_list_distinct_conv_sum_set) (auto simp: distinct_map)
  also have "\<dots> = (\<Sum>k \<in> dom (stored r). f (the (stored r k)))"
    using assms by (intro sum.reindex_cong [of "\<lambda>k. (k, the (stored r k))"]) (auto simp: inj_on_def dom_def image_iff)
  finally show ?thesis by (simp add: total_of_def)
qed

lemma sum_list_indicator:
  "sum_list (map (\<lambda>x. if P x then 1 else 0) xs) = length (filter P xs)"
  "sum_list (map (\<lambda>x. if P x then 0 else 1) xs) = length (filter (\<lambda>x. \<not> P x) xs)"
  by (induction xs) simp_all

lemma iter_get:
  assumes "index_inv r"
  shows "registry_get h r = Some e \<longleftrightarrow> e \<in> set (registry_iter r) \<and> te_info_hash e = canonical_info_hash h"
proof
  assume "registry_get h r = Some e"
  then obtain k rec where k: "by_hash r (canonical_info_hash h) = Some k" "stored r k = Some rec" "e = record_to_entry rec"
    by (auto simp: registry_get_def split: option.splits)
  from by_hash_stored [OF assms k(1)] k have "te_info_hash e = canonical_info_hash h" by auto
  then show "e \<in> set (registry_iter r) \<and> te_info_hash e = canonical_info_hash h"
    using map_of_SomeD [OF k(2)] k(3) by (force simp: registry_iter_def)
next
  assume e: "e \<in> set (registry_iter r) \<and> te_info_hash e = canonical_info_hash h"
  then obtain k rec where k: "(k, rec) \<in> set (entries r)" "e = record_to_entry rec" by (auto simp: registry_iter_def)
  then have st: "stored r k = Some rec" using assms by (simp add: index_inv_def)
  then have "by_hash r (canonical_info_hash h) = Some k"
    using e k(2) by_hash_hashes [OF assms, of "canonical_info_hash h" k] by (simp add: hashes_def)
  then show "registry_get h r = Some e" using st k(2) by (simp add: registry_get_def)
qed

lemma iter_distinct: "index_inv r \<Longrightarrow> distinct (map te_info_hash (registry_iter r))"
proof -
  assume inv: "index_inv r"
  have d: "distinct (map fst (entries r))" using inv by (simp add: index_inv_def)
  have keys: "map te_info_hash (registry_iter r) = map (the \<circ> hashes r \<circ> fst) (entries r)"
    using d by (auto simp: registry_iter_def hashes_def)
  have "inj_on (the \<circ> hashes r \<circ> fst) (set (entries r))"
  proof (rule inj_onI)
    fix x y assume xy: "x \<in> set (entries r)" "y \<in> set (entries r)" and eq: "(the \<circ> hashes r \<circ> fst) x = (the \<circ> hashes r \<circ> fst) y"
    obtain j a k b where p: "x = (j, a)" "y = (k, b)" by fastforce
    have st: "stored r j = Some a" "stored r k = Some b" using xy d p by auto
    with eq p have "hashes r j = Some (record_info_hash a)" "hashes r k = Some (record_info_hash a)" by (auto simp: hashes_def)
    then have "j = k" using by_hash_hashes [OF inv, of "record_info_hash a" j] by_hash_hashes [OF inv, of "record_info_hash a" k] by simp
    then show "x = y" using st p by simp
  qed
  then show ?thesis unfolding keys using d by (simp add: distinct_map)
qed

lemma full_view_iter: "index_inv r \<Longrightarrow> full_view x r = shown x ` set (registry_iter r)"
proof -
  assume inv: "index_inv r"
  have d: "distinct (map fst (entries r))" using inv by (simp add: index_inv_def)
  show ?thesis
  proof (intro set_eqI iffI)
    fix e assume "e \<in> full_view x r"
    then obtain k rec where "stored r k = Some rec" "e = shown x (record_to_entry rec)"
      using view_stored [OF inv, of x "te_info_hash e" e] by (auto simp: full_view_def)
    then show "e \<in> shown x ` set (registry_iter r)" using map_of_SomeD by (force simp: registry_iter_def)
  next
    fix e assume "e \<in> shown x ` set (registry_iter r)"
    then obtain k rec where "(k, rec) \<in> set (entries r)" "e = shown x (record_to_entry rec)" by (auto simp: registry_iter_def)
    then show "e \<in> full_view x r" using d view_stored [OF inv, of x "te_info_hash e" e] by (auto simp: full_view_def)
  qed
qed

lemma distinct_map_sort_key: "distinct (map f xs) \<Longrightarrow> distinct (map f (sort_key f xs))"
  by (simp add: distinct_map)

lemma sorted_keys_unique:
  assumes "sorted (map f xs)" "distinct (map f xs)" "sorted (map f ys)" "distinct (map f ys)" "set xs = set ys"
  shows "xs = ys"
proof -
  have "map f xs = map f ys" using assms by (intro sorted_distinct_set_unique) simp_all
  moreover have "inj_on f (set xs \<union> set ys)" using assms(2,5) by (simp add: distinct_map)
  ultimately show ?thesis by (rule map_inj_on)
qed

lemma shows_iter:
  assumes "index_inv r" "shows_set x es (full_view x r)"
  shows "map (shown x) es = sort_key te_info_hash (map (shown x) (registry_iter r))"
proof (rule sorted_keys_unique [where f = te_info_hash])
  have k: "map te_info_hash (map (shown x) xs) = map te_info_hash xs" for xs by (simp add: comp_def)
  show "sorted (map te_info_hash (map (shown x) es))" "distinct (map te_info_hash (map (shown x) es))"
    using assms(2) unfolding k by (simp_all add: shows_set_def)
  show "sorted (map te_info_hash (sort_key te_info_hash (map (shown x) (registry_iter r))))" by simp
  have "distinct (map te_info_hash (map (shown x) (registry_iter r)))" unfolding k using assms(1) by (rule iter_distinct)
  then show "distinct (map te_info_hash (sort_key te_info_hash (map (shown x) (registry_iter r))))" by (rule distinct_map_sort_key)
  show "set (map (shown x) es) = set (sort_key te_info_hash (map (shown x) (registry_iter r)))"
    using assms full_view_iter [OF assms(1)] by (simp add: shows_set_def)
qed

lemma binary_search_by_key:
  assumes "sorted (map key xs)"
  shows "case binary_search_by (\<lambda>x. cmp_to k (key x)) xs of Inr i \<Rightarrow> i < length xs \<and> key (xs ! i) = k | Inl _ \<Rightarrow> k \<notin> key ` set xs"
proof (cases "xs = []")
  case True
  then show ?thesis by (simp add: binary_search_by_def)
next
  case False
  let ?b = "bsearch_loop (\<lambda>i. cmp_to k (key (xs ! i))) 0 (length xs)"
  have mono: "i \<le> j \<Longrightarrow> j < length xs \<Longrightarrow> key (xs ! i) \<le> key (xs ! j)" for i j
    using sorted_nth_mono [OF assms, of i j] by simp
  have "bsearch_inv (\<lambda>i. cmp_to k (key (xs ! i))) (length xs) ?b 1"
    using False by (intro binary_search_by_loop) (auto dest: mono)
  then have b: "?b < length xs" "?b = 0 \<or> key (xs ! ?b) \<le> k" and above: "\<And>i. ?b < i \<Longrightarrow> i < length xs \<Longrightarrow> k < key (xs ! i)"
    by (auto simp: bsearch_inv_def not_less)
  have miss: "key (xs ! ?b) = k" if "i < length xs" "key (xs ! i) = k" for i
  proof -
    have i: "i \<le> ?b" using above [of i] that by (cases "?b < i") auto
    then have "k \<le> key (xs ! ?b)" using mono [OF i b(1)] that(2) by simp
    moreover have "key (xs ! ?b) \<le> k" using b(2) i that(2) by auto
    ultimately show ?thesis by simp
  qed
  then show ?thesis using b(1) False
    by (auto simp: binary_search_by_def Let_def in_set_conv_nth split: ordering.split)
qed

lemma snapshot_find_shows:
  assumes inv: "index_inv r" and es: "shows_set x (snap_entries s) (full_view x r)"
  shows "map_option (shown x) (snapshot_find h s) = map_option (shown x) (registry_get h r)"
proof -
  let ?h = "canonical_info_hash h" and ?es = "snap_entries s"
  have srt: "sorted (map te_info_hash ?es)" using es by (simp add: shows_set_def)
  note search = binary_search_by_key [OF srt, of ?h]
  show ?thesis
  proof (cases "binary_search_by (\<lambda>e. cmp_to ?h (te_info_hash e)) ?es")
    case (Inr i)
    then have i: "i < length ?es" "te_info_hash (?es ! i) = ?h" using search by simp_all
    have "shown x (?es ! i) \<in> full_view x r" using es i(1) by (auto simp: shows_set_def)
    then have "view x r ?h = Some (shown x (?es ! i))" using i(2) by (simp add: full_view_def)
    then show ?thesis using Inr i(1) by (simp add: snapshot_find_def flip: view_get)
  next
    case (Inl j)
    then have none: "?h \<notin> te_info_hash ` set ?es" using search by simp
    have "view x r ?h = None"
    proof (rule ccontr)
      assume "view x r ?h \<noteq> None"
      then obtain e where e: "view x r ?h = Some e" by blast
      then have "e \<in> full_view x r" using view_hash [OF inv e] by (simp add: full_view_def)
      then obtain a where "a \<in> set ?es" "e = shown x a" using es by (auto simp: shows_set_def)
      then show False using none view_hash [OF inv e] by (auto intro: rev_image_eqI)
    qed
    then show ?thesis using Inl by (simp add: snapshot_find_def flip: view_get)
  qed
qed

subsection \<open>Properties\<close>

lemma new_log: "log_inv [] registry_new"
  by (simp add: log_inv_def registry_new_def trim_log_drop)

lemma one_torrent_path:
  obtains r where "registry_path registry_new r" "hold_path registry_new r" "by_hash r [7] = Some 1" "revision r = 1" "totals_fit r" "registry_step registry_new r"
    "registry_iter r = [torrent_entry_new 1 0 [7] [] []]"
proof -
  let ?e = "torrent_entry_new 1 0 [7] [] []"
  obtain r where r: "registry_add ?e registry_new = Inr (1, r)" and b: "by_hash r [7] = Some 1" "revision r = 1" "entries r = [(1, Active ?e)]"
    by (simp add: registry_add_def add_record_def registry_new_def torrent_entry_new_def canonical_info_hash_def
        v2_wire_hash_prefix_def Let_def)
  have st: "registry_step registry_new r" by (rule step_add [OF r]) (simp add: registry_new_def)
  have "registry_path registry_new r" by (rule path_step [OF path_refl st]) (simp add: revision_room_def registry_new_def)
  moreover have "hold_path registry_new r"
    by (rule hold_step [OF hold_refl st]) (simp_all add: revision_room_def registry_new_def keeps_holds_def)
  moreover have "totals_fit r"
    by (simp add: totals_fit_def total_of_def b(3) byte_counters_def contribution_from_entry_def torrent_entry_new_def)
  ultimately show ?thesis using b st by (intro that [of r]) (simp_all add: registry_iter_def)
qed

lemma no_missing_entry:
  assumes "index_inv r"
  shows "registry_remove h r \<noteq> None \<and> registry_demote h r \<noteq> None"
proof (cases "by_hash r (canonical_info_hash h)")
  case None
  then show ?thesis by (simp add: registry_remove_def registry_demote_def Let_def)
next
  case (Some k)
  from by_hash_stored [OF assms Some] obtain rec where "stored r k = Some rec" by blast
  with Some show ?thesis by (cases rec) (simp_all add: registry_remove_def registry_demote_def Let_def)
qed

text \<open>
  C40. Whatever operations the registry has been through, its indexes agree with its entries (the
  identities, the wire prefixes of version 2 and the shard members each hold exactly the handles they
  should), a lookup finds a torrent exactly when one with that identity is there, the two counts of
  records are right, the ban list keeps to its limit, and no removal or demotion runs into the missing
  entry it would panic on.
\<close>

theorem registry_consistent:
  assumes "registry_path registry_new r"
  shows "index_inv r \<and>
    (registry_get h r = Some e \<longleftrightarrow> e \<in> set (registry_iter r) \<and> te_info_hash e = canonical_info_hash h) \<and>
    active_count r = length (filter (is_active \<circ> snd) (entries r)) \<and>
    dormant_count r = length (filter (\<lambda>x. \<not> is_active (snd x)) (entries r)) \<and>
    length (banned r) \<le> MAX_BANNED_PEERS \<and> registry_remove h r \<noteq> None \<and> registry_demote h r \<noteq> None"
proof -
  have inv: "registry_inv r" using path_of_caches [OF path_of_registry_path [OF assms] registry_inv_new cache_inv_new] by simp
  then have ix: "index_inv r" and d: "distinct (map fst (entries r))" by (simp_all add: registry_inv_def index_inv_def)
  have "active_count r = length (filter (is_active \<circ> snd) (entries r))" "dormant_count r = length (filter (\<lambda>x. \<not> is_active (snd x)) (entries r))"
    using inv sum_list_indicator [of "is_active \<circ> snd" "entries r"]
    by (simp_all add: registry_inv_def total_of_sum_list [OF d] comp_def)
  moreover have "registry_remove h r \<noteq> None" "registry_demote h r \<noteq> None"
    using no_missing_entry [OF ix] by simp_all
  ultimately show ?thesis using inv ix iter_get [OF ix] by (simp add: registry_inv_def)
qed

theorem registry_consistent_witness:
  "\<exists>r. registry_path registry_new r \<and> index_inv r \<and> registry_get [7] r = Some (torrent_entry_new 1 0 [7] [] [])"
proof (rule one_torrent_path)
  fix r assume r: "registry_path registry_new r" "registry_iter r = [torrent_entry_new 1 0 [7] [] []]"
  then show ?thesis using registry_consistent [OF r(1), of "[7]" "torrent_entry_new 1 0 [7] [] []"]
    by (intro exI [of _ r]) (simp add: torrent_entry_new_def canonical_info_hash_def)
qed

inductive fitting_run :: "session_registry \<Rightarrow> bool" where
  fitting_new: "fitting_run registry_new"
| fitting_step: "fitting_run r \<Longrightarrow> registry_step r r' \<Longrightarrow> totals_fit r' \<Longrightarrow> fitting_run r'"

lemma fitting_run_exact: "fitting_run r \<Longrightarrow> registry_inv r \<and> stats_exact r"
proof (induction rule: fitting_run.induct)
  case fitting_new
  have "stats_exact registry_new"
    unfolding stats_exact_def count_exact_def bytes_exact_def byte_counters_def
    by (auto simp: registry_new_def stats_default_def total_of_def) (rename_tac st, case_tac st, simp_all)
  then show ?case by (simp add: registry_inv_new)
next
  case (fitting_step r r')
  then show ?case using registry_step_inv registry_step_stats by blast
qed

text \<open>
  C9. The counters the registry answers statistics from are exact: the torrents in all and in each
  state, and the bytes uploaded, downloaded, wanted and left, are the totals over the entries, as long
  as those totals fit in 64 bits.
\<close>

theorem registry_counters_exact:
  assumes "fitting_run r"
  shows "unat (torrents_total (reg_stats r)) = length (registry_iter r) \<and>
    unat (state_count st (reg_stats r)) = length (by_state st r) \<and>
    unat (bytes_uploaded (reg_stats r)) = sum_list (map (\<lambda>e. unat (uploaded (te_stats e))) (registry_iter r)) \<and>
    unat (bytes_downloaded (reg_stats r)) = sum_list (map (\<lambda>e. unat (downloaded (te_stats e))) (registry_iter r)) \<and>
    unat (bytes_total (reg_stats r)) = sum_list (map (\<lambda>e. unat (te_total_length e)) (registry_iter r)) \<and>
    unat (bytes_left (reg_stats r)) = sum_list (map (\<lambda>e. unat (te_amount_left e)) (registry_iter r))"
proof -
  have inv: "registry_inv r" and ex: "stats_exact r" using fitting_run_exact [OF assms] by simp_all
  have d: "distinct (map fst (entries r))" using inv by (simp add: registry_inv_def index_inv_def)
  have c: "record_contribution rec = contribution_from_entry (record_to_entry rec)" "record_state rec = ec_state (record_contribution rec)" for rec
    by (simp_all add: contribution_to_entry) (cases rec; simp add: contribution_from_entry_def dormant_contribution_def)
  have "length (by_state st r) = total_of (\<lambda>rec. if ec_state (record_contribution rec) = st then 1 else 0) r"
    using sum_list_indicator(1) [of "\<lambda>x. ec_state (record_contribution (snd x)) = st" "entries r"]
    by (simp add: total_of_sum_list [OF d] by_state_def filter_map c(2) comp_def)
  moreover have "length (registry_iter r) = total_of (\<lambda>_. 1) r"
    by (simp add: total_of_sum_list [OF d] registry_iter_def comp_def sum_list_triv)
  moreover have "sum_list (map (\<lambda>e. unat (con (contribution_from_entry e))) (registry_iter r)) = total_of (\<lambda>rec. unat (con (record_contribution rec))) r"
    for con :: "entry_contribution \<Rightarrow> u64" by (simp add: total_of_sum_list [OF d] registry_iter_def comp_def c(1))
  from this [of ec_uploaded] this [of ec_downloaded] this [of ec_total_length] this [of ec_amount_left]
  have "sum_list (map (\<lambda>e. unat (uploaded (te_stats e))) (registry_iter r)) = total_of (\<lambda>rec. unat (ec_uploaded (record_contribution rec))) r"
    "sum_list (map (\<lambda>e. unat (downloaded (te_stats e))) (registry_iter r)) = total_of (\<lambda>rec. unat (ec_downloaded (record_contribution rec))) r"
    "sum_list (map (\<lambda>e. unat (te_total_length e)) (registry_iter r)) = total_of (\<lambda>rec. unat (ec_total_length (record_contribution rec))) r"
    "sum_list (map (\<lambda>e. unat (te_amount_left e)) (registry_iter r)) = total_of (\<lambda>rec. unat (ec_amount_left (record_contribution rec))) r"
    by (simp_all add: contribution_from_entry_def)
  ultimately show ?thesis using ex by (simp add: stats_exact_def count_exact_def bytes_exact_def byte_counters_def)
qed

theorem registry_counters_exact_witness: "\<exists>r. fitting_run r \<and> unat (torrents_total (reg_stats r)) = 1"
proof (rule one_torrent_path)
  fix r assume r: "registry_step registry_new r" "totals_fit r" "registry_iter r = [torrent_entry_new 1 0 [7] [] []]"
  have "fitting_run r" by (rule fitting_step [OF fitting_new r(1,2)])
  with registry_counters_exact [OF this] r(3) show ?thesis by auto
qed

lemma path_of_snapshot:
  assumes "path_of x registry_new r" "registry_snapshot r = (s, r')"
  shows "map (shown x) (snap_entries s) = sort_key te_info_hash (map (shown x) (registry_iter r)) \<and>
    snap_revision s = revision r \<and> map_option (shown x) (snapshot_find h s) = map_option (shown x) (registry_get h r)"
proof -
  have inv: "index_inv r" "cache_inv x r"
    using path_of_caches [OF assms(1) registry_inv_new cache_inv_new] by (simp_all add: registry_inv_def)
  have es: "shows_set x (snap_entries s) (full_view x r)" "snap_revision s = revision r"
    using registry_snapshot_shows [OF inv assms(2)] by simp_all
  show ?thesis using shows_iter [OF inv(1) es(1)] es(2) snapshot_find_shows [OF inv(1) es(1)] by simp
qed

lemma path_of_changes:
  assumes "registry_path registry_new r" "path_of x r r'"
  shows "(changes_since (revision r) r' = None \<longleftrightarrow> CHANGE_LOG_CAPACITY < unat (revision r') - unat (revision r)) \<and>
    (\<forall>cs. changes_since (revision r) r' = Some cs \<longrightarrow>
      (case map_of (rev (map (\<lambda>c. (rc_info_hash c, rc_removed c)) cs)) (canonical_info_hash h) of
         None \<Rightarrow> map_option (shown x) (registry_get h r') = map_option (shown x) (registry_get h r)
       | Some gone \<Rightarrow> gone = (registry_get h r' = None)))"
proof -
  obtain hist where hist: "log_inv hist r" and inv: "registry_inv r"
    using path_of_log [OF path_of_registry_path [OF assms(1)] registry_inv_new new_log] by auto
  obtain hs where hs: "log_inv (hist @ hs) r'" "delta_of x r hs r'" using path_of_log [OF assms(2) inv hist] by blast
  have rv: "revision r = of_nat (length hist)" "unat (revision r) = length hist" "unat (revision r') = length hist + length hs"
    using hist hs(1) unat_of_nat_u64 [of "length hist"] unat_of_nat_u64 [of "length (hist @ hs)"] by (simp_all add: log_inv_def)
  have pairs: "map (\<lambda>c. (rc_info_hash c, rc_removed c)) (numbered v xs) = xs" for v xs
    by (induction v xs rule: numbered.induct) simp_all
  have "case map_of (rev hs) (canonical_info_hash h) of
      None \<Rightarrow> map_option (shown x) (registry_get h r') = map_option (shown x) (registry_get h r)
    | Some gone \<Rightarrow> gone = (registry_get h r' = None)"
    using hs(2) [unfolded delta_of_def, THEN spec, of "canonical_info_hash h"]
    by (cases "map_of (rev hs) (canonical_info_hash h)") (simp_all add: view_get)
  then show ?thesis using changes_since_exact [OF hs(1)] rv by (auto simp: pairs)
qed

text \<open>
  C3. A snapshot shows the registry as it is, although most of it may come from the cached shards. On
  every path on which no torrent is demoted while its hold on a finishing download (the flag
  \<open>te_finalizing\<close>) is set, the entries of the snapshot are exactly those of the registry, in the order
  of their identities, and the binary search of the snapshot finds exactly what a lookup in the registry
  finds. On any path the same holds up to that one flag, because a demotion clears it without recording
  a change, so that a cached shard may still show it. The revision of the snapshot is the current one.
\<close>

theorem snapshot_exact:
  assumes "registry_path registry_new r" "registry_snapshot r = (s, r')"
  shows "(hold_path registry_new r \<longrightarrow>
      snap_entries s = sort_key te_info_hash (registry_iter r) \<and> snapshot_find h s = registry_get h r) \<and>
    map forget_hold (snap_entries s) = sort_key te_info_hash (map forget_hold (registry_iter r)) \<and>
    snap_revision s = revision r \<and>
    map_option forget_hold (snapshot_find h s) = map_option forget_hold (registry_get h r)"
  using path_of_snapshot [OF path_of_registry_path [OF assms(1)] assms(2), of h]
    path_of_snapshot [OF path_of_hold_path assms(2), of h]
  by (simp add: shown_exact option.map_ident)

theorem snapshot_exact_witness:
  "\<exists>r. hold_path registry_new r \<and> snap_entries (fst (registry_snapshot r)) = [torrent_entry_new 1 0 [7] [] []]"
proof (rule one_torrent_path)
  fix r assume r: "registry_path registry_new r" "hold_path registry_new r" "registry_iter r = [torrent_entry_new 1 0 [7] [] []]"
  obtain s r' where s: "registry_snapshot r = (s, r')" by force
  show ?thesis using snapshot_exact [OF r(1) s] r s by (intro exI [of _ r]) simp
qed

text \<open>
  C6. A reader that holds a snapshot of some revision and asks for the changes since learns everything
  but one flag: the torrents the answer does not name are as they were up to the hold on a finishing
  download (\<open>te_finalizing\<close>), and exactly as they were when no torrent was demoted in between while it had
  that hold (a demotion clears the hold and records no change). For each torrent the answer names the
  last change says whether the torrent is still there. The registry refuses to answer exactly when more
  changes have been made than its log of 16384 holds.
\<close>

theorem changes_since_complete:
  assumes "registry_path registry_new r" "registry_path r r'"
  shows "(changes_since (revision r) r' = None \<longleftrightarrow> CHANGE_LOG_CAPACITY < unat (revision r') - unat (revision r)) \<and>
    (\<forall>cs. changes_since (revision r) r' = Some cs \<longrightarrow>
      (case map_of (rev (map (\<lambda>c. (rc_info_hash c, rc_removed c)) cs)) (canonical_info_hash h) of
         None \<Rightarrow> map_option forget_hold (registry_get h r') = map_option forget_hold (registry_get h r) \<and>
           (hold_path r r' \<longrightarrow> registry_get h r' = registry_get h r)
       | Some gone \<Rightarrow> gone = (registry_get h r' = None)))"
proof (cases "hold_path r r'")
  case True
  note c = path_of_changes [OF assms(1) path_of_hold_path [OF True], of h, unfolded shown_exact option.map_ident]
  show ?thesis using c by (auto split: option.splits)
next
  case False
  note c = path_of_changes [OF assms(1) path_of_registry_path [OF assms(2)], of h, unfolded shown_exact]
  show ?thesis using c False by (auto split: option.splits)
qed

theorem changes_since_complete_witness:
  "\<exists>r. hold_path registry_new r \<and> changes_since (revision registry_new) r \<noteq> None"
proof (rule one_torrent_path)
  fix r assume r: "registry_path registry_new r" "hold_path registry_new r" "revision r = 1"
  then show ?thesis using changes_since_complete [OF path_refl r(1)]
    by (intro exI [of _ r]) (simp add: registry_new_def CHANGE_LOG_CAPACITY_def)
qed

end
