(* ===== verification/Tracker_Tiers.thy ===== *)
theory Tracker_Tiers
  imports TNG_Text "HOL-Library.Multiset"
begin

text \<open>
  The announce tiers of a torrent (BEP 12), \<open>tier.rs\<close> of \<open>crates/rt-tracker\<close>, over tracker states as
  \<open>TrackerState::new\<close> of \<open>state.rs\<close> builds them, with the compact peer lists of \<open>peer.rs\<close> and the private
  torrent policy of \<open>policy.rs\<close>. Strings are their UTF-8 bytes; instants and durations count nanoseconds.
\<close>

subsection \<open>Tracker states\<close>

datatype tracker_error =
    FailureReason bytes | HttpStatus u16 | Network bytes | Udp bytes | TrackerParseError bytes | InvalidUrl bytes
  | Timeout | TrackerDisabled | TooManyRetries

datatype tracker_status =
    NeverAnnounced | Announcing | Working | Warning bytes | StatusError tracker_error | StatusDisabled

text \<open>The jitter fraction is the constant 0.2, kept as a fraction of a hundred.\<close>

record backoff =
  bo_base :: nat
  bo_max :: nat
  bo_attempt :: u32
  bo_jitter_percent :: nat

definition from_secs :: "nat \<Rightarrow> nat" where
  "from_secs s = s * 1000000000"

definition backoff_new :: "nat \<Rightarrow> nat \<Rightarrow> backoff" where
  "backoff_new b m = \<lparr>bo_base = b, bo_max = m, bo_attempt = 0, bo_jitter_percent = 20\<rparr>"

definition tracker_retry :: backoff where
  "tracker_retry = backoff_new (from_secs 60) (from_secs 1800)"

record tracker_state =
  url :: bytes
  tr_status :: tracker_status
  last_announce :: "nat option"
  next_announce :: "nat option"
  last_success :: "nat option"
  interval :: nat
  min_interval :: nat
  tracker_id :: "bytes option"
  scrape_complete :: "u32 option"
  scrape_incomplete :: "u32 option"
  scrape_downloaded :: "u32 option"
  tr_backoff :: backoff
  consecutive_failures :: u32

definition tracker_state_new :: "bytes \<Rightarrow> tracker_state" where
  "tracker_state_new u = \<lparr>url = u, tr_status = NeverAnnounced, last_announce = None, next_announce = None,
     last_success = None, interval = from_secs 1800, min_interval = from_secs 60, tracker_id = None,
     scrape_complete = None, scrape_incomplete = None, scrape_downloaded = None, tr_backoff = tracker_retry,
     consecutive_failures = 0\<rparr>"

text \<open>The clock is read by the caller and passed as \<open>now\<close>.\<close>

definition is_due :: "nat \<Rightarrow> tracker_state \<Rightarrow> bool" where
  "is_due now t = (case next_announce t of None \<Rightarrow> True | Some at \<Rightarrow> now \<ge> at)"

definition time_until_next :: "nat \<Rightarrow> tracker_state \<Rightarrow> nat" where
  "time_until_next now t = (case next_announce t of None \<Rightarrow> 0 | Some at \<Rightarrow> at - now)"

definition schedule_immediate :: "nat \<Rightarrow> tracker_state \<Rightarrow> tracker_state" where
  "schedule_immediate now t = t\<lparr>next_announce := Some now\<rparr>"

subsection \<open>Tiers\<close>

record tier =
  trackers :: "tracker_state list"
  tier_active :: nat

definition get_at :: "'a list \<Rightarrow> nat \<Rightarrow> 'a option" where
  "get_at xs i = (if i < length xs then Some (xs ! i) else None)"

definition tier_new :: "bytes list \<Rightarrow> tier" where
  "tier_new urls = \<lparr>trackers = map tracker_state_new urls, tier_active = 0\<rparr>"

definition active_tracker :: "tier \<Rightarrow> tracker_state option" where
  "active_tracker t = get_at (trackers t) (tier_active t)"

definition swap :: "nat \<Rightarrow> nat \<Rightarrow> 'a list \<Rightarrow> 'a list" where
  "swap i j xs = xs[i := xs ! j, j := xs ! i]"

definition promote_active :: "tier \<Rightarrow> tier" where
  "promote_active t =
     (if tier_active t > 0 \<and> tier_active t < length (trackers t)
      then t\<lparr>trackers := swap 0 (tier_active t) (trackers t), tier_active := 0\<rparr>
      else t)"

definition tier_advance :: "tier \<Rightarrow> tier" where
  "tier_advance t = (if trackers t \<noteq> [] then t\<lparr>tier_active := (tier_active t + 1) mod length (trackers t)\<rparr> else t)"

record tier_set =
  tiers :: "tier list"
  set_active :: nat

definition tier_set_new :: "bytes list list \<Rightarrow> tier_set" where
  "tier_set_new tier_urls = \<lparr>tiers = map tier_new tier_urls, set_active = 0\<rparr>"

definition tier_set_single :: "bytes \<Rightarrow> tier_set" where
  "tier_set_single u = \<lparr>tiers = [tier_new [u]], set_active = 0\<rparr>"

definition active_tier :: "tier_set \<Rightarrow> tier option" where
  "active_tier s = get_at (tiers s) (set_active s)"

definition all_tracker_urls :: "tier_set \<Rightarrow> bytes list" where
  "all_tracker_urls s = concat (map (\<lambda>t. map url (trackers t)) (tiers s))"

definition advance_on_failure :: "tier_set \<Rightarrow> tier_set" where
  "advance_on_failure s =
     (let n_tiers = length (tiers s);
          tier_len = (case active_tier s of None \<Rightarrow> 1 | Some t \<Rightarrow> max (length (trackers t)) 1);
          current_active = (case active_tier s of None \<Rightarrow> 0 | Some t \<Rightarrow> tier_active t);
          next_active = (current_active + 1) mod tier_len in
      if next_active = 0 \<and> n_tiers > 1 then s\<lparr>set_active := (set_active s + 1) mod n_tiers\<rparr>
      else case active_tier s of
             None \<Rightarrow> s
           | Some t \<Rightarrow> s\<lparr>tiers := (tiers s)[set_active s := t\<lparr>tier_active := next_active\<rparr>]\<rparr>)"

definition tier_set_on_success :: "tier_set \<Rightarrow> tier_set" where
  "tier_set_on_success s =
     (case active_tier s of
        None \<Rightarrow> s
      | Some t \<Rightarrow> s\<lparr>tiers := (tiers s)[set_active s := promote_active t]\<rparr>)"

subsection \<open>Compact peers\<close>

datatype ip_addr = IpV4 bytes | IpV6 bytes

type_synonym peer_addr = "ip_addr \<times> u16"

record tracker_peer =
  tp_addr :: peer_addr
  tp_peer_id :: "bytes option"

definition MAX_TRACKER_PEERS :: nat where
  "MAX_TRACKER_PEERS = 16384"

definition from_bytes_v4 :: "bytes \<Rightarrow> peer_addr" where
  "from_bytes_v4 b = (IpV4 (take 4 b), u16_from_be_bytes [b ! 4, b ! 5])"

definition from_bytes_v6 :: "bytes \<Rightarrow> peer_addr" where
  "from_bytes_v6 b = (IpV6 (take 16 b), u16_from_be_bytes [b ! 16, b ! 17])"

definition parse_compact_peers_v4_with_limit :: "bytes \<Rightarrow> nat \<Rightarrow> tracker_error + tracker_peer list" where
  "parse_compact_peers_v4_with_limit bs max_peers =
     (if length bs mod 6 \<noteq> 0 then
        Inl (TrackerParseError (ascii ''compact peers v4 length '' @ dec_nat (length bs) @ ascii '' not multiple of 6''))
      else Inr (map (\<lambda>arr. \<lparr>tp_addr = from_bytes_v4 arr, tp_peer_id = None\<rparr>) (take max_peers (as_chunks 6 bs))))"

definition parse_compact_peers_v4 :: "bytes \<Rightarrow> tracker_error + tracker_peer list" where
  "parse_compact_peers_v4 bs = parse_compact_peers_v4_with_limit bs MAX_TRACKER_PEERS"

definition parse_compact_peers_v6_with_limit :: "bytes \<Rightarrow> nat \<Rightarrow> tracker_error + tracker_peer list" where
  "parse_compact_peers_v6_with_limit bs max_peers =
     (if length bs mod 18 \<noteq> 0 then
        Inl (TrackerParseError (ascii ''compact peers v6 length '' @ dec_nat (length bs) @ ascii '' not multiple of 18''))
      else Inr (map (\<lambda>arr. \<lparr>tp_addr = from_bytes_v6 arr, tp_peer_id = None\<rparr>) (take max_peers (as_chunks 18 bs))))"

definition parse_compact_peers_v6 :: "bytes \<Rightarrow> tracker_error + tracker_peer list" where
  "parse_compact_peers_v6 bs = parse_compact_peers_v6_with_limit bs MAX_TRACKER_PEERS"

subsection \<open>Private torrents\<close>

record private_policy =
  is_private :: bool

definition dht_allowed :: "private_policy \<Rightarrow> bool" where
  "dht_allowed p = (\<not> is_private p)"

definition pex_allowed :: "private_policy \<Rightarrow> bool" where
  "pex_allowed p = (\<not> is_private p)"

definition lsd_allowed :: "private_policy \<Rightarrow> bool" where
  "lsd_allowed p = (\<not> is_private p)"

definition peer_source_allowed :: "private_policy \<Rightarrow> bool \<Rightarrow> bool" where
  "peer_source_allowed p from_tracker = (if is_private p then from_tracker else True)"

subsection \<open>What a compact list holds\<close>

text \<open>
  A list of whole entries is accepted and cut to the limit; entry \<open>i\<close> is the address in its bytes. Anything
  else is refused.
\<close>

lemma compact_peers_v4_exact:
  "parse_compact_peers_v4_with_limit bs m = Inr ps \<longleftrightarrow>
     6 dvd length bs \<and> length ps = min m (length bs div 6) \<and>
     (\<forall>i < length ps. ps ! i = \<lparr>tp_addr = from_bytes_v4 (take 6 (drop (i * 6) bs)), tp_peer_id = None\<rparr>)"
  by (auto simp: parse_compact_peers_v4_with_limit_def as_chunks_nth mod_eq_0_iff_dvd intro!: nth_equalityI)

lemma compact_peers_v6_exact:
  "parse_compact_peers_v6_with_limit bs m = Inr ps \<longleftrightarrow>
     18 dvd length bs \<and> length ps = min m (length bs div 18) \<and>
     (\<forall>i < length ps. ps ! i = \<lparr>tp_addr = from_bytes_v6 (take 18 (drop (i * 18) bs)), tp_peer_id = None\<rparr>)"
  by (auto simp: parse_compact_peers_v6_with_limit_def as_chunks_nth mod_eq_0_iff_dvd intro!: nth_equalityI)

subsection \<open>The announce order\<close>

text \<open>
  The tracker an announce goes to, and the states of a set of tiers that has met only failures: in the
  first round the tiers before \<open>i\<close> are left on their last tracker, later all of them are.
\<close>

definition announce_url :: "tier_set \<Rightarrow> bytes option" where
  "announce_url s = map_option url (Option.bind (active_tier s) active_tracker)"

definition tier_at :: "bytes list \<Rightarrow> nat \<Rightarrow> tier" where
  "tier_at urls j = (tier_new urls)\<lparr>tier_active := j\<rparr>"

definition first_round :: "bytes list list \<Rightarrow> nat \<Rightarrow> nat \<Rightarrow> tier_set" where
  "first_round us i j = \<lparr>tiers = map (\<lambda>m. tier_at (us ! m) (if m < i then length (us ! m) - 1 else if m = i then j else 0))
       [0..<length us], set_active = i\<rparr>"

definition later_round :: "bytes list list \<Rightarrow> nat \<Rightarrow> tier_set" where
  "later_round us i = \<lparr>tiers = map (\<lambda>u. tier_at u (length u - 1)) us, set_active = i\<rparr>"

lemma first_round_new: "us \<noteq> [] \<Longrightarrow> first_round us 0 0 = tier_set_new us"
  by (auto simp: first_round_def tier_set_new_def tier_at_def tier_new_def intro!: nth_equalityI)

lemma first_round_next:
  assumes "i < length us" "Suc j < length (us ! i)"
  shows "advance_on_failure (first_round us i j) = first_round us i (Suc j)"
  using assms
  by (auto simp: advance_on_failure_def active_tier_def get_at_def first_round_def tier_at_def tier_new_def Let_def
      intro!: nth_equalityI simp: nth_list_update)

lemma first_round_next_tier:
  assumes "Suc i < length us" "Suc j = length (us ! i)"
  shows "advance_on_failure (first_round us i j) = first_round us (Suc i) 0"
  using assms
  by (auto simp: advance_on_failure_def active_tier_def get_at_def first_round_def tier_at_def tier_new_def Let_def
      intro!: nth_equalityI simp: less_Suc_eq)

lemma first_round_wrap:
  assumes "Suc i = length us" "0 < i" "Suc j = length (us ! i)"
  shows "advance_on_failure (first_round us i j) = later_round us 0"
proof -
  have "length (us ! k) - Suc 0 = j" if "k < length us" "\<not> k < i" for k
  proof -
    have "k = i" using that assms(1) by simp
    then show ?thesis using assms(3) by simp
  qed
  then show ?thesis using assms
    by (auto simp: advance_on_failure_def active_tier_def get_at_def first_round_def later_round_def tier_at_def
      tier_new_def Let_def intro!: nth_equalityI)
qed

lemma later_round_next:
  assumes "i < length us" "1 < length us" "us ! i \<noteq> []"
  shows "advance_on_failure (later_round us i) = later_round us (Suc i mod length us)"
proof -
  have "max (length (us ! i)) 1 = length (us ! i)" using assms(3) by (cases "us ! i") simp_all
  then show ?thesis using assms
    by (simp add: advance_on_failure_def active_tier_def get_at_def later_round_def tier_at_def tier_new_def Let_def)
qed

lemma announce_first_round:
  "i < length us \<Longrightarrow> j < length (us ! i) \<Longrightarrow> announce_url (first_round us i j) = Some (us ! i ! j)"
  by (simp add: announce_url_def active_tier_def get_at_def first_round_def active_tracker_def tier_at_def tier_new_def
      tracker_state_new_def)

lemma announce_later_round:
  "i < length us \<Longrightarrow> us ! i \<noteq> [] \<Longrightarrow> announce_url (later_round us i) = Some (last (us ! i))"
  by (simp add: announce_url_def active_tier_def get_at_def later_round_def active_tracker_def tier_at_def tier_new_def
      tracker_state_new_def last_conv_nth)

lemma first_round_run:
  assumes "i < length us" "j < length (us ! i)"
  shows "(advance_on_failure ^^ j) (first_round us i 0) = first_round us i j"
  using assms(2)
proof (induction j)
  case (Suc j)
  then show ?case using first_round_next [OF assms(1), of j] by simp
qed simp

lemma first_round_tier_run:
  assumes "i < length us" "list_all (\<lambda>u. u \<noteq> []) us"
  shows "(advance_on_failure ^^ length (concat (take i us))) (tier_set_new us) = first_round us i 0"
  using assms(1)
proof (induction i)
  case 0
  then show ?case using first_round_new [of us] by auto
next
  case (Suc i)
  let ?n = "length (us ! i)"
  have n: "0 < ?n" using Suc.prems assms(2) by (simp add: list_all_length)
  have "length (concat (take (Suc i) us)) = Suc ((?n - 1) + length (concat (take i us)))"
    using Suc.prems n by (simp add: take_Suc_conv_app_nth)
  then have "(advance_on_failure ^^ length (concat (take (Suc i) us))) (tier_set_new us) =
      advance_on_failure ((advance_on_failure ^^ (?n - 1)) (first_round us i 0))"
    using Suc by (simp add: funpow_add)
  then show ?case
    using first_round_run [of i us "?n - 1"] first_round_next_tier [of i us "?n - 1"] Suc.prems n by simp
qed

lemma concat_index:
  assumes "n < length (concat xs)"
  shows "\<exists>i j. i < length xs \<and> j < length (xs ! i) \<and> n = j + length (concat (take i xs)) \<and> concat xs ! n = xs ! i ! j"
  using assms
proof (induction xs arbitrary: n)
  case (Cons x xs)
  show ?case
  proof (cases "n < length x")
    case True
    then show ?thesis by (intro exI [of _ 0] exI [of _ n]) (simp add: nth_append)
  next
    case False
    then have "n - length x < length (concat xs)" using Cons.prems by simp
    from Cons.IH [OF this] obtain i j where "i < length xs" "j < length (xs ! i)"
      "n - length x = j + length (concat (take i xs))" "concat xs ! (n - length x) = xs ! i ! j" by blast
    then show ?thesis using False by (intro exI [of _ "Suc i"] exI [of _ j]) (auto simp: nth_append)
  qed
qed simp

lemma later_round_run:
  assumes "1 < length us" "list_all (\<lambda>u. u \<noteq> []) us"
  shows "(advance_on_failure ^^ n) (later_round us 0) = later_round us (n mod length us)"
proof (induction n)
  case (Suc n)
  have "n mod length us < length us" using assms(1) by (intro mod_less_divisor) linarith
  then show ?case
    using Suc later_round_next [of "n mod length us" us] assms by (simp add: list_all_length mod_Suc_eq)
qed simp

lemma whole_round_run:
  assumes "1 < length us" "list_all (\<lambda>u. u \<noteq> []) us"
  shows "(advance_on_failure ^^ length (concat us)) (tier_set_new us) = later_round us 0"
proof -
  let ?i = "length us - 1" and ?n = "length (us ! (length us - 1))"
  have i: "?i < length us" "Suc ?i = length us" "0 < ?i" using assms(1) by auto
  have n: "0 < ?n" using i assms(2) by (simp add: list_all_length)
  have "us = take ?i us @ [us ! ?i]" using i by (metis take_Suc_conv_app_nth take_all_iff order_refl)
  then have "length (concat us) = ?n + length (concat (take ?i us))"
    by (metis add.commute concat.simps concat_append append_Nil2 length_append)
  then have "(advance_on_failure ^^ length (concat us)) (tier_set_new us) =
      advance_on_failure ((advance_on_failure ^^ (?n - 1)) (first_round us ?i 0))"
    using first_round_tier_run [OF i(1) assms(2)] n by (cases ?n) (simp_all add: funpow_add)
  then show ?thesis
    using first_round_run [OF i(1), of "?n - 1"] first_round_wrap [OF i(2,3), of "?n - 1"] n by simp
qed

lemma single_tier_run:
  assumes "u \<noteq> []"
  shows "(advance_on_failure ^^ n) (tier_set_new [u]) = \<lparr>tiers = [tier_at u (n mod length u)], set_active = 0\<rparr>"
proof (induction n)
  case 0
  then show ?case by (simp add: tier_set_new_def tier_at_def tier_new_def)
next
  case (Suc n)
  have "max (length u) 1 = length u" using assms by (cases u) simp_all
  then show ?case
    using Suc by (simp add: advance_on_failure_def active_tier_def get_at_def tier_at_def tier_new_def Let_def mod_Suc_eq)
qed

lemma all_urls_new: "all_tracker_urls (tier_set_new us) = concat us"
proof -
  have "map (url \<circ> tracker_state_new) u = u" for u by (simp add: tracker_state_new_def comp_def)
  then show ?thesis by (simp add: all_tracker_urls_def tier_set_new_def tier_new_def comp_def)
qed

text \<open>
  C17. Where announces go when they keep failing. In the first round every tracker is tried once, in the
  order of the announce list. A single tier is then tried round and round. With several tiers, the later
  rounds try one tracker of each tier, its last: a tier that was exhausted is left on its last tracker, and
  the failure of that one leads on to the next tier at once. The other trackers are not tried again.
\<close>

theorem tracker_rotation:
  assumes "us \<noteq> []" "list_all (\<lambda>u. u \<noteq> []) us"
  shows "announce_url ((advance_on_failure ^^ n) (tier_set_new us)) =
    Some (let urls = all_tracker_urls (tier_set_new us) in
          if length us = 1 then urls ! (n mod length urls)
          else if n < length urls then urls ! n
          else last (us ! ((n - length urls) mod length us)))"
proof (cases "length us = 1")
  case True
  then obtain u where u: "us = [u]" by (cases us) auto
  then have "u \<noteq> []" using assms(2) by simp
  then show ?thesis
    using u single_tier_run [of u n] unfolding all_urls_new
    by (simp add: announce_url_def active_tier_def get_at_def active_tracker_def tier_at_def tier_new_def
        tracker_state_new_def)
next
  case False
  then have k: "1 < length us" using assms(1) by (cases us) auto
  show ?thesis
  proof (cases "n < length (concat us)")
    case True
    from concat_index [OF this] obtain i j where ij: "i < length us" "j < length (us ! i)"
      "n = j + length (concat (take i us))" "concat us ! n = us ! i ! j" by blast
    then have "(advance_on_failure ^^ n) (tier_set_new us) = first_round us i j"
      using first_round_tier_run [OF ij(1) assms(2)] first_round_run [OF ij(1,2)] by (simp add: funpow_add)
    then show ?thesis
      using True False announce_first_round [OF ij(1,2)] ij(4) unfolding all_urls_new by simp
  next
    case gt: False
    let ?m = "n - length (concat us)"
    have m: "?m mod length us < length us" using k by (intro mod_less_divisor) linarith
    have "(advance_on_failure ^^ n) (tier_set_new us) = (advance_on_failure ^^ ?m) (later_round us 0)"
      using gt whole_round_run [OF k assms(2)] funpow_add [of ?m "length (concat us)" advance_on_failure] by simp
    then show ?thesis
      using later_round_run [OF k assms(2), of ?m] announce_later_round [OF m] m assms(2) gt False
      unfolding all_urls_new by (simp add: list_all_length)
  qed
qed

text \<open>Two tiers of two trackers: from the fourth failure on, the first tracker of a tier is left out.\<close>

theorem tracker_rotation_witness:
  "map (\<lambda>n. announce_url ((advance_on_failure ^^ n) (tier_set_new [[[1], [2]], [[3], [4]]]))) [0, 1, 2, 3, 4, 5, 6, 7] =
     map (\<lambda>x. Some [x]) [1, 2, 3, 4, 2, 4, 2, 4]"
proof -
  have "all_tracker_urls (tier_set_new [[[1], [2]], [[3], [4]]]) = [[1], [2], [3], [4]]"
    unfolding all_urls_new by simp
  then show ?thesis by (simp add: tracker_rotation del: funpow.simps flip: numeral_2_eq_2)
qed

subsection \<open>Successes\<close>

text \<open>Every tier keeps an active tracker and its trackers, through failures and successes in any order.\<close>

definition tiers_ok :: "tier_set \<Rightarrow> bool" where
  "tiers_ok s \<longleftrightarrow> set_active s < length (tiers s) \<and> list_all (\<lambda>t. tier_active t < length (trackers t)) (tiers s)"

definition members :: "tier_set \<Rightarrow> tracker_state multiset list" where
  "members s = map (\<lambda>t. mset (trackers t)) (tiers s)"

lemma promote_active_ok:
  assumes "tier_active t < length (trackers t)"
  shows "active_tracker (promote_active t) = active_tracker t" "tier_active (promote_active t) = 0"
    "mset (trackers (promote_active t)) = mset (trackers t)" "trackers (promote_active t) \<noteq> []"
proof -
  have "trackers t \<noteq> []" using assms by auto
  then show "active_tracker (promote_active t) = active_tracker t" "tier_active (promote_active t) = 0"
    "mset (trackers (promote_active t)) = mset (trackers t)" "trackers (promote_active t) \<noteq> []"
    using assms mset_swap [of "tier_active t" "trackers t" 0]
    by (auto simp: promote_active_def active_tracker_def get_at_def swap_def nth_list_update)
qed

lemma tiers_ok_new: "us \<noteq> [] \<Longrightarrow> list_all (\<lambda>u. u \<noteq> []) us \<Longrightarrow> tiers_ok (tier_set_new us)"
  by (simp add: tiers_ok_def tier_set_new_def tier_new_def list_all_iff)

lemma tiers_ok_failure:
  assumes "tiers_ok s"
  shows "tiers_ok (advance_on_failure s)" "members (advance_on_failure s) = members s"
proof -
  let ?t = "tiers s ! set_active s"
  have a: "set_active s < length (tiers s)" and t: "tier_active ?t < length (trackers ?t)"
    using assms by (auto simp: tiers_ok_def list_all_length)
  then have "max (length (trackers ?t)) 1 = length (trackers ?t)" "Suc (tier_active ?t) mod length (trackers ?t) < length (trackers ?t)"
    "Suc (set_active s) mod length (tiers s) < length (tiers s)"
    by (auto intro: mod_less_divisor)
  then show "tiers_ok (advance_on_failure s)"
    using assms a
    by (auto simp: tiers_ok_def advance_on_failure_def active_tier_def get_at_def Let_def list_all_length nth_list_update)
  show "members (advance_on_failure s) = members s"
    using a by (simp add: members_def advance_on_failure_def active_tier_def get_at_def Let_def map_update list_update_same_conv)
qed

lemma tiers_ok_success:
  assumes "tiers_ok s"
  shows "tiers_ok (tier_set_on_success s)" "members (tier_set_on_success s) = members s"
    "announce_url (tier_set_on_success s) = announce_url s"
  using assms
  by (auto simp: tiers_ok_def members_def tier_set_on_success_def active_tier_def get_at_def list_all_length
      nth_list_update map_update announce_url_def promote_active_ok intro!: nth_equalityI)

lemma announce_url_exists: "tiers_ok s \<Longrightarrow> announce_url s \<noteq> None"
  by (simp add: tiers_ok_def announce_url_def active_tier_def get_at_def active_tracker_def list_all_length)

end
