(* ===== verification/Dht_Routing.thy ===== *)
theory Dht_Routing
  imports TNG_Prelude
begin

text \<open>
  Node identifiers and the routing table of the DHT (BEP 5), \<open>node_id.rs\<close> and \<open>routing.rs\<close> of
  \<open>crates/rt-dht\<close>. An identifier is a list of twenty bytes; the order of distances derived in the source
  is the lexicographic one. The endpoint of a node is stored and never inspected, so it is a type
  parameter: the table of IPv6 nodes in the second half of \<open>routing.rs\<close> is the same code at another
  endpoint type.
\<close>

subsection \<open>Identifiers\<close>

type_synonym node_id = bytes

definition node_id_ok :: "node_id \<Rightarrow> bool" where
  "node_id_ok i \<longleftrightarrow> length i = 20"

definition distance :: "node_id \<Rightarrow> node_id \<Rightarrow> bytes" where
  "distance a b = map2 (XOR) a b"

text \<open>The zero bits above the highest one bit of a byte.\<close>

definition u8_leading_zeros :: "u8 \<Rightarrow> nat" where
  "u8_leading_zeros b = length (takeWhile (\<lambda>i. \<not> bit b i) (rev [0..<8]))"

fun leading_zeros_from :: "nat \<Rightarrow> bytes \<Rightarrow> nat option" where
  "leading_zeros_from i [] = None"
| "leading_zeros_from i (b # bs) =
     (if b \<noteq> 0 then Some (i * 8 + u8_leading_zeros b) else leading_zeros_from (Suc i) bs)"

definition leading_zeros :: "node_id \<Rightarrow> nat" where
  "leading_zeros a = (case leading_zeros_from 0 a of None \<Rightarrow> 160 | Some n \<Rightarrow> n)"

definition is_zero :: "bytes \<Rightarrow> bool" where
  "is_zero d \<longleftrightarrow> list_all (\<lambda>b. b = 0) d"

definition bucket_index :: "bytes \<Rightarrow> nat option" where
  "bucket_index d = leading_zeros_from 0 d"

subsection \<open>Buckets\<close>

definition K :: nat where
  "K = 8"

definition BUCKET_COUNT :: nat where
  "BUCKET_COUNT = 160"

record 'a knode =
  kn_id :: node_id
  kn_addr :: 'a

type_synonym 'a kbucket = "'a knode list"

definition bucket_is_full :: "'a kbucket \<Rightarrow> bool" where
  "bucket_is_full b \<longleftrightarrow> length b \<ge> K"

fun refresh_first :: "'a knode \<Rightarrow> 'a kbucket \<Rightarrow> 'a kbucket option" where
  "refresh_first node [] = None"
| "refresh_first node (n # b) =
     (if kn_id n = kn_id node then Some (n\<lparr>kn_addr := kn_addr node\<rparr> # b)
      else map_option (Cons n) (refresh_first node b))"

definition bucket_insert_node :: "'a knode \<Rightarrow> 'a kbucket \<Rightarrow> bool \<times> 'a kbucket" where
  "bucket_insert_node node b =
     (case refresh_first node b of
        Some b' \<Rightarrow> (False, b')
      | None \<Rightarrow> if bucket_is_full b then (False, b) else (True, b @ [node]))"

definition bucket_remove_node :: "node_id \<Rightarrow> 'a kbucket \<Rightarrow> bool \<times> 'a kbucket" where
  "bucket_remove_node i b = (let b' = filter (\<lambda>n. kn_id n \<noteq> i) b in (length b' < length b, b'))"

text \<open>\<open>sort_unstable_by_key\<close> may order equal keys in any way; the distances sorted by are distinct.\<close>

definition closest_in :: "node_id \<Rightarrow> nat \<Rightarrow> 'a knode list \<Rightarrow> 'a knode list" where
  "closest_in target k ns = take k (sort_key (\<lambda>n. distance (kn_id n) target) ns)"

definition bucket_closest_to :: "'a kbucket \<Rightarrow> node_id \<Rightarrow> nat \<Rightarrow> 'a knode list" where
  "bucket_closest_to b target k = closest_in target k b"

subsection \<open>The table\<close>

record 'a routing_table =
  local_id :: node_id
  buckets :: "'a kbucket list"

definition table_new :: "node_id \<Rightarrow> 'a routing_table" where
  "table_new i = \<lparr>local_id = i, buckets = replicate BUCKET_COUNT []\<rparr>"

definition bucket_idx :: "'a routing_table \<Rightarrow> node_id \<Rightarrow> nat" where
  "bucket_idx t i = (case bucket_index (distance (local_id t) i) of None \<Rightarrow> 0 | Some n \<Rightarrow> n)"

definition table_insert :: "'a knode \<Rightarrow> 'a routing_table \<Rightarrow> bool \<times> 'a routing_table" where
  "table_insert node t =
     (if kn_id node = local_id t then (False, t)
      else let idx = bucket_idx t (kn_id node); (r, b) = bucket_insert_node node (buckets t ! idx) in
        (r, t\<lparr>buckets := (buckets t)[idx := b]\<rparr>))"

definition table_remove :: "node_id \<Rightarrow> 'a routing_table \<Rightarrow> bool \<times> 'a routing_table" where
  "table_remove i t =
     (let idx = bucket_idx t i; (r, b) = bucket_remove_node i (buckets t ! idx) in
      (r, t\<lparr>buckets := (buckets t)[idx := b]\<rparr>))"

definition table_closest :: "'a routing_table \<Rightarrow> node_id \<Rightarrow> nat \<Rightarrow> 'a knode list" where
  "table_closest t target k = closest_in target k (concat (buckets t))"

definition total_nodes :: "'a routing_table \<Rightarrow> nat" where
  "total_nodes t = sum_list (map length (buckets t))"

subsection \<open>The metric\<close>

lemma distance_0 [simp]: "distance a a = replicate (length a) 0"
  by (induction a) (simp_all add: distance_def)

lemma distance_sym: "distance a b = distance b a"
  unfolding distance_def by (induction a b rule: list_induct2') (simp_all add: xor.commute)

lemma length_distance [simp]: "length (distance a b) = min (length a) (length b)"
  by (simp add: distance_def)

lemma distance_inj: "length a = length b \<Longrightarrow> length b = length c \<Longrightarrow> distance a c = distance b c \<Longrightarrow> a = b"
proof (induction a b c rule: list_induct3)
  case (Cons x xs y ys z zs)
  have "x = y" if "x XOR z = y XOR z" using arg_cong [OF that, of "\<lambda>w. w XOR z"] by (simp add: xor.assoc)
  then show ?case using Cons by (simp add: distance_def)
qed simp

lemma leading_zeros_from_None: "leading_zeros_from i d = None \<longleftrightarrow> is_zero d"
  by (induction d arbitrary: i) (auto simp: is_zero_def)

lemma u8_leading_zeros_bound: "b \<noteq> 0 \<Longrightarrow> u8_leading_zeros b < 8"
proof (rule ccontr)
  assume b: "b \<noteq> 0" and "\<not> u8_leading_zeros b < 8"
  then have "length (takeWhile (\<lambda>i. \<not> bit b i) (rev [0..<8])) = length (rev [0..<8])"
    using length_takeWhile_le [of "\<lambda>i. \<not> bit b i" "rev [0..<8]"] by (simp add: u8_leading_zeros_def)
  then have "takeWhile (\<lambda>i. \<not> bit b i) (rev [0..<8]) = rev [0..<8]"
    using takeWhile_eq_take [of "\<lambda>i. \<not> bit b i" "rev [0..<8]"] by simp
  then have "\<forall>i < 8. \<not> bit b i" unfolding takeWhile_eq_all_conv by simp
  then show False using b by (auto simp: bit_eq_iff dest: bit_imp_le_length)
qed

lemma leading_zeros_from_bound: "leading_zeros_from i d = Some n \<Longrightarrow> n < (i + length d) * 8"
proof (induction d arbitrary: i)
  case (Cons b d)
  then show ?case using u8_leading_zeros_bound [of b] by (force split: if_splits)
qed simp

lemma bucket_index_bound: "node_id_ok a \<Longrightarrow> node_id_ok b \<Longrightarrow> bucket_index (distance a b) = Some n \<Longrightarrow> n < BUCKET_COUNT"
  using leading_zeros_from_bound [of 0 "distance a b" n]
  by (simp add: bucket_index_def node_id_ok_def BUCKET_COUNT_def)

lemma distance_zero_iff: "length a = length b \<Longrightarrow> is_zero (distance a b) \<longleftrightarrow> a = b"
proof
  assume "length a = length b" "is_zero (distance a b)"
  then show "a = b"
    using distance_inj [of a b b] by (simp add: is_zero_def list_all_length list_eq_iff_nth_eq)
qed (auto simp: is_zero_def list_all_iff)

lemma bucket_index_other:
  assumes "node_id_ok a" "node_id_ok b" "a \<noteq> b"
  obtains n where "bucket_index (distance a b) = Some n" "n < BUCKET_COUNT"
proof -
  have "bucket_index (distance a b) \<noteq> None"
    using assms distance_zero_iff [of a b] by (simp add: bucket_index_def leading_zeros_from_None node_id_ok_def)
  then show ?thesis using that bucket_index_bound [OF assms(1,2)] by blast
qed

subsection \<open>The invariant\<close>

definition bucket_ok :: "node_id \<Rightarrow> nat \<Rightarrow> 'a kbucket \<Rightarrow> bool" where
  "bucket_ok self i b \<longleftrightarrow> length b \<le> K \<and> distinct (map kn_id b) \<and>
     list_all (\<lambda>n. node_id_ok (kn_id n) \<and> bucket_index (distance self (kn_id n)) = Some i) b"

definition table_ok :: "'a routing_table \<Rightarrow> bool" where
  "table_ok t \<longleftrightarrow> node_id_ok (local_id t) \<and> length (buckets t) = BUCKET_COUNT \<and>
     (\<forall>i < BUCKET_COUNT. bucket_ok (local_id t) i (buckets t ! i))"

lemma table_new_ok: "node_id_ok i \<Longrightarrow> table_ok (table_new i)"
  by (simp add: table_ok_def table_new_def bucket_ok_def)

lemma refresh_first_None: "refresh_first node b = None \<longleftrightarrow> kn_id node \<notin> kn_id ` set b"
  by (induction b) auto

lemma refresh_first_ids: "refresh_first node b = Some b' \<Longrightarrow> map kn_id b' = map kn_id b"
  by (induction b arbitrary: b') (auto split: if_splits)

lemma bucket_ok_ids:
  "bucket_ok self i b \<longleftrightarrow> length (map kn_id b) \<le> K \<and> distinct (map kn_id b) \<and>
     list_all (\<lambda>n. node_id_ok n \<and> bucket_index (distance self n) = Some i) (map kn_id b)"
  by (simp add: bucket_ok_def list_all_iff)

lemma bucket_insert_ok:
  assumes "bucket_ok self i b" "node_id_ok (kn_id node)" "bucket_index (distance self (kn_id node)) = Some i"
  shows "bucket_ok self i (snd (bucket_insert_node node b))"
proof (cases "refresh_first node b")
  case None
  then have "kn_id node \<notin> kn_id ` set b" using refresh_first_None [of node b] by simp
  then show ?thesis using assms None
    by (auto simp: bucket_insert_node_def bucket_ok_def bucket_is_full_def)
next
  case (Some b')
  then show ?thesis using assms(1) refresh_first_ids [OF Some] by (simp add: bucket_insert_node_def bucket_ok_ids)
qed

lemma bucket_remove_ok: "bucket_ok self i b \<Longrightarrow> bucket_ok self i (snd (bucket_remove_node n b))"
  by (auto simp: bucket_ok_def bucket_remove_node_def Let_def list_all_iff distinct_map_filter
      intro: le_trans [OF length_filter_le])

lemma bucket_idx_other:
  assumes "table_ok t" "node_id_ok i" "i \<noteq> local_id t"
  shows "bucket_index (distance (local_id t) i) = Some (bucket_idx t i)" "bucket_idx t i < BUCKET_COUNT"
proof -
  have "node_id_ok (local_id t)" using assms(1) by (simp add: table_ok_def)
  then obtain n where "bucket_index (distance (local_id t) i) = Some n" "n < BUCKET_COUNT"
    using bucket_index_other assms(2,3) by metis
  then show "bucket_index (distance (local_id t) i) = Some (bucket_idx t i)" "bucket_idx t i < BUCKET_COUNT"
    by (simp_all add: bucket_idx_def)
qed

lemma bucket_idx_local: "bucket_idx t (local_id t) = 0"
  using leading_zeros_from_None [of 0 "distance (local_id t) (local_id t)"]
  by (simp add: bucket_idx_def bucket_index_def is_zero_def list_all_iff)

lemma bucket_idx_bound: "table_ok t \<Longrightarrow> node_id_ok i \<Longrightarrow> bucket_idx t i < BUCKET_COUNT"
  using bucket_idx_other(2) [of t i] bucket_idx_local [of t]
  by (cases "i = local_id t") (auto simp: BUCKET_COUNT_def)

lemma table_insert_ok:
  assumes "table_ok t" "node_id_ok (kn_id node)"
  shows "table_ok (snd (table_insert node t))"
proof (cases "kn_id node = local_id t")
  case False
  note idx = bucket_idx_other [OF assms False]
  have "bucket_ok (local_id t) (bucket_idx t (kn_id node)) (snd (bucket_insert_node node (buckets t ! bucket_idx t (kn_id node))))"
    using assms idx by (intro bucket_insert_ok) (auto simp: table_ok_def)
  then show ?thesis using assms False idx(2)
    by (auto simp: table_insert_def table_ok_def Let_def case_prod_beta nth_list_update)
qed (use assms in \<open>simp add: table_insert_def\<close>)

lemma table_remove_ok:
  assumes "table_ok t" "node_id_ok i"
  shows "table_ok (snd (table_remove i t))"
  using assms bucket_remove_ok [of "local_id t" "bucket_idx t i" "buckets t ! bucket_idx t i" i] bucket_idx_bound [OF assms]
  by (auto simp: table_remove_def table_ok_def Let_def case_prod_beta nth_list_update)

subsection \<open>Sequences of calls\<close>

datatype 'a table_call = InsertNode "'a knode" | RemoveNode node_id

fun table_call_ok :: "'a table_call \<Rightarrow> bool" where
  "table_call_ok (InsertNode n) \<longleftrightarrow> node_id_ok (kn_id n)"
| "table_call_ok (RemoveNode i) \<longleftrightarrow> node_id_ok i"

fun run_call :: "'a table_call \<Rightarrow> 'a routing_table \<Rightarrow> 'a routing_table" where
  "run_call (InsertNode n) t = snd (table_insert n t)"
| "run_call (RemoveNode i) t = snd (table_remove i t)"

lemma local_id_call [simp]: "local_id (run_call c t) = local_id t"
  by (cases c) (simp_all add: table_insert_def table_remove_def Let_def case_prod_beta)

lemma table_calls_keep_ok: "table_ok t \<Longrightarrow> list_all table_call_ok cs \<Longrightarrow> table_ok (fold run_call cs t)"
proof (induction cs arbitrary: t)
  case (Cons c cs)
  then show ?case by (cases c) (simp_all add: table_insert_ok table_remove_ok)
qed simp

lemma distinct_concat_index:
  assumes "\<forall>i < length bs. distinct (map f (bs ! i)) \<and> (\<forall>n \<in> set (bs ! i). g (f n) = Some (i + m))"
  shows "distinct (map f (concat bs)) \<and> (\<forall>n \<in> set (concat bs). \<exists>j \<ge> m. g (f n) = Some j)"
  using assms
proof (induction bs arbitrary: m)
  case (Cons b bs)
  have "distinct (map f (concat bs)) \<and> (\<forall>n \<in> set (concat bs). \<exists>j \<ge> Suc m. g (f n) = Some j)"
    using Cons.prems by (intro Cons.IH) auto
  moreover have "distinct (map f b) \<and> (\<forall>n \<in> set b. g (f n) = Some m)" using Cons.prems by force
  moreover have False if "f x = f y" "g (f x) = Some m" "\<exists>j \<ge> Suc m. g (f y) = Some j" for x y using that by auto
  ultimately show ?case by (auto, blast, (metis Suc_leD)+)
qed simp

definition table_nodes :: "'a routing_table \<Rightarrow> 'a knode list" where
  "table_nodes t = concat (buckets t)"

lemma table_distinct: "table_ok t \<Longrightarrow> distinct (map kn_id (table_nodes t))"
  unfolding table_nodes_def
  using distinct_concat_index [of "buckets t" kn_id "\<lambda>i. bucket_index (distance (local_id t) i)" 0]
  by (simp add: table_ok_def bucket_ok_def list_all_iff)

lemma table_node:
  assumes "table_ok t"
  shows "n \<in> set (table_nodes t) \<longleftrightarrow> node_id_ok (kn_id n) \<and> kn_id n \<noteq> local_id t \<and> n \<in> set (buckets t ! bucket_idx t (kn_id n))"
proof
  assume "n \<in> set (table_nodes t)"
  then obtain i where i: "i < BUCKET_COUNT" "n \<in> set (buckets t ! i)"
    using assms by (auto simp: table_nodes_def table_ok_def set_conv_nth [of "buckets t"])
  then have *: "node_id_ok (kn_id n)" "bucket_index (distance (local_id t) (kn_id n)) = Some i"
    using assms by (auto simp: table_ok_def bucket_ok_def list_all_iff)
  moreover have "kn_id n \<noteq> local_id t"
  proof
    assume "kn_id n = local_id t"
    then have "is_zero (distance (local_id t) (kn_id n))" by (simp add: is_zero_def list_all_iff)
    then show False using *(2) leading_zeros_from_None [of 0 "distance (local_id t) (kn_id n)"] by (simp add: bucket_index_def)
  qed
  ultimately show "node_id_ok (kn_id n) \<and> kn_id n \<noteq> local_id t \<and> n \<in> set (buckets t ! bucket_idx t (kn_id n))"
    using i by (simp add: bucket_idx_def)
next
  assume n: "node_id_ok (kn_id n) \<and> kn_id n \<noteq> local_id t \<and> n \<in> set (buckets t ! bucket_idx t (kn_id n))"
  then have "bucket_idx t (kn_id n) < length (buckets t)" using assms bucket_idx_bound [OF assms] by (simp add: table_ok_def)
  then show "n \<in> set (table_nodes t)" using n nth_mem by (auto simp: table_nodes_def)
qed

subsection \<open>Closest nodes\<close>

lemma closest_in_nearest:
  fixes ns :: "'a knode list"
  assumes "distinct (map kn_id ns)" "list_all (\<lambda>n. node_id_ok (kn_id n)) ns" "node_id_ok target"
  defines "d \<equiv> \<lambda>n :: 'a knode. distance (kn_id n) target"
  shows "length (closest_in target k ns) = min k (length ns)" "set (closest_in target k ns) \<subseteq> set ns"
    "sorted_wrt (<) (map d (closest_in target k ns))"
    "c \<in> set (closest_in target k ns) \<Longrightarrow> n \<in> set ns \<Longrightarrow> n \<notin> set (closest_in target k ns) \<Longrightarrow> d c < d n"
proof -
  let ?q = "sort_key d ns"
  have cs: "closest_in target k ns = take k ?q" by (simp add: closest_in_def d_def)
  show "length (closest_in target k ns) = min k (length ns)" "set (closest_in target k ns) \<subseteq> set ns"
    using set_take_subset [of k ?q] by (auto simp: cs)
  have "inj_on d (set ns)"
  proof (rule inj_onI)
    fix x y assume a: "x \<in> set ns" "y \<in> set ns" "d x = d y"
    then have "kn_id x = kn_id y"
      using assms(2,3) distance_inj [of "kn_id x" "kn_id y" target] by (simp add: d_def list_all_iff node_id_ok_def)
    then show "x = y" using a assms(1) by (auto simp: distinct_map dest: inj_onD)
  qed
  then have "sorted (map d ?q)" "distinct (map d ?q)" using assms(1) by (simp_all add: distinct_map)
  then have "sorted_wrt (<) (map d (take k ?q @ drop k ?q))" by (simp add: strict_sorted_iff del: map_append)
  then have s: "sorted_wrt (<) (map d (take k ?q))" "\<forall>x \<in> set (take k ?q). \<forall>y \<in> set (drop k ?q). d x < d y"
    unfolding map_append sorted_wrt_append by simp_all
  then show "sorted_wrt (<) (map d (closest_in target k ns))" by (simp add: cs)
  show "d c < d n" if "c \<in> set (closest_in target k ns)" "n \<in> set ns" "n \<notin> set (closest_in target k ns)"
  proof -
    have "n \<in> set (drop k ?q)" using that set_append [of "take k ?q" "drop k ?q"] by (auto simp: cs)
    then show ?thesis using s(2) that(1) by (simp add: cs)
  qed
qed

text \<open>
  C16. After any calls on a new table, a bucket holds at most eight nodes, and \<open>closest\<close> returns the nodes
  nearest to the target among all that are stored: as many as asked for if there are that many, in
  strictly increasing distance, each nearer than every stored node that is not returned.
\<close>

theorem closest_nearest:
  assumes "node_id_ok self" "list_all table_call_ok calls" "node_id_ok target"
  shows "let t = fold run_call calls (table_new self); cs = table_closest t target k in
    list_all (\<lambda>b. length b \<le> K) (buckets t) \<and>
    length cs = min k (total_nodes t) \<and> set cs \<subseteq> set (table_nodes t) \<and>
    sorted_wrt (<) (map (\<lambda>n. distance (kn_id n) target) cs) \<and>
    (\<forall>c \<in> set cs. \<forall>n \<in> set (table_nodes t) - set cs. distance (kn_id c) target < distance (kn_id n) target)"
proof -
  let ?t = "fold run_call calls (table_new self)"
  have ok: "table_ok ?t" using table_calls_keep_ok [OF table_new_ok [OF assms(1)] assms(2)] .
  have total: "total_nodes ?t = length (table_nodes ?t)" by (simp add: total_nodes_def table_nodes_def length_concat)
  have all_ok: "list_all (\<lambda>n. node_id_ok (kn_id n)) (table_nodes ?t)" using table_node [OF ok] by (simp add: list_all_iff)
  note nearest = closest_in_nearest [OF table_distinct [OF ok] all_ok assms(3)]
  have "list_all (\<lambda>b. length b \<le> K) (buckets ?t)" using ok by (simp add: table_ok_def bucket_ok_def list_all_length)
  then show ?thesis
    using nearest by (simp add: Let_def table_closest_def total table_nodes_def [symmetric])
qed

definition id_of :: "u8 \<Rightarrow> node_id" where
  "id_of b = replicate 19 0 @ [b]"

definition sample_calls :: "unit table_call list" where
  "sample_calls = [InsertNode \<lparr>kn_id = id_of 9, kn_addr = ()\<rparr>, InsertNode \<lparr>kn_id = id_of 2, kn_addr = ()\<rparr>,
     InsertNode \<lparr>kn_id = id_of 0, kn_addr = ()\<rparr>, InsertNode \<lparr>kn_id = id_of 200, kn_addr = ()\<rparr>, RemoveNode (id_of 2)]"

theorem closest_nearest_witness:
  "length (table_closest (fold run_call sample_calls (table_new (id_of 0))) (id_of 8) 1) =
     min 1 (total_nodes (fold run_call sample_calls (table_new (id_of 0))))"
proof -
  have "list_all table_call_ok sample_calls" by (simp add: sample_calls_def node_id_ok_def id_of_def)
  from closest_nearest [OF _ this, of "id_of 0" "id_of 8" 1] show ?thesis
    by (simp add: Let_def node_id_ok_def id_of_def)
qed

subsection \<open>The table as a map\<close>

text \<open>
  The specification is a map from identifiers to endpoints. A node other than the local one is entered,
  or its endpoint replaced, unless it is new and eight nodes at its distance class are known already.
\<close>

definition spec_insert :: "node_id \<Rightarrow> 'a knode \<Rightarrow> (node_id \<rightharpoonup> 'a) \<Rightarrow> node_id \<rightharpoonup> 'a" where
  "spec_insert self node m =
     (let i = kn_id node; peers = {j \<in> dom m. bucket_index (distance self j) = bucket_index (distance self i)} in
      if i \<noteq> self \<and> (i \<in> dom m \<or> card peers < K) then m(i \<mapsto> kn_addr node) else m)"

fun spec_call :: "node_id \<Rightarrow> 'a table_call \<Rightarrow> (node_id \<rightharpoonup> 'a) \<Rightarrow> node_id \<rightharpoonup> 'a" where
  "spec_call self (InsertNode node) m = spec_insert self node m"
| "spec_call self (RemoveNode i) m = m(i := None)"

definition pairs :: "'a kbucket \<Rightarrow> (node_id \<times> 'a) list" where
  "pairs b = map (\<lambda>n. (kn_id n, kn_addr n)) b"

definition contents :: "'a routing_table \<Rightarrow> node_id \<rightharpoonup> 'a" where
  "contents t = map_of (pairs (table_nodes t))"

lemma fst_pairs [simp]: "map fst (pairs b) = map kn_id b"
  by (simp add: pairs_def)

lemma pairs_Some:
  assumes "distinct (map kn_id b)"
  shows "map_of (pairs b) i = Some a \<longleftrightarrow> (\<exists>n \<in> set b. kn_id n = i \<and> kn_addr n = a)"
proof -
  have "distinct (map fst (pairs b))" using assms by simp
  then show ?thesis by (auto simp: map_of_eq_Some_iff) (auto simp: pairs_def)
qed

lemma dom_pairs: "dom (map_of (pairs b)) = kn_id ` set b"
  by (simp add: dom_map_of_conv_image_fst pairs_def image_image)

lemma refresh_first_pairs:
  "refresh_first node b = Some b' \<Longrightarrow> map_of (pairs b') = (map_of (pairs b))(kn_id node \<mapsto> kn_addr node)"
  by (induction b arbitrary: b') (auto simp: pairs_def split: if_splits)

lemma bucket_insert_pairs:
  "map_of (pairs (snd (bucket_insert_node node b))) =
     (if kn_id node \<in> kn_id ` set b \<or> length b < K then (map_of (pairs b))(kn_id node \<mapsto> kn_addr node) else map_of (pairs b))"
proof (cases "refresh_first node b")
  case None
  then have n: "kn_id node \<notin> kn_id ` set b" using refresh_first_None [of node b] by simp
  then have "map_of (pairs b) (kn_id node) = None" using dom_pairs [of b] by (metis domIff)
  then show ?thesis using None n
    by (auto simp: bucket_insert_node_def bucket_is_full_def) (auto simp: pairs_def map_add_def fun_eq_iff split: option.splits)
next
  case (Some b')
  then have "kn_id node \<in> kn_id ` set b" using refresh_first_None [of node b] by auto
  then show ?thesis using Some refresh_first_pairs [OF Some] by (simp add: bucket_insert_node_def)
qed

lemma bucket_remove_pairs: "map_of (pairs (snd (bucket_remove_node i b))) = (map_of (pairs b))(i := None)"
  by (induction b) (auto simp: bucket_remove_node_def pairs_def Let_def)

lemma contents_lookup:
  assumes "table_ok t"
  shows "contents t i = (if node_id_ok i \<and> i \<noteq> local_id t then map_of (pairs (buckets t ! bucket_idx t i)) i else None)"
proof -
  have b: "distinct (map kn_id (buckets t ! bucket_idx t i))" if "node_id_ok i"
    using assms bucket_idx_bound [OF assms that] by (simp add: table_ok_def bucket_ok_def)
  have "contents t i = Some a \<longleftrightarrow>
      node_id_ok i \<and> i \<noteq> local_id t \<and> map_of (pairs (buckets t ! bucket_idx t i)) i = Some a" for a
    unfolding contents_def pairs_Some [OF table_distinct [OF assms]]
    using pairs_Some [OF b, of i a] table_node [OF assms] by blast
  then show ?thesis by (metis not_Some_eq)
qed

lemma contents_dom: "table_ok t \<Longrightarrow> dom (contents t) = kn_id ` set (table_nodes t)"
  by (simp add: contents_def dom_pairs)

lemma same_bucket:
  assumes "table_ok t" "node_id_ok i" "i \<noteq> local_id t"
  shows "{j \<in> dom (contents t). bucket_index (distance (local_id t) j) = bucket_index (distance (local_id t) i)} =
    kn_id ` set (buckets t ! bucket_idx t i)" (is "?L = ?R")
proof -
  note idx = bucket_idx_other [OF assms]
  have "bucket_idx t j = bucket_idx t i"
    if "bucket_index (distance (local_id t) j) = Some (bucket_idx t i)" for j using that by (simp add: bucket_idx_def)
  then have "n \<in> set (buckets t ! bucket_idx t i)"
    if "n \<in> set (table_nodes t)" "bucket_index (distance (local_id t) (kn_id n)) = Some (bucket_idx t i)" for n
    using that table_node [OF assms(1), of n] by simp
  then have "?L \<subseteq> ?R" unfolding contents_dom [OF assms(1)] idx(1) by blast
  moreover have "?R \<subseteq> ?L"
  proof
    fix j assume "j \<in> ?R"
    then obtain n where n: "n \<in> set (buckets t ! bucket_idx t i)" "j = kn_id n" by auto
    then have "n \<in> set (table_nodes t)" using idx(2) assms(1) nth_mem [of "bucket_idx t i" "buckets t"]
      by (auto simp: table_nodes_def table_ok_def)
    moreover have "bucket_index (distance (local_id t) j) = Some (bucket_idx t i)"
      using n idx(2) assms(1) by (auto simp: table_ok_def bucket_ok_def list_all_iff)
    ultimately show "j \<in> ?L" using n(2) idx(1) contents_dom [OF assms(1)] by simp
  qed
  ultimately show ?thesis by blast
qed

lemma insert_refines:
  assumes "table_ok t" "node_id_ok (kn_id node)"
  shows "contents (snd (table_insert node t)) = spec_insert (local_id t) node (contents t)"
proof (cases "kn_id node = local_id t")
  case False
  let ?i = "kn_id node" and ?t = "snd (table_insert node t)"
  let ?b = "buckets t ! bucket_idx t ?i"
  note idx = bucket_idx_other [OF assms False]
  have "distinct (map kn_id ?b)" using assms(1) idx(2) by (simp add: table_ok_def bucket_ok_def)
  then have "card (kn_id ` set ?b) = length ?b" using distinct_card [of "map kn_id ?b"] by simp
  moreover have "?i \<in> dom (contents t) \<longleftrightarrow> ?i \<in> kn_id ` set ?b"
    using same_bucket [OF assms False] by blast
  ultimately have spec: "spec_insert (local_id t) node (contents t) =
      (if ?i \<in> kn_id ` set ?b \<or> length ?b < K then (contents t)(?i \<mapsto> kn_addr node) else contents t)"
    using False by (simp add: spec_insert_def Let_def same_bucket [OF assms False])
  have t: "?t = t\<lparr>buckets := (buckets t)[bucket_idx t ?i := snd (bucket_insert_node node ?b)]\<rparr>"
    using False by (simp add: table_insert_def Let_def case_prod_beta)
  have "bucket_idx ?t j = bucket_idx t j" for j by (simp add: t bucket_idx_def)
  moreover have "local_id ?t = local_id t" "length (buckets t) = BUCKET_COUNT" using assms(1) by (simp_all add: t table_ok_def)
  ultimately show ?thesis
    unfolding spec
    using contents_lookup [OF assms(1)] contents_lookup [OF table_insert_ok [OF assms]] idx(2) assms(2) False
    by (auto simp: fun_eq_iff t nth_list_update bucket_insert_pairs)
qed (simp add: table_insert_def spec_insert_def Let_def)

lemma remove_refines:
  assumes "table_ok t" "node_id_ok i"
  shows "contents (snd (table_remove i t)) = (contents t)(i := None)"
proof -
  let ?t = "snd (table_remove i t)"
  have t: "?t = t\<lparr>buckets := (buckets t)[bucket_idx t i := snd (bucket_remove_node i (buckets t ! bucket_idx t i))]\<rparr>"
    by (simp add: table_remove_def Let_def case_prod_beta)
  have "bucket_idx ?t j = bucket_idx t j" for j by (simp add: t bucket_idx_def)
  moreover have "local_id ?t = local_id t" "length (buckets t) = BUCKET_COUNT" using assms(1) by (simp_all add: t table_ok_def)
  ultimately show ?thesis
    using contents_lookup [OF assms(1)] contents_lookup [OF table_remove_ok [OF assms]] bucket_idx_bound [OF assms]
    by (auto simp: fun_eq_iff t nth_list_update bucket_remove_pairs)
qed

lemma calls_refine:
  assumes "table_ok t" "list_all table_call_ok calls"
  shows "contents (fold run_call calls t) = fold (spec_call (local_id t)) calls (contents t)"
  using assms
proof (induction calls arbitrary: t)
  case (Cons c calls)
  have "contents (run_call c t) = spec_call (local_id t) c (contents t)"
    using Cons.prems by (cases c) (simp_all add: insert_refines remove_refines)
  moreover have "table_ok (run_call c t)" using table_calls_keep_ok [of t "[c]"] Cons.prems by simp
  ultimately show ?case using Cons.IH [of "run_call c t"] Cons.prems by simp
qed simp

text \<open>
  C15. The routing table implements a bounded map: after any calls on a new table, the stored identifiers and
  endpoints are those of the map after the same calls. A known identifier takes the new endpoint, also in
  a full bucket; a new one is entered if fewer than eight nodes share its bucket; the local identifier is
  never entered; a removal forgets the identifier and nothing else.
\<close>

theorem routing_table_refines:
  assumes "node_id_ok self" "list_all table_call_ok calls"
  shows "contents (fold run_call calls (table_new self)) = fold (spec_call self) calls Map.empty"
proof -
  have "contents (table_new self :: 'a routing_table) = Map.empty"
    by (simp add: contents_def table_nodes_def table_new_def pairs_def)
  then show ?thesis using calls_refine [OF table_new_ok [OF assms(1)] assms(2)] by (simp add: table_new_def)
qed

theorem routing_table_refines_witness:
  "contents (fold run_call sample_calls (table_new (id_of 0))) = [id_of 9 \<mapsto> (), id_of 200 \<mapsto> ()]"
proof -
  have "list_all table_call_ok sample_calls" by (simp add: sample_calls_def node_id_ok_def id_of_def)
  from routing_table_refines [OF _ this, of "id_of 0"]
  have "contents (fold run_call sample_calls (table_new (id_of 0))) = fold (spec_call (id_of 0)) sample_calls Map.empty"
    by (simp add: node_id_ok_def id_of_def)
  also have "\<dots> = [id_of 9 \<mapsto> (), id_of 200 \<mapsto> ()]"
  proof -
    have two: "card {j. (j = a \<or> j = b) \<and> P j} < K" for a b :: node_id and P
    proof -
      have "card {j. (j = a \<or> j = b) \<and> P j} \<le> card {a, b}" by (rule card_mono) auto
      also have "\<dots> \<le> 2" by (simp add: card_insert_if)
      finally show ?thesis by (simp add: K_def)
    qed
    moreover have "card {j. j = a \<and> P j} < K" for a :: node_id and P using two [of a a P] by simp
    moreover have "K \<noteq> 0" by (simp add: K_def)
    moreover have "id_of a = id_of b \<longleftrightarrow> a = b" for a b by (simp add: id_of_def)
    ultimately show ?thesis by (simp add: sample_calls_def spec_insert_def Let_def fun_upd_twist)
  qed
  finally show ?thesis .
qed

end
