(* ===== verification/Dht_Krpc.thy ===== *)
theory Dht_Krpc
  imports Bencode_Laws Dht_Routing
begin

text \<open>
  The KRPC messages of the DHT (BEP 5, BEP 32), \<open>krpc.rs\<close> of \<open>crates/rt-dht\<close>, over the bencode codec and the
  nodes of the routing table. Fixed-size arrays are byte lists and their sizes are part of \<open>wf_krpc\<close>; an
  \<open>i64\<close> is an integer in its range.
\<close>

subsection \<open>Messages\<close>

datatype krpc_error = KrpcBencode bencode_error | KrpcInvalid string | UnsupportedQuery bytes

record addr_v4 =
  v4_ip :: bytes
  v4_port :: u16

record addr_v6 =
  v6_ip :: bytes
  v6_port :: u16
  v6_flowinfo :: u32
  v6_scope_id :: u32

datatype dht_addr = DhtV4 addr_v4 | DhtV6 addr_v6

datatype dht_want = WantIpv4 | WantIpv6

datatype dht_query =
    Ping node_id
  | FindNode node_id node_id
  | FindNodeWithWant node_id node_id "dht_want list"
  | GetPeers node_id bytes
  | GetPeersWithWant node_id bytes "dht_want list"
  | AnnouncePeer node_id bool bytes u16 bytes

fun query_name :: "dht_query \<Rightarrow> bytes" where
  "query_name (Ping _) = ascii ''ping''"
| "query_name (FindNode _ _) = ascii ''find_node''"
| "query_name (FindNodeWithWant _ _ _) = ascii ''find_node''"
| "query_name (GetPeers _ _) = ascii ''get_peers''"
| "query_name (GetPeersWithWant _ _ _) = ascii ''get_peers''"
| "query_name (AnnouncePeer _ _ _ _ _) = ascii ''announce_peer''"

record dht_response =
  dr_id :: node_id
  dr_nodes :: "addr_v4 knode list"
  dr_nodes6 :: "addr_v6 knode list"
  dr_values :: "dht_addr list"
  dr_token :: "bytes option"

definition dht_response_new :: "node_id \<Rightarrow> dht_response" where
  "dht_response_new i = \<lparr>dr_id = i, dr_nodes = [], dr_nodes6 = [], dr_values = [], dr_token = None\<rparr>"

record dht_error =
  de_code :: int
  de_message :: bytes

datatype krpc_message = KQuery bytes dht_query | KResponse bytes dht_response | KError bytes dht_error

subsection \<open>Compact forms\<close>

definition encode_compact_nodes :: "addr_v4 knode list \<Rightarrow> bytes" where
  "encode_compact_nodes ns = concat (map (\<lambda>n. kn_id n @ v4_ip (kn_addr n) @ u16_to_be_bytes (v4_port (kn_addr n))) ns)"

definition parse_compact_nodes :: "bytes \<Rightarrow> krpc_error + addr_v4 knode list" where
  "parse_compact_nodes bs =
     (if length bs mod 26 \<noteq> 0 then Inl (KrpcInvalid ''compact nodes length is not a multiple of 26'')
      else Inr (map (\<lambda>c. \<lparr>kn_id = take 20 c,
                 kn_addr = \<lparr>v4_ip = [c ! 20, c ! 21, c ! 22, c ! 23], v4_port = u16_from_be_bytes [c ! 24, c ! 25]\<rparr>\<rparr>)
              (as_chunks 26 bs)))"

definition encode_compact_nodes6 :: "addr_v6 knode list \<Rightarrow> bytes" where
  "encode_compact_nodes6 ns = concat (map (\<lambda>n. kn_id n @ v6_ip (kn_addr n) @ u16_to_be_bytes (v6_port (kn_addr n))) ns)"

definition new_v6 :: "bytes \<Rightarrow> u16 \<Rightarrow> addr_v6" where
  "new_v6 ip port = \<lparr>v6_ip = ip, v6_port = port, v6_flowinfo = 0, v6_scope_id = 0\<rparr>"

definition parse_compact_nodes6 :: "bytes \<Rightarrow> krpc_error + addr_v6 knode list" where
  "parse_compact_nodes6 bs =
     (if length bs mod 38 \<noteq> 0 then Inl (KrpcInvalid ''compact IPv6 nodes length is not a multiple of 38'')
      else Inr (map (\<lambda>c. \<lparr>kn_id = take 20 c,
                 kn_addr = new_v6 (subslice c 20 36) (u16_from_be_bytes [c ! 36, c ! 37])\<rparr>)
              (as_chunks 38 bs)))"

definition compact_v4 :: "bytes \<Rightarrow> dht_addr" where
  "compact_v4 c = DhtV4 \<lparr>v4_ip = [c ! 0, c ! 1, c ! 2, c ! 3], v4_port = u16_from_be_bytes [c ! 4, c ! 5]\<rparr>"

definition compact_v6 :: "bytes \<Rightarrow> dht_addr" where
  "compact_v6 c = DhtV6 (new_v6 (take 16 c) (u16_from_be_bytes [c ! 16, c ! 17]))"

definition parse_compact_peers :: "bytes \<Rightarrow> krpc_error + dht_addr list" where
  "parse_compact_peers bs =
     (if length bs = 18 then Inr [compact_v6 bs]
      else if length bs mod 6 = 0 then Inr (map compact_v4 (as_chunks 6 bs))
      else if length bs mod 18 = 0 then Inr (map compact_v6 (as_chunks 18 bs))
      else Inl (KrpcInvalid ''compact peers length is not a multiple of 6 or 18''))"

definition parse_compact_peer_value :: "bytes \<Rightarrow> krpc_error + dht_addr" where
  "parse_compact_peer_value bs =
     (if length bs = 6 then Inr (compact_v4 bs)
      else if length bs = 18 then Inr (compact_v6 bs)
      else Inl (KrpcInvalid ''compact peer value must contain exactly one IPv4 or IPv6 peer''))"

fun encode_compact_peer :: "dht_addr \<Rightarrow> bytes" where
  "encode_compact_peer (DhtV4 a) = v4_ip a @ u16_to_be_bytes (v4_port a)"
| "encode_compact_peer (DhtV6 a) = v6_ip a @ u16_to_be_bytes (v6_port a)"

definition encode_compact_peer_values :: "dht_addr list \<Rightarrow> bytes list" where
  "encode_compact_peer_values ps = map encode_compact_peer ps"

subsection \<open>Encoding\<close>

fun query_id :: "dht_query \<Rightarrow> node_id" where
  "query_id (Ping i) = i"
| "query_id (FindNode i _) = i"
| "query_id (FindNodeWithWant i _ _) = i"
| "query_id (GetPeers i _) = i"
| "query_id (GetPeersWithWant i _ _) = i"
| "query_id (AnnouncePeer i _ _ _ _) = i"

fun want_bytes :: "dht_want \<Rightarrow> bytes" where
  "want_bytes WantIpv4 = ascii ''n4''"
| "want_bytes WantIpv6 = ascii ''n6''"

definition push_want :: "(bytes \<times> bvalue) list \<Rightarrow> dht_want list \<Rightarrow> (bytes \<times> bvalue) list" where
  "push_want args want = args @ [(ascii ''want'', BList (map (\<lambda>w. BBytes (want_bytes w)) want))]"

definition query_args :: "dht_query \<Rightarrow> (bytes \<times> bvalue) list" where
  "query_args q =
     (let args = [(ascii ''id'', BBytes (query_id q))] in
      case q of
        Ping _ \<Rightarrow> args
      | FindNode _ target \<Rightarrow> args @ [(ascii ''target'', BBytes target)]
      | FindNodeWithWant _ target want \<Rightarrow> push_want (args @ [(ascii ''target'', BBytes target)]) want
      | GetPeers _ hash \<Rightarrow> args @ [(ascii ''info_hash'', BBytes hash)]
      | GetPeersWithWant _ hash want \<Rightarrow> push_want (args @ [(ascii ''info_hash'', BBytes hash)]) want
      | AnnouncePeer _ implied hash port token \<Rightarrow>
          args @ [(ascii ''implied_port'', BInt (if implied then 1 else 0)), (ascii ''info_hash'', BBytes hash),
                  (ascii ''port'', BInt (uint port)), (ascii ''token'', BBytes token)])"

definition encode_query :: "bytes \<Rightarrow> dht_query \<Rightarrow> bytes" where
  "encode_query t q = encode (BDict
     [(ascii ''a'', BDict (query_args q)), (ascii ''q'', BBytes (query_name q)), (ascii ''t'', BBytes t),
      (ascii ''y'', BBytes (ascii ''q''))])"

definition response_pairs :: "dht_response \<Rightarrow> (bytes \<times> bvalue) list" where
  "response_pairs r =
     (let ns = encode_compact_nodes (dr_nodes r);
          ns6 = encode_compact_nodes6 (dr_nodes6 r);
          compact_values = encode_compact_peer_values (dr_values r) in
      [(ascii ''id'', BBytes (dr_id r))]
      @ (if ns \<noteq> [] then [(ascii ''nodes'', BBytes ns)] else [])
      @ (if ns6 \<noteq> [] then [(ascii ''nodes6'', BBytes ns6)] else [])
      @ (case dr_token r of None \<Rightarrow> [] | Some token \<Rightarrow> [(ascii ''token'', BBytes token)])
      @ (if compact_values \<noteq> [] then [(ascii ''values'', BList (map BBytes compact_values))] else []))"

definition encode_response :: "bytes \<Rightarrow> dht_response \<Rightarrow> bytes" where
  "encode_response t r = encode (BDict
     [(ascii ''r'', BDict (response_pairs r)), (ascii ''t'', BBytes t), (ascii ''y'', BBytes (ascii ''r''))])"

definition encode_error :: "bytes \<Rightarrow> dht_error \<Rightarrow> bytes" where
  "encode_error t e = encode (BDict
     [(ascii ''e'', BList [BInt (de_code e), BBytes (de_message e)]), (ascii ''t'', BBytes t),
      (ascii ''y'', BBytes (ascii ''e''))])"

fun krpc_encode :: "krpc_message \<Rightarrow> bytes" where
  "krpc_encode (KQuery t q) = encode_query t q"
| "krpc_encode (KResponse t r) = encode_response t r"
| "krpc_encode (KError t e) = encode_error t e"

subsection \<open>Parsing\<close>

definition krpc_bytes :: "bvalue \<Rightarrow> bytes \<Rightarrow> krpc_error + bytes" where
  "krpc_bytes v key = ok_or (KrpcInvalid ''missing or invalid bytes field'') (Option.bind (bget v key) as_bytes)"

definition required_value_bytes :: "bvalue \<Rightarrow> krpc_error + bytes" where
  "required_value_bytes v = ok_or (KrpcInvalid ''expected bytes value'') (as_bytes v)"

definition required_int :: "bvalue \<Rightarrow> bytes \<Rightarrow> krpc_error + int" where
  "required_int v key = ok_or (KrpcInvalid ''missing or invalid int field'') (Option.bind (bget v key) as_int)"

definition optional_int :: "bvalue \<Rightarrow> bytes \<Rightarrow> int option" where
  "optional_int v key = Option.bind (bget v key) as_int"

definition parse_20 :: "bytes \<Rightarrow> krpc_error + bytes" where
  "parse_20 bs = (if length bs = 20 then Inr bs else Inl (KrpcInvalid ''expected 20 bytes''))"

definition parse_node_id :: "bytes \<Rightarrow> krpc_error + node_id" where
  "parse_node_id bs = parse_20 bs"

definition parse_port :: "int \<Rightarrow> krpc_error + u16" where
  "parse_port p = (if 0 \<le> p \<and> p < 65536 then Inr (word_of_int p) else Inl (KrpcInvalid ''invalid port''))"

fun parse_want_loop :: "bvalue list \<Rightarrow> dht_want list \<Rightarrow> krpc_error + dht_want list" where
  "parse_want_loop [] want = Inr want"
| "parse_want_loop (item # items) want =
     and_then (ok_or (KrpcInvalid ''want entries must be bytes'') (as_bytes item)) (\<lambda>b.
     and_then (if b = ascii ''n4'' then Inr WantIpv4 else if b = ascii ''n6'' then Inr WantIpv6
               else Inl (KrpcInvalid ''want entry must be n4 or n6'')) (\<lambda>family.
     if family \<in> set want then Inl (KrpcInvalid ''want contains a duplicate family'')
     else parse_want_loop items (want @ [family])))"

definition parse_want :: "bvalue \<Rightarrow> krpc_error + dht_want list option" where
  "parse_want args =
     (case bget args (ascii ''want'') of
        None \<Rightarrow> Inr None
      | Some (BList items) \<Rightarrow>
          if length items > 2 then Inl (KrpcInvalid ''want contains too many address families'')
          else map_sum id Some (parse_want_loop items [])
      | Some _ \<Rightarrow> Inl (KrpcInvalid ''want must be a list''))"

definition parse_query_args :: "bytes \<Rightarrow> bvalue \<Rightarrow> node_id \<Rightarrow> krpc_error + dht_query" where
  "parse_query_args q args i =
     (if q = ascii ''ping'' then Inr (Ping i)
      else if q = ascii ''find_node'' then
        and_then (krpc_bytes args (ascii ''target'')) (\<lambda>b. and_then (parse_node_id b) (\<lambda>target.
        and_then (parse_want args) (\<lambda>w.
        Inr (case w of Some want \<Rightarrow> FindNodeWithWant i target want | None \<Rightarrow> FindNode i target))))
      else if q = ascii ''get_peers'' then
        and_then (krpc_bytes args (ascii ''info_hash'')) (\<lambda>b. and_then (parse_20 b) (\<lambda>hash.
        and_then (parse_want args) (\<lambda>w.
        Inr (case w of Some want \<Rightarrow> GetPeersWithWant i hash want | None \<Rightarrow> GetPeers i hash))))
      else if q = ascii ''announce_peer'' then
        let implied = (case optional_int args (ascii ''implied_port'') of None \<Rightarrow> 0 | Some n \<Rightarrow> n) \<noteq> 0 in
        and_then (krpc_bytes args (ascii ''info_hash'')) (\<lambda>b. and_then (parse_20 b) (\<lambda>hash.
        and_then (required_int args (ascii ''port'')) (\<lambda>n. and_then (parse_port n) (\<lambda>port.
        and_then (krpc_bytes args (ascii ''token'')) (\<lambda>token.
        Inr (AnnouncePeer i implied hash port token))))))
      else Inl (UnsupportedQuery q))"

definition parse_query :: "bvalue \<Rightarrow> bytes \<Rightarrow> krpc_error + krpc_message" where
  "parse_query v t =
     and_then (krpc_bytes v (ascii ''q'')) (\<lambda>q.
     if \<not> utf8_valid q then Inl (KrpcInvalid ''query name is not utf-8'')
     else and_then (ok_or (KrpcInvalid ''missing query args'') (bget v (ascii ''a''))) (\<lambda>args.
       and_then (krpc_bytes args (ascii ''id'')) (\<lambda>b. and_then (parse_node_id b) (\<lambda>i.
       and_then (parse_query_args q args i) (\<lambda>query. Inr (KQuery t query))))))"

fun parse_values :: "bvalue list \<Rightarrow> dht_addr list \<Rightarrow> krpc_error + dht_addr list" where
  "parse_values [] peers = Inr peers"
| "parse_values (item # items) peers =
     and_then (required_value_bytes item) (\<lambda>b. and_then (parse_compact_peer_value b) (\<lambda>p.
     parse_values items (peers @ [p])))"

definition parse_response :: "bvalue \<Rightarrow> bytes \<Rightarrow> krpc_error + krpc_message" where
  "parse_response v t =
     and_then (ok_or (KrpcInvalid ''missing response'') (bget v (ascii ''r''))) (\<lambda>r.
     and_then (krpc_bytes r (ascii ''id'')) (\<lambda>b. and_then (parse_node_id b) (\<lambda>i.
     and_then (case Option.bind (bget r (ascii ''nodes'')) as_bytes of
                 Some bs \<Rightarrow> parse_compact_nodes bs | None \<Rightarrow> Inr []) (\<lambda>ns.
     and_then (case Option.bind (bget r (ascii ''nodes6'')) as_bytes of
                 Some bs \<Rightarrow> parse_compact_nodes6 bs | None \<Rightarrow> Inr []) (\<lambda>ns6.
     and_then (case bget r (ascii ''values'') of
                 Some (BList items) \<Rightarrow> parse_values items []
               | Some _ \<Rightarrow> Inl (KrpcInvalid ''values must be a list'')
               | None \<Rightarrow> Inr []) (\<lambda>peers.
     Inr (KResponse t \<lparr>dr_id = i, dr_nodes = ns, dr_nodes6 = ns6, dr_values = peers,
       dr_token = Option.bind (bget r (ascii ''token'')) as_bytes\<rparr>)))))))"

definition parse_error :: "bvalue \<Rightarrow> bytes \<Rightarrow> krpc_error + krpc_message" where
  "parse_error v t =
     (case bget v (ascii ''e'') of
        Some (BList items) \<Rightarrow>
          if length items \<noteq> 2 then Inl (KrpcInvalid ''error list must have code and message'')
          else and_then (ok_or (KrpcInvalid ''error code must be int'') (as_int (items ! 0))) (\<lambda>code.
            and_then (ok_or (KrpcInvalid ''error message must be utf-8'') (as_str (items ! 1))) (\<lambda>message.
            Inr (KError t \<lparr>de_code = code, de_message = message\<rparr>)))
      | _ \<Rightarrow> Inl (KrpcInvalid ''missing error list''))"

definition parse_message :: "bvalue \<Rightarrow> krpc_error + krpc_message" where
  "parse_message v =
     and_then (krpc_bytes v (ascii ''t'')) (\<lambda>t. and_then (krpc_bytes v (ascii ''y'')) (\<lambda>y.
     if y = ascii ''q'' then parse_query v t
     else if y = ascii ''r'' then parse_response v t
     else if y = ascii ''e'' then parse_error v t
     else Inl (KrpcInvalid ''unknown message type'')))"

definition krpc_parse :: "'q alloc_env \<Rightarrow> bytes \<Rightarrow> krpc_error + krpc_message" where
  "krpc_parse env inp =
     (case decoder_decode env (with_strict_dict_keys False (decoder_new inp)) of
        Inl e \<Rightarrow> Inl (KrpcBencode e)
      | Inr v \<Rightarrow> parse_message v)"

subsection \<open>Well-formed messages\<close>

fun wf_v4 :: "addr_v4 \<Rightarrow> bool" where
  "wf_v4 a \<longleftrightarrow> length (v4_ip a) = 4"

fun wf_v6 :: "addr_v6 \<Rightarrow> bool" where
  "wf_v6 a \<longleftrightarrow> length (v6_ip a) = 16 \<and> v6_flowinfo a = 0 \<and> v6_scope_id a = 0"

fun wf_addr :: "dht_addr \<Rightarrow> bool" where
  "wf_addr (DhtV4 a) \<longleftrightarrow> wf_v4 a"
| "wf_addr (DhtV6 a) \<longleftrightarrow> wf_v6 a"

fun wf_query :: "dht_query \<Rightarrow> bool" where
  "wf_query (Ping i) \<longleftrightarrow> node_id_ok i"
| "wf_query (FindNode i target) \<longleftrightarrow> node_id_ok i \<and> node_id_ok target"
| "wf_query (FindNodeWithWant i target want) \<longleftrightarrow> node_id_ok i \<and> node_id_ok target \<and> distinct want"
| "wf_query (GetPeers i hash) \<longleftrightarrow> node_id_ok i \<and> length hash = 20"
| "wf_query (GetPeersWithWant i hash want) \<longleftrightarrow> node_id_ok i \<and> length hash = 20 \<and> distinct want"
| "wf_query (AnnouncePeer i implied hash port token) \<longleftrightarrow>
     node_id_ok i \<and> length hash = 20 \<and> length token \<le> DEFAULT_MAX_STRING"

definition wf_response :: "dht_response \<Rightarrow> bool" where
  "wf_response r \<longleftrightarrow> node_id_ok (dr_id r) \<and>
     list_all (\<lambda>n. node_id_ok (kn_id n) \<and> wf_v4 (kn_addr n)) (dr_nodes r) \<and>
     list_all (\<lambda>n. node_id_ok (kn_id n) \<and> wf_v6 (kn_addr n)) (dr_nodes6 r) \<and>
     list_all wf_addr (dr_values r) \<and>
     26 * length (dr_nodes r) \<le> DEFAULT_MAX_STRING \<and> 38 * length (dr_nodes6 r) \<le> DEFAULT_MAX_STRING \<and>
     length (dr_values r) + 9 \<le> DEFAULT_MAX_NODES \<and>
     (case dr_token r of None \<Rightarrow> True | Some token \<Rightarrow> length token \<le> DEFAULT_MAX_STRING)"

fun wf_krpc :: "krpc_message \<Rightarrow> bool" where
  "wf_krpc (KQuery t q) \<longleftrightarrow> length t \<le> DEFAULT_MAX_STRING \<and> wf_query q"
| "wf_krpc (KResponse t r) \<longleftrightarrow> length t \<le> DEFAULT_MAX_STRING \<and> wf_response r"
| "wf_krpc (KError t e) \<longleftrightarrow> length t \<le> DEFAULT_MAX_STRING \<and> i64_range (de_code e) \<and> utf8_valid (de_message e) \<and>
     length (de_message e) \<le> DEFAULT_MAX_STRING"

subsection \<open>Compact forms are read back\<close>

lemma list4: "length xs = 4 \<Longrightarrow> [xs ! 0, xs ! 1, xs ! 2, xs ! 3] = xs"
  by (auto intro!: nth_equalityI simp: nth_Cons' numeral_eq_Suc less_Suc_eq)

lemma be_pair: "[u16_to_be_bytes w ! 0, u16_to_be_bytes w ! 1] = u16_to_be_bytes w"
  by (simp add: u16_to_be_bytes_def)

lemma chunk_v4:
  fixes w :: u16
  assumes "length i = 20" "length ip = 4"
  defines "c \<equiv> i @ ip @ u16_to_be_bytes w"
  shows "length c = 26" "take 20 c = i" "[c ! 20, c ! 21, c ! 22, c ! 23] = ip" "u16_from_be_bytes [c ! 24, c ! 25] = w"
  using assms list4 [of ip] be_pair [of w] by (simp_all add: nth_append)

lemma chunk_v6:
  fixes w :: u16
  assumes "length i = 20" "length ip = 16"
  defines "c \<equiv> i @ ip @ u16_to_be_bytes w"
  shows "length c = 38" "take 20 c = i" "subslice c 20 36 = ip" "u16_from_be_bytes [c ! 36, c ! 37] = w"
  using assms be_pair [of w] by (simp_all add: nth_append subslice_def)

lemma compact_nodes_back:
  assumes "list_all (\<lambda>n. node_id_ok (kn_id n) \<and> wf_v4 (kn_addr n)) ns"
  shows "parse_compact_nodes (encode_compact_nodes ns) = Inr ns" "length (encode_compact_nodes ns) = 26 * length ns"
proof -
  let ?f = "\<lambda>n. kn_id n @ v4_ip (kn_addr n) @ u16_to_be_bytes (v4_port (kn_addr n))"
  have len: "list_all (\<lambda>c. length c = 26) (map ?f ns)" using assms by (auto simp: list_all_iff node_id_ok_def)
  then show l: "length (encode_compact_nodes ns) = 26 * length ns"
    unfolding encode_compact_nodes_def by (induction ns) auto
  have "\<lparr>kn_id = take 20 (?f n), kn_addr = \<lparr>v4_ip = [?f n ! 20, ?f n ! 21, ?f n ! 22, ?f n ! 23],
      v4_port = u16_from_be_bytes [?f n ! 24, ?f n ! 25]\<rparr>\<rparr> = n" if "n \<in> set ns" for n
    using that assms chunk_v4 [of "kn_id n" "v4_ip (kn_addr n)" "v4_port (kn_addr n)"]
    by (simp add: list_all_iff node_id_ok_def del: append_assoc)
  then show "parse_compact_nodes (encode_compact_nodes ns) = Inr ns"
    unfolding parse_compact_nodes_def l
    by (simp add: encode_compact_nodes_def as_chunks_concat [OF _ len] comp_def map_idI)
qed

lemma compact_nodes6_back:
  assumes "list_all (\<lambda>n. node_id_ok (kn_id n) \<and> wf_v6 (kn_addr n)) ns"
  shows "parse_compact_nodes6 (encode_compact_nodes6 ns) = Inr ns" "length (encode_compact_nodes6 ns) = 38 * length ns"
proof -
  let ?f = "\<lambda>n. kn_id n @ v6_ip (kn_addr n) @ u16_to_be_bytes (v6_port (kn_addr n))"
  have len: "list_all (\<lambda>c. length c = 38) (map ?f ns)" using assms by (auto simp: list_all_iff node_id_ok_def)
  then show l: "length (encode_compact_nodes6 ns) = 38 * length ns"
    unfolding encode_compact_nodes6_def by (induction ns) auto
  have "\<lparr>kn_id = take 20 (?f n), kn_addr = new_v6 (subslice (?f n) 20 36) (u16_from_be_bytes [?f n ! 36, ?f n ! 37])\<rparr> = n"
    if "n \<in> set ns" for n
    using that assms chunk_v6 [of "kn_id n" "v6_ip (kn_addr n)" "v6_port (kn_addr n)"]
    by (simp add: list_all_iff node_id_ok_def new_v6_def del: append_assoc)
  then show "parse_compact_nodes6 (encode_compact_nodes6 ns) = Inr ns"
    unfolding parse_compact_nodes6_def l
    by (simp add: encode_compact_nodes6_def as_chunks_concat [OF _ len] comp_def map_idI)
qed

lemma compact_peer_back: "wf_addr a \<Longrightarrow> parse_compact_peer_value (encode_compact_peer a) = Inr a"
proof (cases a)
  case (DhtV4 b)
  assume "wf_addr a"
  with DhtV4 have "length (v4_ip b) = 4" by simp
  then show ?thesis using DhtV4 list4 [of "v4_ip b"] be_pair [of "v4_port b"]
    by (simp add: parse_compact_peer_value_def compact_v4_def nth_append)
next
  case (DhtV6 b)
  assume "wf_addr a"
  with DhtV6 have "length (v6_ip b) = 16" "v6_flowinfo b = 0" "v6_scope_id b = 0" by simp_all
  then show ?thesis using DhtV6 be_pair [of "v6_port b"]
    by (simp add: parse_compact_peer_value_def compact_v6_def new_v6_def nth_append)
qed

lemma parse_values_back:
  "list_all wf_addr as \<Longrightarrow>
     parse_values (map BBytes (encode_compact_peer_values as)) ps = Inr (ps @ as)"
  by (induction as arbitrary: ps)
    (simp_all add: encode_compact_peer_values_def required_value_bytes_def as_bytes_def compact_peer_back)

lemma parse_want_loop_back:
  "distinct (acc @ want) \<Longrightarrow> parse_want_loop (map (\<lambda>w. BBytes (want_bytes w)) want) acc = Inr (acc @ want)"
proof (induction want arbitrary: acc)
  case (Cons w want)
  then show ?case by (cases w) (auto simp: as_bytes_def ascii_def)
qed simp

lemma length_want: "distinct (want :: dht_want list) \<Longrightarrow> length want \<le> 2"
proof -
  assume "distinct want"
  then have "length want = card (set want)" by (simp add: distinct_card)
  also have "\<dots> \<le> card {WantIpv4, WantIpv6}"
    by (rule card_mono) (auto intro: dht_want.exhaust)
  finally show ?thesis by simp
qed

subsection \<open>Messages are read back\<close>

lemma bget_Cons [simp]: "bget (BDict ((k, v) # ps)) key = (if k = key then Some v else bget (BDict ps) key)"
  and bget_Nil [simp]: "bget (BDict []) key = None"
  by (simp_all add: bget_def)

lemma krpc_bytes_get: "bget v key = Some (BBytes b) \<Longrightarrow> krpc_bytes v key = Inr b"
  by (simp add: krpc_bytes_def as_bytes_def)

lemma parse_want_back:
  "distinct want \<Longrightarrow> bget args (ascii ''want'') = Some (BList (map (\<lambda>w. BBytes (want_bytes w)) want)) \<Longrightarrow>
     parse_want args = Inr (Some want)"
  using length_want [of want] parse_want_loop_back [of "[]" want] by (simp add: parse_want_def)

lemma parse_port_back [simp]: "parse_port (uint w) = Inr w"
  using uint_bounded [of w] by (simp add: parse_port_def)

lemmas key_simps = ascii_def query_args_def push_want_def Let_def

lemma query_name_valid: "utf8_valid (query_name q)"
  by (cases q) (simp_all add: ascii_def utf8_valid.simps)

lemma query_id_back: "krpc_bytes (BDict (query_args q)) (ascii ''id'') = Inr (query_id q)"
  by (rule krpc_bytes_get) (cases q; simp add: key_simps)

lemma query_id_ok: "wf_query q \<Longrightarrow> node_id_ok (query_id q)"
  by (cases q) simp_all

lemma parse_query_args_back:
  assumes "wf_query q"
  shows "parse_query_args (query_name q) (BDict (query_args q)) (query_id q) = Inr q"
proof (cases q)
  case (FindNodeWithWant i target want)
  then have "parse_want (BDict (query_args q)) = Inr (Some want)"
    using assms by (intro parse_want_back) (simp_all add: key_simps)
  then show ?thesis using FindNodeWithWant assms
    by (simp add: parse_query_args_def krpc_bytes_def as_bytes_def parse_node_id_def parse_20_def node_id_ok_def key_simps)
next
  case (GetPeersWithWant i hash want)
  then have "parse_want (BDict (query_args q)) = Inr (Some want)"
    using assms by (intro parse_want_back) (simp_all add: key_simps)
  then show ?thesis using GetPeersWithWant assms
    by (simp add: parse_query_args_def krpc_bytes_def as_bytes_def parse_20_def key_simps)
qed (use assms in \<open>simp_all add: parse_query_args_def krpc_bytes_def as_bytes_def as_int_def parse_node_id_def parse_20_def
    parse_want_def node_id_ok_def required_int_def optional_int_def key_simps\<close>)

lemma parse_query_back:
  assumes "wf_query q"
  shows "parse_message (BDict [(ascii ''a'', BDict (query_args q)), (ascii ''q'', BBytes (query_name q)),
    (ascii ''t'', BBytes t), (ascii ''y'', BBytes (ascii ''q''))]) = Inr (KQuery t q)" (is "parse_message ?v = _")
proof -
  have "krpc_bytes ?v (ascii ''t'') = Inr t" "krpc_bytes ?v (ascii ''y'') = Inr (ascii ''q'')"
    "krpc_bytes ?v (ascii ''q'') = Inr (query_name q)" "bget ?v (ascii ''a'') = Some (BDict (query_args q))"
    by (simp_all add: krpc_bytes_get ascii_def)
  then show ?thesis
    using query_name_valid [of q] query_id_back [of q] query_id_ok [OF assms] parse_query_args_back [OF assms]
    by (simp add: parse_message_def parse_query_def parse_node_id_def parse_20_def node_id_ok_def del: bget_Cons)
qed

lemma encode_nodes_Nil: "encode_compact_nodes ns = [] \<longleftrightarrow> ns = []" if "list_all (\<lambda>n. node_id_ok (kn_id n) \<and> wf_v4 (kn_addr n)) ns"
  using compact_nodes_back(2) [OF that] by (metis length_0_conv mult_is_0 zero_neq_numeral)

lemma encode_nodes6_Nil: "encode_compact_nodes6 ns = [] \<longleftrightarrow> ns = []" if "list_all (\<lambda>n. node_id_ok (kn_id n) \<and> wf_v6 (kn_addr n)) ns"
  using compact_nodes6_back(2) [OF that] by (metis length_0_conv mult_is_0 zero_neq_numeral)

lemma bget_append:
  "bget (BDict (xs @ ys)) key = (case bget (BDict xs) key of None \<Rightarrow> bget (BDict ys) key | Some v \<Rightarrow> Some v)"
  by (induction xs) auto

lemma response_get:
  "bget (BDict (response_pairs r)) (ascii ''id'') = Some (BBytes (dr_id r))"
  "bget (BDict (response_pairs r)) (ascii ''nodes'') =
     (if encode_compact_nodes (dr_nodes r) = [] then None else Some (BBytes (encode_compact_nodes (dr_nodes r))))"
  "bget (BDict (response_pairs r)) (ascii ''nodes6'') =
     (if encode_compact_nodes6 (dr_nodes6 r) = [] then None else Some (BBytes (encode_compact_nodes6 (dr_nodes6 r))))"
  "bget (BDict (response_pairs r)) (ascii ''token'') = map_option BBytes (dr_token r)"
  "bget (BDict (response_pairs r)) (ascii ''values'') =
     (if dr_values r = [] then None else Some (BList (map BBytes (encode_compact_peer_values (dr_values r)))))"
  by (simp_all add: response_pairs_def Let_def bget_append ascii_def encode_compact_peer_values_def split: option.splits)

lemma parse_response_back:
  assumes "wf_response r"
  shows "parse_message (BDict [(ascii ''r'', BDict (response_pairs r)), (ascii ''t'', BBytes t),
    (ascii ''y'', BBytes (ascii ''r''))]) = Inr (KResponse t r)" (is "parse_message ?v = _")
proof -
  have w: "list_all (\<lambda>n. node_id_ok (kn_id n) \<and> wf_v4 (kn_addr n)) (dr_nodes r)"
    "list_all (\<lambda>n. node_id_ok (kn_id n) \<and> wf_v6 (kn_addr n)) (dr_nodes6 r)"
    "list_all wf_addr (dr_values r)" "length (dr_id r) = 20"
    using assms by (simp_all add: wf_response_def node_id_ok_def)
  have "krpc_bytes ?v (ascii ''t'') = Inr t" "krpc_bytes ?v (ascii ''y'') = Inr (ascii ''r'')"
    "bget ?v (ascii ''r'') = Some (BDict (response_pairs r))" "ascii ''r'' \<noteq> ascii ''q''"
    by (simp_all add: krpc_bytes_get ascii_def)
  moreover have "krpc_bytes (BDict (response_pairs r)) (ascii ''id'') = Inr (dr_id r)"
    by (rule krpc_bytes_get) (rule response_get(1))
  moreover have "Option.bind (map_option BBytes (dr_token r)) as_bytes = dr_token r"
    by (cases "dr_token r") (simp_all add: as_bytes_def)
  ultimately show ?thesis
    using w compact_nodes_back(1) [OF w(1)] compact_nodes6_back(1) [OF w(2)] parse_values_back [OF w(3), of "[]"]
      encode_nodes_Nil [OF w(1)] encode_nodes6_Nil [OF w(2)]
    by (simp add: parse_message_def parse_response_def parse_node_id_def parse_20_def response_get as_bytes_def del: bget_Cons)
qed

lemma parse_error_back:
  assumes "utf8_valid (de_message e)"
  shows "parse_message (BDict [(ascii ''e'', BList [BInt (de_code e), BBytes (de_message e)]), (ascii ''t'', BBytes t),
    (ascii ''y'', BBytes (ascii ''e''))]) = Inr (KError t e)"
  using assms
  by (simp add: parse_message_def parse_error_def krpc_bytes_def as_bytes_def as_int_def as_str_def ascii_def)

subsection \<open>Through the bencode codec\<close>

fun krpc_value :: "krpc_message \<Rightarrow> bvalue" where
  "krpc_value (KQuery t q) = BDict
     [(ascii ''a'', BDict (query_args q)), (ascii ''q'', BBytes (query_name q)), (ascii ''t'', BBytes t),
      (ascii ''y'', BBytes (ascii ''q''))]"
| "krpc_value (KResponse t r) = BDict
     [(ascii ''r'', BDict (response_pairs r)), (ascii ''t'', BBytes t), (ascii ''y'', BBytes (ascii ''r''))]"
| "krpc_value (KError t e) = BDict
     [(ascii ''e'', BList [BInt (de_code e), BBytes (de_message e)]), (ascii ''t'', BBytes t),
      (ascii ''y'', BBytes (ascii ''e''))]"

lemma krpc_encode_value: "krpc_encode m = encode (krpc_value m)"
  by (cases m) (simp_all add: encode_query_def encode_response_def encode_error_def)

lemma parse_message_back: "wf_krpc m \<Longrightarrow> parse_message (krpc_value m) = Inr m"
  by (cases m) (simp_all add: parse_query_back parse_response_back parse_error_back)

lemma want_value_fits:
  "fits DEFAULT_MAX_DEPTH DEFAULT_MAX_STRING strict 2 (BList (map (\<lambda>w. BBytes (want_bytes w)) want))"
proof -
  have "length (want_bytes w) = 2" for w by (cases w) (simp_all add: ascii_def)
  then show ?thesis by (simp add: list_all_iff DEFAULT_MAX_DEPTH_def DEFAULT_MAX_STRING_def)
qed

lemma port_in_range: "i64_range (uint (p :: u16))"
  using uint_bounded [of p] by (auto simp: i64_range_def intro: order_trans [OF _ uint_nonnegative])

lemma flag_in_range: "i64_range 0" "i64_range 1"
  by (simp_all add: i64_range_def)

lemma query_value_fits:
  assumes "wf_query q"
  shows "fits DEFAULT_MAX_DEPTH DEFAULT_MAX_STRING False 1 (BDict (query_args q)) \<and> length (query_name q) \<le> DEFAULT_MAX_STRING"
  using assms want_value_fits [of False]
  by (cases q) (auto simp: key_simps node_id_ok_def port_in_range flag_in_range DEFAULT_MAX_DEPTH_def
      DEFAULT_MAX_STRING_def numeral_2_eq_2)

lemma query_value_nodes:
  assumes "wf_query q"
  shows "node_count (BDict (query_args q)) \<le> 9"
  using assms by (cases q) (auto simp: key_simps comp_def sum_list_triv dest!: length_want)

lemma response_value_fits:
  assumes "wf_response r"
  shows "fits DEFAULT_MAX_DEPTH DEFAULT_MAX_STRING False 1 (BDict (response_pairs r))"
proof -
  have "length (encode_compact_nodes (dr_nodes r)) \<le> DEFAULT_MAX_STRING"
    "length (encode_compact_nodes6 (dr_nodes6 r)) \<le> DEFAULT_MAX_STRING"
    using assms compact_nodes_back(2) compact_nodes6_back(2) by (simp_all add: wf_response_def)
  moreover have "length (encode_compact_peer a) \<le> 18" if "a \<in> set (dr_values r)" for a
  proof -
    have "wf_addr a" using that assms by (simp add: wf_response_def list_all_iff)
    then show ?thesis by (cases a) simp_all
  qed
  then have "list_all (fits DEFAULT_MAX_DEPTH DEFAULT_MAX_STRING False (Suc (Suc (Suc 0)))) (map BBytes (encode_compact_peer_values (dr_values r)))"
    by (force simp: encode_compact_peer_values_def list_all_iff DEFAULT_MAX_DEPTH_def DEFAULT_MAX_STRING_def)
  moreover have "length (dr_id r) = 20" using assms by (simp add: wf_response_def node_id_ok_def)
  ultimately show ?thesis
    using assms
    by (auto simp: response_pairs_def Let_def ascii_def wf_response_def DEFAULT_MAX_DEPTH_def DEFAULT_MAX_STRING_def
        split: option.splits)
qed

lemma response_value_nodes: "node_count (BDict (response_pairs r)) \<le> length (dr_values r) + 6"
  by (auto simp: response_pairs_def Let_def encode_compact_peer_values_def comp_def sum_list_triv split: option.splits)

lemma krpc_value_fits:
  assumes "wf_krpc m"
  shows "fits DEFAULT_MAX_DEPTH DEFAULT_MAX_STRING False 0 (krpc_value m) \<and> node_count (krpc_value m) \<le> DEFAULT_MAX_NODES"
proof (cases m)
  case (KQuery t q)
  then show ?thesis using assms query_value_fits [of q] query_value_nodes [of q]
    by (simp add: ascii_def DEFAULT_MAX_DEPTH_def DEFAULT_MAX_STRING_def DEFAULT_MAX_NODES_def)
next
  case (KResponse t r)
  then show ?thesis using assms response_value_fits [of r] response_value_nodes [of r]
    by (simp add: ascii_def DEFAULT_MAX_DEPTH_def DEFAULT_MAX_STRING_def wf_response_def)
next
  case (KError t e)
  then show ?thesis using assms
    by (simp add: ascii_def DEFAULT_MAX_DEPTH_def DEFAULT_MAX_STRING_def DEFAULT_MAX_NODES_def)
qed

lemma lenient_decode_encode:
  assumes "alloc_ok (2 * DEFAULT_MAX_NODES) (always env)" "node_count v \<le> DEFAULT_MAX_NODES"
    "fits DEFAULT_MAX_DEPTH DEFAULT_MAX_STRING False 0 v" "length (encode v) < 2 ^ 64"
  shows "decoder_decode env (with_strict_dict_keys False (decoder_new (encode v))) = Inr v"
proof -
  let ?d = "with_strict_dict_keys False (decoder_new (encode v))"
  have "reads_back (always env) (2 * DEFAULT_MAX_NODES) v"
    by (rule decode_value_run [OF assms(1)]) (simp add: DEFAULT_MAX_NODES_def)
  then obtain r' where "decode_value (always env) 0 ?d () = Inr (v, moved ?d (length (benc v)) (node_count v), r')"
    by (rule reads_backD [of _ _ _ ?d "[]" 0 "()"])
      (use assms in \<open>auto simp: decoder_new_def with_strict_dict_keys_def encode_benc usize_max_def\<close>)
  then show ?thesis
    by (simp add: decoder_decode_def decoder_decode_with_allocation_reservation_def decoder_new_def
        with_strict_dict_keys_def encode_benc)
qed

text \<open>
  C20. KRPC messages are read back: every well-formed query, response and error that is encoded is parsed
  as the same message, through the bencode codec and its default limits. Well-formed means that arrays
  have their sizes, a \<open>want\<close> list names no family twice, IPv6 endpoints carry no flow label and no scope,
  and strings and lists stay within the limits of the decoder.
\<close>

theorem krpc_roundtrip:
  assumes "alloc_ok (2 * DEFAULT_MAX_NODES) (always env)" "wf_krpc m" "length (krpc_encode m) < 2 ^ 64"
  shows "krpc_parse env (krpc_encode m) = Inr m"
proof -
  have "decoder_decode env (with_strict_dict_keys False (decoder_new (krpc_encode m))) = Inr (krpc_value m)"
    using lenient_decode_encode [OF assms(1), of "krpc_value m"] krpc_value_fits [OF assms(2)] assms(3)
    by (simp add: krpc_encode_value)
  then show ?thesis using parse_message_back [OF assms(2)] by (simp add: krpc_parse_def)
qed

theorem krpc_roundtrip_witness:
  "krpc_parse exact_env (krpc_encode (KQuery [1, 2] (GetPeersWithWant (id_of 9) (replicate 20 7) [WantIpv6]))) =
     Inr (KQuery [1, 2] (GetPeersWithWant (id_of 9) (replicate 20 7) [WantIpv6]))"
proof (rule krpc_roundtrip [OF exact_env_ok])
  show "length (krpc_encode (KQuery [1, 2] (GetPeersWithWant (id_of 9) (replicate 20 7) [WantIpv6]))) < 2 ^ 64"
    by (simp add: krpc_encode_value encode_benc key_simps bytes_enc_def id_of_def dec_nat.simps)
qed (simp add: node_id_ok_def id_of_def DEFAULT_MAX_STRING_def)

end
