(* ===== verification/Peer_Choker.thy ===== *)
theory Peer_Choker
  imports Complex_Main TNG_Prelude "HOL-Library.AList"
begin

text \<open>
  The peer manager, \<open>choker.rs\<close>, \<open>peer.rs\<close> and \<open>pool.rs\<close> of \<open>crates/rt-peer-manager\<close>: the pool of
  connections of a torrent and the rounds that choose whom to upload to. Identifiers and addresses are only
  compared, so they are type parameters. An upload rate is a real number: the rates compared here are not
  NaN. Instants and durations count nanoseconds; the clock is read by the caller.
\<close>

subsection \<open>Peers\<close>

datatype direction = Inbound | Outbound

datatype choke_state = Choked | Unchoked

record peer_stats =
  uploaded :: u64
  downloaded :: u64
  upload_rate :: real

record ('p, 'a) peer_entry =
  pe_id :: 'p
  pe_addr :: 'a
  pe_direction :: direction
  pe_choke_state :: choke_state
  pe_peer_interested :: bool
  pe_stats :: peer_stats
  pe_connected_at :: nat

definition peer_entry_new :: "'p \<Rightarrow> nat \<Rightarrow> 'a \<Rightarrow> direction \<Rightarrow> ('p, 'a) peer_entry" where
  "peer_entry_new fresh now addr dir = \<lparr>pe_id = fresh, pe_addr = addr, pe_direction = dir, pe_choke_state = Choked,
     pe_peer_interested = False, pe_stats = \<lparr>uploaded = 0, downloaded = 0, upload_rate = 0\<rparr>, pe_connected_at = now\<rparr>"

definition is_unchoked :: "('p, 'a) peer_entry \<Rightarrow> bool" where
  "is_unchoked e \<longleftrightarrow> pe_choke_state e = Unchoked"

subsection \<open>The pool\<close>

text \<open>The hash map of peers is an association list with one pair per identifier.\<close>

record ('p, 'a) peer_pool =
  peers :: "('p \<times> ('p, 'a) peer_entry) list"
  max_peers :: nat

datatype ('p, 'a) pool_error = PoolNotFound 'p | PoolFull nat | DuplicateAddress 'a

definition DEFAULT_MAX_PEERS :: nat where
  "DEFAULT_MAX_PEERS = 50"

definition pool_new :: "nat \<Rightarrow> ('p, 'a) peer_pool" where
  "pool_new m = \<lparr>peers = [], max_peers = m\<rparr>"

definition pool_is_full :: "('p, 'a) peer_pool \<Rightarrow> bool" where
  "pool_is_full q \<longleftrightarrow> length (peers q) \<ge> max_peers q"

definition pool_add ::
    "('p, 'a) peer_entry \<Rightarrow> ('p, 'a) peer_pool \<Rightarrow> (('p, 'a) pool_error + 'p) \<times> ('p, 'a) peer_pool" where
  "pool_add e q =
     (if pool_is_full q then (Inl (PoolFull (max_peers q)), q)
      else if list_ex (\<lambda>(_, p). pe_addr p = pe_addr e) (peers q) then (Inl (DuplicateAddress (pe_addr e)), q)
      else (Inr (pe_id e), q\<lparr>peers := AList.update (pe_id e) e (peers q)\<rparr>))"

definition pool_remove ::
    "'p \<Rightarrow> ('p, 'a) peer_pool \<Rightarrow> (('p, 'a) pool_error + ('p, 'a) peer_entry) \<times> ('p, 'a) peer_pool" where
  "pool_remove i q =
     (case map_of (peers q) i of
        None \<Rightarrow> (Inl (PoolNotFound i), q)
      | Some e \<Rightarrow> (Inr e, q\<lparr>peers := AList.delete i (peers q)\<rparr>))"

definition pool_get :: "'p \<Rightarrow> ('p, 'a) peer_pool \<Rightarrow> ('p, 'a) peer_entry option" where
  "pool_get i q = map_of (peers q) i"

definition known_addresses :: "('p, 'a) peer_pool \<Rightarrow> 'a list" where
  "known_addresses q = map (\<lambda>(_, p). pe_addr p) (peers q)"

definition pool_ok :: "('p, 'a) peer_pool \<Rightarrow> bool" where
  "pool_ok q \<longleftrightarrow> distinct (map fst (peers q)) \<and> length (peers q) \<le> max_peers q \<and> distinct (known_addresses q)"

lemma pool_new_ok: "pool_ok (pool_new m)"
  by (simp add: pool_ok_def pool_new_def known_addresses_def)

lemma length_update: "length (AList.update k v xs) \<le> Suc (length xs)"
  by (induction xs) auto

lemma addrs_update:
  assumes "distinct (map fst xs)" "distinct (map (g \<circ> snd) xs)" "g v \<notin> set (map (g \<circ> snd) xs)"
  shows "distinct (map (g \<circ> snd) (AList.update k v xs)) \<and>
    set (map (g \<circ> snd) (AList.update k v xs)) \<subseteq> insert (g v) (set (map (g \<circ> snd) xs))"
  using assms by (induction xs) auto

lemma known_address_iff: "list_ex (\<lambda>(_, p). pe_addr p = a) (peers q) \<longleftrightarrow> a \<in> set (known_addresses q)"
  by (auto simp: known_addresses_def list_ex_iff rev_image_eqI)

lemma pool_add_ok:
  assumes "pool_ok q"
  shows "pool_ok (snd (pool_add e q))"
proof (cases "pool_is_full q \<or> pe_addr e \<in> set (known_addresses q)")
  case True
  then have "snd (pool_add e q) = q"
    by (auto simp: pool_add_def known_address_iff)
  then show ?thesis using assms by simp
next
  case False
  have k: "known_addresses r = map (pe_addr \<circ> snd) (peers r)" for r :: "('a, 'b) peer_pool"
    by (auto simp: known_addresses_def)
  have "snd (pool_add e q) = q\<lparr>peers := AList.update (pe_id e) e (peers q)\<rparr>"
    using False by (simp add: pool_add_def known_address_iff)
  then show ?thesis
    using assms False addrs_update [of "peers q" pe_addr e "pe_id e"] length_update [of "pe_id e" e "peers q"]
    by (simp add: pool_ok_def k pool_is_full_def distinct_update)
qed

lemma pool_remove_ok:
  assumes "pool_ok q"
  shows "pool_ok (snd (pool_remove i q))"
  using assms
  by (auto simp: pool_ok_def pool_remove_def known_addresses_def AList.delete_eq distinct_map_filter
      intro: le_trans [OF length_filter_le] split: option.splits)

subsection \<open>The choker\<close>

record 'p peer_snapshot =
  ps_id :: 'p
  ps_interested :: bool
  ps_upload_rate :: real
  ps_current_choke :: choke_state

datatype choke_decision = Unchoke | Choke

record 'p choker =
  max_unchoked :: nat
  optimistic_id :: "'p option"
  last_optimistic_rotate :: nat

definition DEFAULT_MAX_UNCHOKED :: nat where
  "DEFAULT_MAX_UNCHOKED = 4"

definition OPTIMISTIC_ROTATE_INTERVAL :: nat where
  "OPTIMISTIC_ROTATE_INTERVAL = 30000000000"

definition choker_new :: "nat \<Rightarrow> nat \<Rightarrow> 'p choker" where
  "choker_new now m = \<lparr>max_unchoked = m, optimistic_id = None, last_optimistic_rotate = now\<rparr>"

text \<open>
  The interested peers by falling rate. \<open>sort_by\<close> is stable, and so is \<open>sort_key\<close>. \<open>elapsed\<close> saturates at
  zero, as the difference of natural numbers does; \<open>now'\<close> is the second reading of the clock.
\<close>

definition by_rate :: "'p peer_snapshot list \<Rightarrow> 'p peer_snapshot list" where
  "by_rate ps = sort_key (\<lambda>p. - ps_upload_rate p) (filter ps_interested ps)"

definition choker_rotate :: "nat \<Rightarrow> nat \<Rightarrow> 'p peer_snapshot list \<Rightarrow> 'p choker \<Rightarrow> 'p choker" where
  "choker_rotate now now' interested c =
     (if now - last_optimistic_rotate c \<ge> OPTIMISTIC_ROTATE_INTERVAL \<or> optimistic_id c = None then
        (case drop (max_unchoked c) interested of
           [] \<Rightarrow> c
         | p # _ \<Rightarrow> c\<lparr>optimistic_id := Some (ps_id p), last_optimistic_rotate := now'\<rparr>)
      else c)"

definition choker_decide :: "'p list \<Rightarrow> 'p option \<Rightarrow> 'p peer_snapshot \<Rightarrow> choke_decision" where
  "choker_decide unchoked_ids opt p =
     (if (ps_id p \<in> set unchoked_ids \<or> opt = Some (ps_id p)) \<and> ps_interested p then Unchoke else Choke)"

definition choker_run ::
    "nat \<Rightarrow> nat \<Rightarrow> 'p peer_snapshot list \<Rightarrow> 'p choker \<Rightarrow> ('p \<rightharpoonup> choke_decision) \<times> 'p choker" where
  "choker_run now now' ps c =
     (let interested = by_rate ps;
          unchoked_ids = map ps_id (take (max_unchoked c) interested);
          c' = choker_rotate now now' interested c in
      (fold (\<lambda>p m. m(ps_id p \<mapsto> choker_decide unchoked_ids (optimistic_id c') p)) ps Map.empty, c'))"

subsection \<open>A round\<close>

lemma fold_upd_other: "x \<notin> f ` set ps \<Longrightarrow> fold (\<lambda>p m. m(f p \<mapsto> g p)) ps m x = m x"
  by (induction ps arbitrary: m) auto

lemma fold_upd:
  "distinct (map f ps) \<Longrightarrow> p \<in> set ps \<Longrightarrow> fold (\<lambda>p m. m(f p \<mapsto> g p)) ps m (f p) = Some (g p)"
  by (induction ps arbitrary: m) (auto simp: fold_upd_other)

lemma set_by_rate: "set (by_rate ps) = {p \<in> set ps. ps_interested p}"
  by (auto simp: by_rate_def)

lemma length_by_rate: "length (by_rate ps) = length (filter ps_interested ps)"
  by (simp add: by_rate_def)

lemma distinct_by_rate: "distinct (map ps_id ps) \<Longrightarrow> distinct (map ps_id (by_rate ps))"
  unfolding by_rate_def distinct_map
  by (auto simp: intro: inj_on_subset)

lemma by_rate_ranked: "r \<in> set (take m (by_rate ps)) \<Longrightarrow> p \<in> set (drop m (by_rate ps)) \<Longrightarrow> ps_upload_rate p \<le> ps_upload_rate r"
proof -
  assume a: "r \<in> set (take m (by_rate ps))" "p \<in> set (drop m (by_rate ps))"
  have "sorted (map (\<lambda>p. - ps_upload_rate p) (take m (by_rate ps) @ drop m (by_rate ps)))"
    unfolding append_take_drop_id by (simp add: by_rate_def)
  then show ?thesis using a unfolding map_append sorted_append by auto
qed

lemma choker_decides:
  assumes "distinct (map ps_id ps)" "p \<in> set ps"
  shows "fst (choker_run now now' ps c) (ps_id p) =
    Some (choker_decide (map ps_id (take (max_unchoked c) (by_rate ps))) (optimistic_id (snd (choker_run now now' ps c))) p)"
  using fold_upd [OF assms] by (simp add: choker_run_def Let_def)

lemma regular_ids:
  assumes "distinct (map ps_id ps)" "p \<in> set ps" "ps_interested p"
  shows "ps_id p \<in> set (map ps_id (take m (by_rate ps))) \<longleftrightarrow> p \<in> set (take m (by_rate ps))"
proof -
  have "inj_on ps_id (set ps)" using assms(1) by (simp add: distinct_map)
  moreover have "set (take m (by_rate ps)) \<subseteq> set ps" using set_take_subset [of m "by_rate ps"] set_by_rate by blast
  ultimately show ?thesis using assms(2) by (auto dest: inj_onD)
qed

definition unchoked_peers :: "('p \<rightharpoonup> choke_decision) \<Rightarrow> 'p peer_snapshot list \<Rightarrow> 'p peer_snapshot set" where
  "unchoked_peers d ps = {p \<in> set ps. d (ps_id p) = Some Unchoke}"

lemma unchoked_eq:
  assumes "distinct (map ps_id ps)"
  shows "unchoked_peers (fst (choker_run now now' ps c)) ps =
    set (take (max_unchoked c) (by_rate ps)) \<union>
    {p \<in> set ps. ps_interested p \<and> optimistic_id (snd (choker_run now now' ps c)) = Some (ps_id p)}"
proof -
  have "p \<in> set ps \<and> ps_interested p" if "p \<in> set (take (max_unchoked c) (by_rate ps))" for p
    using that set_take_subset [of "max_unchoked c" "by_rate ps"] set_by_rate [of ps] by blast
  moreover have "fst (choker_run now now' ps c) (ps_id p) = Some Unchoke \<longleftrightarrow>
      ps_interested p \<and> (p \<in> set (take (max_unchoked c) (by_rate ps)) \<or>
        optimistic_id (snd (choker_run now now' ps c)) = Some (ps_id p))" if "p \<in> set ps" for p
    unfolding choker_decides [OF assms that] choker_decide_def
    using regular_ids [OF assms that, of "max_unchoked c"] by (cases "ps_interested p") simp_all
  ultimately show ?thesis unfolding unchoked_peers_def by blast
qed

lemma optimistic_at_most_one:
  assumes "distinct (map ps_id ps)"
  shows "card {p \<in> set ps. ps_interested p \<and> i = Some (ps_id p)} \<le> 1"
proof -
  have "inj_on ps_id {p \<in> set ps. ps_interested p \<and> i = Some (ps_id p)}"
    using assms by (auto simp: distinct_map intro: inj_on_subset)
  then have "card {p \<in> set ps. ps_interested p \<and> i = Some (ps_id p)} \<le> card (set_option i)"
    by (rule card_inj_on_le) auto
  then show ?thesis by (cases i) simp_all
qed

lemma rotation_fills:
  assumes "optimistic_id c = None \<or> now - last_optimistic_rotate c \<ge> OPTIMISTIC_ROTATE_INTERVAL"
    and "max_unchoked c < length (by_rate ps)"
  shows "optimistic_id (snd (choker_run now now' ps c)) = Some (ps_id (by_rate ps ! max_unchoked c))"
  using assms
  by (auto simp: choker_run_def choker_rotate_def Let_def Cons_nth_drop_Suc [symmetric] split: list.splits)

text \<open>
  C18. One round of the choker, whatever its state: every peer gets a decision, a peer that is not
  interested is choked, and the peers unchoked are as many of the interested peers as there are regular
  slots, none of them slower than an interested peer left out, together with at most the optimistic peer.
  When the optimistic slot is free or its time is up and more peers are interested than there are regular
  slots, exactly one more peer than these is unchoked.
\<close>

theorem choker_slots:
  fixes c :: "'p choker"
  assumes "distinct (map ps_id ps)" and "choker_run now now' ps c = (d, c')"
  shows "(\<forall>p \<in> set ps. d (ps_id p) \<noteq> None \<and> (\<not> ps_interested p \<longrightarrow> d (ps_id p) = Some Choke)) \<and>
    (\<exists>R. R \<subseteq> unchoked_peers d ps \<and> card R = min (max_unchoked c) (length (filter ps_interested ps)) \<and>
       (\<forall>r \<in> R. \<forall>p \<in> set (filter ps_interested ps) - R. ps_upload_rate p \<le> ps_upload_rate r) \<and>
       (\<forall>p \<in> unchoked_peers d ps - R. optimistic_id c' = Some (ps_id p))) \<and>
    card (unchoked_peers d ps) \<le> max_unchoked c + 1 \<and>
    ((optimistic_id c = None \<or> now - last_optimistic_rotate c \<ge> OPTIMISTIC_ROTATE_INTERVAL) \<and>
       max_unchoked c < length (filter ps_interested ps) \<longrightarrow> card (unchoked_peers d ps) = max_unchoked c + 1)"
    (is "?each \<and> (\<exists>R. ?top R) \<and> ?most \<and> ?full")
proof -
  let ?m = "max_unchoked c" and ?q = "by_rate ps"
  let ?R = "set (take ?m ?q)" and ?O = "{p \<in> set ps. ps_interested p \<and> optimistic_id c' = Some (ps_id p)}"
  have d: "d = fst (choker_run now now' ps c)" and c': "c' = snd (choker_run now now' ps c)" using assms(2) by simp_all
  have U: "unchoked_peers d ps = ?R \<union> ?O" unfolding d c' by (rule unchoked_eq [OF assms(1)])
  have dist: "distinct ?q" using distinct_by_rate [OF assms(1)] by (simp add: distinct_map)
  then have cR: "card ?R = min ?m (length (filter ps_interested ps))"
    by (simp add: distinct_card length_by_rate min.commute)
  have ?each
    using choker_decides [OF assms(1), of _ now now' c] unfolding d by (auto simp: choker_decide_def)
  moreover have "?top ?R"
  proof (intro conjI ballI)
    fix r p assume "r \<in> ?R" "p \<in> set (filter ps_interested ps) - ?R"
    then have "p \<in> set (drop ?m ?q)"
      using set_by_rate [of ps] set_append [of "take ?m ?q" "drop ?m ?q"] by auto
    then show "ps_upload_rate p \<le> ps_upload_rate r" using \<open>r \<in> ?R\<close> by (rule by_rate_ranked [rotated])
  qed (use U cR in auto)
  moreover have ?most
    using card_Un_le [of ?R ?O] optimistic_at_most_one [OF assms(1), of "optimistic_id c'"] cR unfolding U by linarith
  moreover have ?full
  proof
    assume a: "(optimistic_id c = None \<or> now - last_optimistic_rotate c \<ge> OPTIMISTIC_ROTATE_INTERVAL) \<and>
       ?m < length (filter ps_interested ps)"
    then have m: "?m < length ?q" by (simp add: length_by_rate)
    then have "optimistic_id c' = Some (ps_id (?q ! ?m))" using rotation_fills a unfolding c' by blast
    moreover have "?q ! ?m \<in> set ps \<and> ps_interested (?q ! ?m)" using m nth_mem [of ?m ?q] set_by_rate [of ps] by auto
    moreover have "?q ! ?m \<notin> ?R" using dist m by (auto simp: in_set_conv_nth nth_eq_iff_index_eq)
    ultimately have "insert (?q ! ?m) ?R \<subseteq> unchoked_peers d ps" "card (insert (?q ! ?m) ?R) = ?m + 1"
      using a cR unfolding U by auto
    then have "?m + 1 \<le> card (unchoked_peers d ps)"
      using card_mono [of "unchoked_peers d ps" "insert (?q ! ?m) ?R"] by (simp add: unchoked_peers_def)
    then show "card (unchoked_peers d ps) = ?m + 1" using \<open>?most\<close> by linarith
  qed
  ultimately show ?thesis by blast
qed

definition sample_round :: "nat peer_snapshot list" where
  "sample_round =
     [\<lparr>ps_id = 0, ps_interested = True, ps_upload_rate = 10, ps_current_choke = Choked\<rparr>,
      \<lparr>ps_id = 1, ps_interested = True, ps_upload_rate = 50, ps_current_choke = Choked\<rparr>,
      \<lparr>ps_id = 2, ps_interested = True, ps_upload_rate = 30, ps_current_choke = Choked\<rparr>,
      \<lparr>ps_id = 3, ps_interested = False, ps_upload_rate = 100, ps_current_choke = Choked\<rparr>]"

theorem choker_slots_witness:
  "card (unchoked_peers (fst (choker_run 0 0 sample_round (choker_new 0 1))) sample_round) = 2 \<and>
   fst (choker_run 0 0 sample_round (choker_new 0 1)) 3 = Some Choke"
  using choker_slots [of sample_round 0 0 "choker_new 0 1"]
  by (simp add: sample_round_def choker_new_def prod_eq_iff)

subsection \<open>Many rounds\<close>

fun choker_rounds ::
    "(nat \<times> nat \<times> 'p peer_snapshot list) list \<Rightarrow> 'p choker \<Rightarrow> ('p \<rightharpoonup> choke_decision) list \<times> 'p choker" where
  "choker_rounds [] c = ([], c)"
| "choker_rounds ((now, now', ps) # rs) c =
     (let (d, c') = choker_run now now' ps c in apfst (Cons d) (choker_rounds rs c'))"

lemma choker_rounds_Cons:
  "fst (choker_rounds ((now, now', ps) # rs) c) =
     fst (choker_run now now' ps c) # fst (choker_rounds rs (snd (choker_run now now' ps c)))"
  "snd (choker_rounds ((now, now', ps) # rs) c) = snd (choker_rounds rs (snd (choker_run now now' ps c)))"
  by (simp_all add: case_prod_beta)

declare choker_rounds.simps(2) [simp del] choker_rounds_Cons [simp]

definition ranked :: "nat \<Rightarrow> 'p \<Rightarrow> 'p peer_snapshot list \<Rightarrow> bool" where
  "ranked m i ps \<longleftrightarrow> distinct (map ps_id ps) \<and> m < length (by_rate ps) \<and> ps_id (by_rate ps ! m) = i"

text \<open>The decisions that unchoke the peers of the first \<open>m + 1\<close> ranks and choke all others.\<close>

definition by_rank :: "nat \<Rightarrow> 'p peer_snapshot list \<Rightarrow> ('p \<rightharpoonup> choke_decision) \<Rightarrow> bool" where
  "by_rank m ps d \<longleftrightarrow> list_all (\<lambda>p. d (ps_id p) = Some (if p \<in> set (take (Suc m) (by_rate ps)) then Unchoke else Choke)) ps"

lemma max_unchoked_run [simp]: "max_unchoked (snd (choker_run now now' ps c)) = max_unchoked c"
  by (simp add: choker_run_def choker_rotate_def Let_def split: list.splits)

lemma optimistic_kept:
  assumes "ranked (max_unchoked c) i ps" "optimistic_id c \<in> {None, Some i}"
  shows "optimistic_id (snd (choker_run now now' ps c)) = Some i"
  using assms rotation_fills [of c now ps now']
  by (cases "optimistic_id c = None \<or> now - last_optimistic_rotate c \<ge> OPTIMISTIC_ROTATE_INTERVAL")
    (auto simp: ranked_def choker_run_def choker_rotate_def Let_def)

lemma by_rank_round:
  assumes "ranked (max_unchoked c) i ps" "optimistic_id c \<in> {None, Some i}"
  shows "by_rank (max_unchoked c) ps (fst (choker_run now now' ps c))"
proof -
  let ?q = "by_rate ps" and ?m = "max_unchoked c"
  have ps: "distinct (map ps_id ps)" and m: "?m < length ?q" and i: "ps_id (?q ! ?m) = i"
    using assms(1) by (simp_all add: ranked_def)
  have next_rank: "?q ! ?m \<in> set ps" using m nth_mem [of ?m ?q] set_by_rate [of ps] by auto
  have "choker_decide (map ps_id (take ?m ?q)) (Some i) p = (if p \<in> set (take (Suc ?m) ?q) then Unchoke else Choke)"
    if p: "p \<in> set ps" for p
  proof (cases "ps_interested p")
    case True
    have "ps_id p = i \<longleftrightarrow> p = ?q ! ?m" using ps p next_rank i by (auto simp: distinct_map dest: inj_onD)
    then show ?thesis using True regular_ids [OF ps p True, of ?m] by (auto simp: choker_decide_def take_Suc_conv_app_nth [OF m])
  next
    case False
    then have "p \<notin> set (take (Suc ?m) ?q)" using set_take_subset [of "Suc ?m" ?q] set_by_rate [of ps] by blast
    then show ?thesis using False by (simp add: choker_decide_def)
  qed
  then show ?thesis
    using choker_decides [OF ps, of _ now now' c] optimistic_kept [OF assms, of now now'] by (simp add: by_rank_def list_all_iff)
qed

lemma by_rank_rounds:
  assumes "list_all (\<lambda>(_, _, ps). ranked (max_unchoked c) i ps) rounds" "optimistic_id c \<in> {None, Some i}"
  shows "list_all2 (\<lambda>(_, _, ps) d. by_rank (max_unchoked c) ps d) rounds (fst (choker_rounds rounds c)) \<and>
    optimistic_id (snd (choker_rounds rounds c)) = (if rounds = [] then optimistic_id c else Some i)"
  using assms
proof (induction rounds arbitrary: c)
  case (Cons r rounds)
  obtain now now' ps where r: "r = (now, now', ps)" by (cases r)
  then have ps: "ranked (max_unchoked c) i ps" using Cons.prems(1) by simp
  show ?case
    using Cons.IH [of "snd (choker_run now now' ps c)"] Cons.prems(1) by_rank_round [OF ps Cons.prems(2), of now now']
      optimistic_kept [OF ps Cons.prems(2), of now now']
    by (simp add: r)
qed simp

text \<open>
  C19. The optimistic slot does not go round. Whenever it is given, to begin with or because its time is
  up, it goes to the interested peer ranked directly after the regular slots. So as long as the same peer
  \<open>i\<close> holds that rank the slot stays with it: after every round it is the optimistic peer, and each round
  unchokes exactly the peers with a regular slot and \<open>i\<close>, while every peer ranked below is choked, however
  many rounds there are and however much time passes.
\<close>

theorem optimistic_slot_stuck:
  fixes c :: "'p choker" and i :: 'p
  assumes "list_all (\<lambda>(_, _, ps). ranked m i ps) rounds"
  shows "((optimistic_id c = None \<or> now - last_optimistic_rotate c \<ge> OPTIMISTIC_ROTATE_INTERVAL) \<and>
      max_unchoked c < length (by_rate qs) \<longrightarrow>
        optimistic_id (snd (choker_run now now' qs c)) = Some (ps_id (by_rate qs ! max_unchoked c))) \<and>
    list_all2 (\<lambda>(_, _, ps) d. by_rank m ps d) rounds (fst (choker_rounds rounds (choker_new start m))) \<and>
    (rounds \<noteq> [] \<longrightarrow> optimistic_id (snd (choker_rounds rounds (choker_new start m))) = Some i)"
  using by_rank_rounds [of "choker_new start m" i rounds] rotation_fills [of c now qs now'] assms
  by (simp add: choker_new_def)

text \<open>
  A minute apart, with one regular slot: the peer of the second rank is unchoked both times and keeps the
  optimistic slot, the one of the third rank is choked both times.
\<close>

theorem optimistic_slot_stuck_witness:
  "case choker_rounds [(0, 0, sample_round), (60000000000, 60000000000, sample_round)] (choker_new 0 1) of (ds, c) \<Rightarrow>
     map (\<lambda>d. (d 1, d 2, d 0)) ds = [(Some Unchoke, Some Unchoke, Some Choke), (Some Unchoke, Some Unchoke, Some Choke)] \<and>
     optimistic_id c = Some 2"
proof -
  let ?rounds = "[(0 :: nat, 0 :: nat, sample_round), (60000000000, 60000000000, sample_round)]"
  have q: "by_rate sample_round = [sample_round ! 1, sample_round ! 2, sample_round ! 0]"
    by (simp add: by_rate_def sample_round_def)
  have "ranked 1 2 sample_round" by (simp add: ranked_def q) (simp add: sample_round_def)
  then have "list_all (\<lambda>(_, _, ps). ranked 1 2 ps) ?rounds" by simp
  note stuck = optimistic_slot_stuck [OF this, of "choker_new 0 1" 0 "[]" 0 0]
  have "list_all2 (\<lambda>(_, _, ps) d. by_rank 1 ps d) ?rounds (fst (choker_rounds ?rounds (choker_new 0 1)))"
    "optimistic_id (snd (choker_rounds ?rounds (choker_new 0 1))) = Some 2" using stuck by blast+
  moreover have "by_rank 1 sample_round d \<longleftrightarrow> d 0 = Some Choke \<and> d 1 = Some Unchoke \<and> d 2 = Some Unchoke \<and> d 3 = Some Choke" for d
    by (simp add: by_rank_def q) (simp add: sample_round_def)
  ultimately show ?thesis by (simp add: case_prod_beta)
qed

end
