(* ===== verification/Jobs.thy ===== *)
theory Jobs
  imports TNG_Text "HOL-Library.AList"
begin

text \<open>
  The in-memory job queue, \<open>job.rs\<close>, \<open>queue.rs\<close> and \<open>error.rs\<close> of \<open>crates/rt-jobs\<close>. Fresh identifiers and the
  clock are arguments; an identifier is printed by the parameter \<open>show_id\<close>. The hash map of jobs is an
  association list with one pair per identifier.
\<close>

subsection \<open>Jobs\<close>

datatype job_kind =
    ImportTorrent | VerifyTorrent | RecheckTorrent | MoveTorrent | CopyTorrent | DeleteTorrent
  | BulkSetCategory | BulkSetTags | BulkEditTrackers | BulkReannounce | BulkPause | BulkResume

definition requires_dry_run_first :: "job_kind \<Rightarrow> bool" where
  "requires_dry_run_first k \<longleftrightarrow> k \<in> {MoveTorrent, CopyTorrent, DeleteTorrent, BulkEditTrackers}"

definition is_cancellable :: "job_kind \<Rightarrow> bool" where
  "is_cancellable k \<longleftrightarrow>
     k \<in> {RecheckTorrent, VerifyTorrent, MoveTorrent, CopyTorrent, BulkReannounce, BulkPause, BulkResume,
          BulkSetCategory, BulkSetTags, BulkEditTrackers}"

datatype job_state = JobQueued | JobRunning | JobPaused | JobCancelling | JobCancelled | JobCompleted | JobFailed

definition job_is_terminal :: "job_state \<Rightarrow> bool" where
  "job_is_terminal s \<longleftrightarrow> s \<in> {JobCancelled, JobCompleted, JobFailed}"

definition job_is_active :: "job_state \<Rightarrow> bool" where
  "job_is_active s \<longleftrightarrow> s \<in> {JobQueued, JobRunning, JobPaused, JobCancelling}"

fun job_state_text :: "job_state \<Rightarrow> bytes" where
  "job_state_text JobQueued = ascii ''queued''"
| "job_state_text JobRunning = ascii ''running''"
| "job_state_text JobPaused = ascii ''paused''"
| "job_state_text JobCancelling = ascii ''cancelling''"
| "job_state_text JobCancelled = ascii ''cancelled''"
| "job_state_text JobCompleted = ascii ''completed''"
| "job_state_text JobFailed = ascii ''failed''"

record job_progress =
  jp_total :: u64
  jp_done :: u64
  jp_checkpoint :: u64

definition progress_new :: "u64 \<Rightarrow> job_progress" where
  "progress_new n = \<lparr>jp_total = n, jp_done = 0, jp_checkpoint = 0\<rparr>"

text \<open>The sum wraps before the minimum is taken.\<close>

definition progress_advance :: "u64 \<Rightarrow> job_progress \<Rightarrow> job_progress" where
  "progress_advance n p = (let d = min (jp_done p + n) (jp_total p) in p\<lparr>jp_done := d, jp_checkpoint := d\<rparr>)"

record 'i job =
  job_id :: 'i
  job_kind_of :: job_kind
  job_state_of :: job_state
  affected_torrents :: "bytes list"
  job_progress_of :: job_progress
  dry_run :: bool
  job_error_text :: "bytes option"
  created_at :: u64
  started_at :: "u64 option"
  finished_at :: "u64 option"

definition job_new :: "'i \<Rightarrow> u64 \<Rightarrow> job_kind \<Rightarrow> bytes list \<Rightarrow> bool \<Rightarrow> u64 \<Rightarrow> 'i job" where
  "job_new fresh now k torrents dry n =
     \<lparr>job_id = fresh, job_kind_of = k, job_state_of = JobQueued, affected_torrents = torrents,
      job_progress_of = progress_new n, dry_run = dry, job_error_text = None, created_at = now,
      started_at = None, finished_at = None\<rparr>"

definition job_start :: "u64 \<Rightarrow> 'i job \<Rightarrow> 'i job" where
  "job_start now j = j\<lparr>job_state_of := JobRunning, started_at := Some now\<rparr>"

definition job_complete :: "u64 \<Rightarrow> 'i job \<Rightarrow> 'i job" where
  "job_complete now j = j\<lparr>job_state_of := JobCompleted, finished_at := Some now\<rparr>"

definition job_fail :: "u64 \<Rightarrow> bytes \<Rightarrow> 'i job \<Rightarrow> 'i job" where
  "job_fail now reason j = j\<lparr>job_state_of := JobFailed, job_error_text := Some reason, finished_at := Some now\<rparr>"

definition job_cancel :: "u64 \<Rightarrow> 'i job \<Rightarrow> 'i job" where
  "job_cancel now j = j\<lparr>job_state_of := JobCancelled, finished_at := Some now\<rparr>"

subsection \<open>The queue\<close>

datatype job_error =
    JobNotFound bytes | NotCancellable bytes bytes | AlreadyTerminal bytes bytes | DryRunRequired string

type_synonym 'i job_queue = "('i \<times> 'i job) list"

definition enqueue :: "'i job \<Rightarrow> 'i job_queue \<Rightarrow> 'i \<times> 'i job_queue" where
  "enqueue j q = (job_id j, AList.update (job_id j) j q)"

definition queue_get :: "'i \<Rightarrow> 'i job_queue \<Rightarrow> 'i job option" where
  "queue_get i q = map_of q i"

definition queue_cancel :: "('i \<Rightarrow> bytes) \<Rightarrow> u64 \<Rightarrow> 'i \<Rightarrow> 'i job_queue \<Rightarrow> (job_error + unit) \<times> 'i job_queue" where
  "queue_cancel show_id now i q =
     (case map_of q i of
        None \<Rightarrow> (Inl (JobNotFound (show_id i)), q)
      | Some j \<Rightarrow>
          if job_is_terminal (job_state_of j) then (Inl (AlreadyTerminal (show_id i) (job_state_text (job_state_of j))), q)
          else if \<not> is_cancellable (job_kind_of j) then (Inl (NotCancellable (show_id i) (job_state_text (job_state_of j))), q)
          else (Inr (), AList.update i (job_cancel now j) q))"

definition active_jobs :: "'i job_queue \<Rightarrow> 'i job list" where
  "active_jobs q = filter (\<lambda>j. job_is_active (job_state_of j)) (map snd q)"

text \<open>Sorting by the reversed creation time, newest first; the sort is stable.\<close>

definition all_jobs :: "'i job_queue \<Rightarrow> 'i job list" where
  "all_jobs q = sort_key (\<lambda>j. - int (unat (created_at j))) (map snd q)"

fun kind_name :: "job_kind \<Rightarrow> string" where
  "kind_name ImportTorrent = ''ImportTorrent''"
| "kind_name VerifyTorrent = ''VerifyTorrent''"
| "kind_name RecheckTorrent = ''RecheckTorrent''"
| "kind_name MoveTorrent = ''MoveTorrent''"
| "kind_name CopyTorrent = ''CopyTorrent''"
| "kind_name DeleteTorrent = ''DeleteTorrent''"
| "kind_name BulkSetCategory = ''BulkSetCategory''"
| "kind_name BulkSetTags = ''BulkSetTags''"
| "kind_name BulkEditTrackers = ''BulkEditTrackers''"
| "kind_name BulkReannounce = ''BulkReannounce''"
| "kind_name BulkPause = ''BulkPause''"
| "kind_name BulkResume = ''BulkResume''"

definition validate_destructive :: "job_kind \<Rightarrow> bool \<Rightarrow> job_error + unit" where
  "validate_destructive k dry = (if requires_dry_run_first k \<and> \<not> dry then Inl (DryRunRequired (kind_name k)) else Inr ())"

subsection \<open>Lemmas\<close>

lemma active_iff_not_terminal: "job_is_active s \<longleftrightarrow> \<not> job_is_terminal s"
  by (cases s) (simp_all add: job_is_active_def job_is_terminal_def)

text \<open>Progress never exceeds the total, and counts what was done as long as the sum fits 64 bits.\<close>

lemma progress_bounded: "jp_done (progress_advance n p) \<le> jp_total (progress_advance n p)"
  by (simp add: progress_advance_def Let_def)

lemma progress_exact:
  assumes "unat (jp_done p) + unat n < 2 ^ 64"
  shows "unat (jp_done (progress_advance n p)) = min (unat (jp_done p) + unat n) (unat (jp_total p))"
proof -
  have "unat (jp_done p + n) = unat (jp_done p) + unat n" using assms by (simp add: unat_add_lem [symmetric])
  then show ?thesis by (simp add: progress_advance_def Let_def min_def word_le_nat_alt)
qed

text \<open>Without that bound progress can go back.\<close>

lemma progress_wraps:
  "jp_done (progress_advance (- 1) \<lparr>jp_total = 100, jp_done = 50, jp_checkpoint = 50\<rparr>) = 49"
  by (simp add: progress_advance_def Let_def)

text \<open>A cancellation succeeds exactly on an active job of a cancellable kind, and changes no other job.\<close>

lemma queue_cancel_ok:
  "fst (queue_cancel show_id now i q) = Inr () \<longleftrightarrow>
     (\<exists>j. queue_get i q = Some j \<and> job_is_active (job_state_of j) \<and> is_cancellable (job_kind_of j))"
  by (simp add: queue_cancel_def queue_get_def active_iff_not_terminal split: option.splits)

lemma queue_cancel_get:
  "queue_get k (snd (queue_cancel show_id now i q)) =
     (if k = i \<and> fst (queue_cancel show_id now i q) = Inr () then map_option (job_cancel now) (queue_get k q)
      else queue_get k q)"
  by (simp add: queue_cancel_def queue_get_def update_conv' split: option.splits)

lemma all_jobs_newest_first:
  "sorted_wrt (\<lambda>a b. created_at a \<ge> created_at b) (all_jobs q)" "set (all_jobs q) = set (map snd q)"
proof -
  have "sorted (map (\<lambda>j. - int (unat (created_at j))) (all_jobs q))" by (simp add: all_jobs_def)
  then show "sorted_wrt (\<lambda>a b. created_at a \<ge> created_at b) (all_jobs q)"
    unfolding sorted_map by (rule sorted_wrt_mono_rel [rotated]) (simp add: word_le_def)
qed (simp add: all_jobs_def)

end
