(* ===== verification/Storage_Elevator.thy ===== *)
theory Storage_Elevator
  imports TNG_Prelude "HOL-Library.Multiset" "HOL-Library.Product_Lexorder"
begin

text \<open>
  The per-device request elevator of the storage crate, \<open>elevator.rs\<close> and \<open>io_class.rs\<close> of \<open>crates/rt-storage\<close>:
  requests wait for a time budget, ready ones are ordered, selected by class weights and merged. Instants
  and durations count nanoseconds. A path is only compared, so its type is a parameter with a linear order.
\<close>

subsection \<open>Requests\<close>

datatype io_class = Metadata | Recheck | MoveCopy | PeerWrite | PeerRead | Foreground

text \<open>The discriminants of the source, by which the classes are ordered.\<close>

fun io_class_index :: "io_class \<Rightarrow> nat" where
  "io_class_index Metadata = 0"
| "io_class_index Recheck = 1"
| "io_class_index MoveCopy = 2"
| "io_class_index PeerWrite = 3"
| "io_class_index PeerRead = 4"
| "io_class_index Foreground = 5"

fun hdd_concurrency :: "io_class \<Rightarrow> nat" where
  "hdd_concurrency Metadata = 1"
| "hdd_concurrency Recheck = 1"
| "hdd_concurrency MoveCopy = 1"
| "hdd_concurrency PeerWrite = 2"
| "hdd_concurrency PeerRead = 4"
| "hdd_concurrency Foreground = 4"

fun ssd_concurrency :: "io_class \<Rightarrow> nat" where
  "ssd_concurrency Metadata = 2"
| "ssd_concurrency Recheck = 4"
| "ssd_concurrency MoveCopy = 4"
| "ssd_concurrency PeerWrite = 8"
| "ssd_concurrency PeerRead = 16"
| "ssd_concurrency Foreground = 16"

definition ELEVATOR_CLASS_ORDER :: "io_class list" where
  "ELEVATOR_CLASS_ORDER = [Foreground, PeerRead, PeerWrite, MoveCopy, Recheck, Metadata]"

fun elevator_class_weight :: "io_class \<Rightarrow> nat" where
  "elevator_class_weight Foreground = 16"
| "elevator_class_weight PeerRead = 8"
| "elevator_class_weight PeerWrite = 4"
| "elevator_class_weight MoveCopy = 2"
| "elevator_class_weight Recheck = 1"
| "elevator_class_weight Metadata = 1"

datatype storage_profile = Hdd | Ssd | Nvme | NetworkStorage | UnknownStorage

datatype io_kind = IoRead | IoWrite

record 'p file_key =
  fk_root :: bytes
  fk_path :: 'p

record 'p io_op =
  io_file :: "'p file_key"
  io_offset :: u64
  io_len :: u32
  io_class_of :: io_class
  io_kind_of :: io_kind
  io_deadline :: nat
  io_critical :: bool

record 'p elevator_dispatch =
  ed_file :: "'p file_key"
  ed_offset :: u64
  ed_len :: u32
  ed_class :: io_class
  ed_kind :: io_kind
  ed_critical :: bool
  op_sequences :: "u64 list"

record 'p queued_op =
  qo_op :: "'p io_op"
  qo_sequence :: u64
  queued_at :: nat

record 'p device_elevator =
  el_device :: string
  el_profile :: storage_profile
  el_budget :: nat
  next_sequence :: u64
  el_pending :: "'p queued_op list"

definition elevator_new :: "string \<Rightarrow> storage_profile \<Rightarrow> nat \<Rightarrow> 'p device_elevator" where
  "elevator_new device profile budget =
     \<lparr>el_device = device, el_profile = profile, el_budget = (if profile = Ssd \<or> profile = Nvme then 0 else budget),
      next_sequence = 1, el_pending = []\<rparr>"

definition elevator_submit :: "nat \<Rightarrow> 'p io_op \<Rightarrow> 'p device_elevator \<Rightarrow> u64 \<times> 'p device_elevator" where
  "elevator_submit now rq e =
     (next_sequence e,
      e\<lparr>next_sequence := saturating_add (next_sequence e) 1,
        el_pending := el_pending e @ [\<lparr>qo_op = rq, qo_sequence = next_sequence e, queued_at = now\<rparr>]\<rparr>)"

definition op_is_ready :: "'p device_elevator \<Rightarrow> nat \<Rightarrow> 'p queued_op \<Rightarrow> bool" where
  "op_is_ready e now q \<longleftrightarrow>
     io_critical (qo_op q) \<or> io_deadline (qo_op q) \<le> now \<or> io_class_of (qo_op q) = Foreground \<or>
     (queued_at q \<le> now \<and> now - queued_at q \<ge> el_budget e)"

subsection \<open>Order\<close>

definition promotion_rank :: "nat \<Rightarrow> 'p queued_op \<Rightarrow> nat" where
  "promotion_rank now q =
     (if io_critical (qo_op q) then 3
      else if io_class_of (qo_op q) = Foreground then 2
      else if io_deadline (qo_op q) \<le> now then 1
      else 0)"

text \<open>
  \<open>compare_queued_ops\<close> compares these keys component by component; the first two are compared the other
  way round, which the sign expresses.
\<close>

definition queue_key :: "nat \<Rightarrow> 'p::linorder queued_op \<Rightarrow> int \<times> int \<times> bytes \<times> 'p \<times> u64 \<times> u64" where
  "queue_key now q =
     (- int (promotion_rank now q), - int (io_class_index (io_class_of (qo_op q))), fk_root (io_file (qo_op q)),
      fk_path (io_file (qo_op q)), io_offset (qo_op q), qo_sequence q)"

subsection \<open>Selection\<close>

text \<open>Each part returns the requests it selects and those it leaves; \<open>n\<close> is the number still allowed.\<close>

fun take_promoted :: "nat \<Rightarrow> nat \<Rightarrow> 'p queued_op list \<Rightarrow> 'p queued_op list \<times> 'p queued_op list" where
  "take_promoted now n [] = ([], [])"
| "take_promoted now n (q # qs) =
     (if n = 0 then ([], q # qs)
      else if promotion_rank now q > 0 then map_prod (Cons q) id (take_promoted now (n - 1) qs)
      else map_prod id (Cons q) (take_promoted now n qs))"

fun take_class :: "nat \<Rightarrow> io_class \<Rightarrow> nat \<Rightarrow> 'p queued_op list \<Rightarrow> 'p queued_op list \<times> 'p queued_op list" where
  "take_class 0 c n ready = ([], ready)"
| "take_class (Suc w) c n ready =
     (if n = 0 then ([], ready)
      else case List.extract (\<lambda>q. io_class_of (qo_op q) = c) ready of
             None \<Rightarrow> ([], ready)
           | Some (ys, q, zs) \<Rightarrow> map_prod (Cons q) id (take_class w c (n - 1) (ys @ zs)))"

fun take_round :: "io_class list \<Rightarrow> nat \<Rightarrow> 'p queued_op list \<Rightarrow> 'p queued_op list \<times> 'p queued_op list" where
  "take_round [] n ready = ([], ready)"
| "take_round (c # cs) n ready =
     (let (s, r) = take_class (elevator_class_weight c) c n ready in
      map_prod (append s) id (take_round cs (n - length s) r))"

function take_rounds :: "nat \<Rightarrow> 'p queued_op list \<Rightarrow> 'p queued_op list \<times> 'p queued_op list" where
  "take_rounds n ready =
     (if n = 0 \<or> ready = [] then ([], ready)
      else let (s, r) = take_round ELEVATOR_CLASS_ORDER n ready in
        if s = [] then ([], r) else map_prod (append s) id (take_rounds (n - length s) r))"
  by pat_completeness auto
termination
  by (relation "measure fst") auto

declare take_rounds.simps [simp del]

definition select_ready_ops :: "nat \<Rightarrow> nat \<Rightarrow> 'p queued_op list \<Rightarrow> 'p queued_op list \<times> 'p queued_op list" where
  "select_ready_ops now max_ops ready =
     (if max_ops = 0 \<or> ready = [] then ([], ready)
      else let (s, r) = take_promoted now max_ops ready in
        map_prod (append s) id (take_rounds (max_ops - length s) r))"

subsection \<open>Merging\<close>

definition can_merge :: "'p elevator_dispatch \<Rightarrow> 'p io_op \<Rightarrow> bool" where
  "can_merge d rq \<longleftrightarrow>
     ed_kind d = IoRead \<and> io_kind_of rq = IoRead \<and> ed_file d = io_file rq \<and> ed_class d = io_class_of rq \<and>
     io_offset rq \<le> saturating_add (ed_offset d) (ucast (ed_len d))"

definition merge_op :: "'p elevator_dispatch \<Rightarrow> 'p queued_op \<Rightarrow> 'p elevator_dispatch" where
  "merge_op d q =
     (let end_off = max (saturating_add (ed_offset d) (ucast (ed_len d)))
            (saturating_add (io_offset (qo_op q)) (ucast (io_len (qo_op q)))) in
      d\<lparr>ed_len := ucast (min (saturating_sub end_off (ed_offset d)) 0xFFFFFFFF),
        ed_critical := ed_critical d \<or> io_critical (qo_op q),
        op_sequences := op_sequences d @ [qo_sequence q]\<rparr>)"

definition dispatch_of :: "'p queued_op \<Rightarrow> 'p elevator_dispatch" where
  "dispatch_of q =
     \<lparr>ed_file = io_file (qo_op q), ed_offset = io_offset (qo_op q), ed_len = io_len (qo_op q),
      ed_class = io_class_of (qo_op q), ed_kind = io_kind_of (qo_op q), ed_critical = io_critical (qo_op q),
      op_sequences = [qo_sequence q]\<rparr>"

definition coalesce_step :: "'p elevator_dispatch list \<Rightarrow> 'p queued_op \<Rightarrow> 'p elevator_dispatch list" where
  "coalesce_step out q =
     (if out \<noteq> [] \<and> can_merge (last out) (qo_op q) then butlast out @ [merge_op (last out) q]
      else out @ [dispatch_of q])"

definition coalesce_ready_ops :: "'p queued_op list \<Rightarrow> 'p elevator_dispatch list" where
  "coalesce_ready_ops ready = foldl coalesce_step [] ready"

subsection \<open>Draining\<close>

definition drain_ready_limited ::
    "nat \<Rightarrow> nat \<Rightarrow> 'p::linorder device_elevator \<Rightarrow> 'p elevator_dispatch list \<times> 'p device_elevator" where
  "drain_ready_limited now max_ops e =
     (let ready = sort_key (queue_key now) (filter (op_is_ready e now) (el_pending e));
          waiting = filter (\<lambda>q. \<not> op_is_ready e now q) (el_pending e);
          (selected, left) = select_ready_ops now max_ops ready in
      (coalesce_ready_ops selected, e\<lparr>el_pending := waiting @ left\<rparr>))"

definition drain_ready :: "nat \<Rightarrow> 'p::linorder device_elevator \<Rightarrow> 'p elevator_dispatch list \<times> 'p device_elevator" where
  "drain_ready now e = drain_ready_limited now (2 ^ 64 - 1) e"

subsection \<open>What is selected\<close>

lemma take_promoted_split:
  "take_promoted now n qs = (s, r) \<Longrightarrow>
     mset s + mset r = mset qs \<and> length s \<le> n \<and> list_all (\<lambda>q. promotion_rank now q > 0) s \<and>
     (length s < n \<longrightarrow> list_all (\<lambda>q. promotion_rank now q = 0) r)"
proof (induction now n qs arbitrary: s r rule: take_promoted.induct)
  case (2 now n q qs)
  obtain s1 r1 where 1: "take_promoted now (n - 1) qs = (s1, r1)" by fastforce
  obtain s2 r2 where 2: "take_promoted now n qs = (s2, r2)" by fastforce
  show ?case
    using "2.prems" "2.IH"(1) [OF _ _ 1] "2.IH"(2) [OF _ _ 2] 1 2 by (auto split: if_splits)
qed auto

lemma take_class_split:
  "take_class w c n ready = (s, r) \<Longrightarrow>
     mset s + mset r = mset ready \<and> length s \<le> n \<and>
     (0 < w \<and> 0 < n \<and> (\<exists>q \<in> set ready. io_class_of (qo_op q) = c) \<longrightarrow> s \<noteq> [])"
proof (induction w c n ready arbitrary: s r rule: take_class.induct)
  case (2 w c n ready)
  show ?case
  proof (cases "List.extract (\<lambda>q. io_class_of (qo_op q) = c) ready")
    case None
    then have "\<forall>x \<in> set ready. io_class_of (qo_op x) \<noteq> c" by (simp add: extract_None_iff)
    then show ?thesis using "2.prems" None by (auto split: if_splits)
  next
    case (Some p)
    obtain ys q zs where p: "p = (ys, q, zs)" by (cases p)
    obtain s1 r1 where 1: "take_class w c (n - 1) (ys @ zs) = (s1, r1)" by fastforce
    show ?thesis
    proof (cases "n = 0")
      case True
      then show ?thesis using "2.prems" by auto
    next
      case False
      have "s = q # s1" "r = r1" using "2.prems" False Some p 1 by simp_all
      moreover have "mset s1 + mset r1 = mset (ys @ zs)" "length s1 \<le> n - 1"
        using "2.IH" [OF False Some p [symmetric] refl 1] by simp_all
      moreover have "ready = ys @ q # zs" using extract_SomeE [OF Some [unfolded p]] by simp
      ultimately show ?thesis using False by simp
    qed
  qed
qed auto

lemma take_round_split:
  "take_round cs n ready = (s, r) \<Longrightarrow>
     mset s + mset r = mset ready \<and> length s \<le> n \<and>
     (0 < n \<and> (\<exists>q \<in> set ready. io_class_of (qo_op q) \<in> set cs) \<longrightarrow> s \<noteq> [])"
proof (induction cs n ready arbitrary: s r rule: take_round.induct)
  case (2 c cs n ready)
  obtain s1 r1 where 1: "take_class (elevator_class_weight c) c n ready = (s1, r1)" by fastforce
  obtain s2 r2 where 2: "take_round cs (n - length s1) r1 = (s2, r2)" by fastforce
  have s: "s = s1 @ s2" "r = r2" using "2.prems" 1 2 by auto
  note c1 = take_class_split [OF 1] and c2 = "2.IH" [OF 1 [symmetric] refl 2]
  have "0 < elevator_class_weight c" by (cases c) simp_all
  moreover have "set r1 = set ready" if "s1 = []" using c1 that by (auto dest: mset_eq_setD)
  moreover have "mset s + mset r = mset ready" using c1 c2 s by (simp add: add.assoc)
  ultimately show ?case using c1 c2 s by auto
qed auto

lemma every_class: "c \<in> set ELEVATOR_CLASS_ORDER"
  by (cases c) (simp_all add: ELEVATOR_CLASS_ORDER_def)

lemma take_rounds_split:
  "take_rounds n ready = (s, r) \<Longrightarrow> mset s + mset r = mset ready \<and> length s = min n (length ready)"
proof (induction n ready arbitrary: s r rule: take_rounds.induct)
  case (1 n ready)
  show ?case
  proof (cases "n = 0 \<or> ready = []")
    case True
    then show ?thesis using "1.prems" by (auto simp: take_rounds.simps)
  next
    case False
    obtain s1 r1 where 1: "take_round ELEVATOR_CLASS_ORDER n ready = (s1, r1)" by fastforce
    obtain s2 r2 where 2: "take_rounds (n - length s1) r1 = (s2, r2)" by fastforce
    note c1 = take_round_split [OF 1]
    have "s1 \<noteq> []" using c1 False every_class by (cases ready) auto
    then have s: "s = s1 @ s2" "r = r2" using "1.prems" False 1 2 by (auto simp: take_rounds.simps [of n ready])
    note c2 = "1.IH" [OF False 1 [symmetric] refl \<open>s1 \<noteq> []\<close> 2]
    have "length ready = length s1 + length r1" using c1 by (metis mset_append size_mset length_append)
    then show ?thesis using c1 c2 s by (auto simp: add.assoc min_def)
  qed
qed

lemma select_split:
  assumes "select_ready_ops now m ready = (s, r)"
  shows "mset s + mset r = mset ready" "length s = min m (length ready)"
    "(\<exists>q \<in> set r. promotion_rank now q > 0) \<Longrightarrow> list_all (\<lambda>q. promotion_rank now q > 0) s"
proof -
  obtain s1 r1 where 1: "take_promoted now m ready = (s1, r1)" by fastforce
  obtain s2 r2 where 2: "take_rounds (m - length s1) r1 = (s2, r2)" by fastforce
  note c1 = take_promoted_split [OF 1] and c2 = take_rounds_split [OF 2]
  have len: "length ready = length s1 + length r1" using c1 by (metis mset_append size_mset length_append)
  have "set r2 \<subseteq> set r1" using c2 by (metis set_mset_mset set_mset_mono mset_subset_eq_add_right)
  consider "m = 0 \<or> ready = []" | "s = s1 @ s2" "r = r2"
    using assms 1 2 by (auto simp: select_ready_ops_def split: if_splits)
  then have "mset s + mset r = mset ready \<and> length s = min m (length ready) \<and>
    ((\<exists>q \<in> set r. promotion_rank now q > 0) \<longrightarrow> list_all (\<lambda>q. promotion_rank now q > 0) s)"
  proof cases
    case 1
    then show ?thesis using assms by (auto simp: select_ready_ops_def)
  next
    case 2
    show ?thesis
    proof (cases "length s1 < m")
      case True
      then have "\<not> (\<exists>q \<in> set r. promotion_rank now q > 0)" using c1 2 \<open>set r2 \<subseteq> set r1\<close> by (auto simp: list_all_iff)
      then show ?thesis using c1 c2 2 len by (auto simp: add.assoc)
    next
      case False
      then have "s2 = []" using c1 c2 by simp
      then show ?thesis using c1 c2 2 len by (auto simp: add.assoc)
    qed
  qed
  then show "mset s + mset r = mset ready" "length s = min m (length ready)"
    "(\<exists>q \<in> set r. promotion_rank now q > 0) \<Longrightarrow> list_all (\<lambda>q. promotion_rank now q > 0) s"
    by blast+
qed

lemma coalesce_sequences: "concat (map op_sequences (coalesce_ready_ops qs)) = map qo_sequence qs"
proof -
  have step: "concat (map op_sequences (coalesce_step out q)) = concat (map op_sequences out) @ [qo_sequence q]"
    for out :: "'a elevator_dispatch list" and q
    by (cases out rule: rev_cases) (simp_all add: coalesce_step_def dispatch_of_def merge_op_def Let_def)
  have "concat (map op_sequences (foldl coalesce_step out qs)) = concat (map op_sequences out) @ map qo_sequence qs" for out
    by (induction qs arbitrary: out) (simp_all add: step)
  then show ?thesis by (simp add: coalesce_ready_ops_def)
qed

text \<open>
  C21. One drain of the elevator dispatches requests it holds and keeps all others: the requests dispatched
  are ready, each of them is carried by exactly one dispatch, they are as many as are ready, up to the
  limit, so no slot is wasted while a request could use it, and an urgent request is left behind only when
  every request dispatched was urgent.
\<close>

theorem elevator_drain:
  fixes e :: "'p::linorder device_elevator"
  assumes "drain_ready_limited now m e = (ds, e')"
  shows "\<exists>sel. concat (map op_sequences ds) = map qo_sequence sel \<and>
    mset sel + mset (el_pending e') = mset (el_pending e) \<and>
    list_all (op_is_ready e now) sel \<and>
    length sel = min m (length (filter (op_is_ready e now) (el_pending e))) \<and>
    ((\<exists>q \<in> set (el_pending e'). op_is_ready e now q \<and> promotion_rank now q > 0) \<longrightarrow>
       list_all (\<lambda>q. promotion_rank now q > 0) sel)"
proof -
  let ?ready = "sort_key (queue_key now) (filter (op_is_ready e now) (el_pending e))"
  let ?waiting = "filter (\<lambda>q. \<not> op_is_ready e now q) (el_pending e)"
  obtain s r where sr: "select_ready_ops now m ?ready = (s, r)" by fastforce
  then have d: "ds = coalesce_ready_ops s" "el_pending e' = ?waiting @ r"
    using assms by (auto simp: drain_ready_limited_def Let_def)
  note sel = select_split [OF sr]
  have "mset s + mset (?waiting @ r) = (mset s + mset r) + mset ?waiting" by (simp add: ac_simps)
  also have "\<dots> = mset ?ready + mset ?waiting" by (simp only: sel(1))
  also have "\<dots> = mset (el_pending e)" using multiset_partition [of "mset (el_pending e)" "op_is_ready e now"] by simp
  finally have "mset s + mset (el_pending e') = mset (el_pending e)" by (simp add: d)
  moreover have "set s \<subseteq> set ?ready" using sel(1) by (metis set_mset_mset set_mset_mono mset_subset_eq_add_left)
  then have "list_all (op_is_ready e now) s" by (auto simp: list_all_iff)
  moreover have "length s = min m (length (filter (op_is_ready e now) (el_pending e)))" using sel(2) by simp
  moreover have "list_all (\<lambda>q. promotion_rank now q > 0) s"
    if "\<exists>q \<in> set (el_pending e'). op_is_ready e now q \<and> promotion_rank now q > 0"
    using that sel(3) by (auto simp: d)
  ultimately show ?thesis using coalesce_sequences [of s] by (auto simp: d)
qed

text \<open>A read at offset 1000 that is overdue, and one at offset 0 of the same file that is not.\<close>

definition read_at :: "u64 \<Rightarrow> nat \<Rightarrow> nat io_op" where
  "read_at off deadline =
     \<lparr>io_file = \<lparr>fk_root = [], fk_path = 0\<rparr>, io_offset = off, io_len = 100, io_class_of = PeerRead, io_kind_of = IoRead,
      io_deadline = deadline, io_critical = False\<rparr>"

definition late_op :: "nat queued_op" where
  "late_op = \<lparr>qo_op = read_at 1000 2, qo_sequence = 1, queued_at = 0\<rparr>"

definition early_op :: "nat queued_op" where
  "early_op = \<lparr>qo_op = read_at 0 60, qo_sequence = 2, queued_at = 0\<rparr>"

definition two_reads :: "nat device_elevator" where
  "two_reads = snd (elevator_submit 0 (read_at 0 60) (snd (elevator_submit 0 (read_at 1000 2) (elevator_new ''sda'' Hdd 5))))"

lemma two_reads_pending: "el_pending two_reads = [late_op, early_op]" "el_budget two_reads = 5"
  by (simp_all add: two_reads_def elevator_submit_def elevator_new_def late_op_def early_op_def saturating_add_def)

theorem elevator_drain_witness:
  "length (concat (map op_sequences (fst (drain_ready_limited 5 1 two_reads)))) = 1"
proof -
  have "length (filter (op_is_ready two_reads 5) (el_pending two_reads)) = 2"
    by (simp add: two_reads_pending op_is_ready_def late_op_def early_op_def)
  then show ?thesis
    using elevator_drain [of 5 1 two_reads "fst (drain_ready_limited 5 1 two_reads)" "snd (drain_ready_limited 5 1 two_reads)"]
    by auto
qed

subsection \<open>What a merged dispatch reads\<close>

definition covers :: "'p elevator_dispatch \<Rightarrow> 'p io_op \<Rightarrow> bool" where
  "covers d rq \<longleftrightarrow> ed_file d = io_file rq \<and> unat (ed_offset d) \<le> unat (io_offset rq) \<and>
     unat (io_offset rq) + unat (io_len rq) \<le> unat (ed_offset d) + unat (ed_len d)"

definition end_of :: "u64 \<Rightarrow> u32 \<Rightarrow> nat" where
  "end_of off len = unat off + unat len"

lemma unat_end: "end_of off len < 2 ^ 64 \<Longrightarrow> unat (saturating_add off (ucast len)) = end_of off len"
  using unsigned_less [of len, where ?'a = nat]
  by (simp add: end_of_def unat_saturating_add unsigned_ucast_eq take_bit_nat_eq_self)

lemma merge_len:
  assumes "end_of (ed_offset d) (ed_len d) < 2 ^ 64" "end_of (io_offset (qo_op q)) (io_len (qo_op q)) < 2 ^ 64"
  shows "unat (ed_len (merge_op d q)) =
    min (max (end_of (ed_offset d) (ed_len d)) (end_of (io_offset (qo_op q)) (io_len (qo_op q))) - unat (ed_offset d)) (2 ^ 32 - 1)"
    (is "_ = min (max ?d ?q - ?o) _")
proof -
  let ?e = "max (saturating_add (ed_offset d) (ucast (ed_len d))) (saturating_add (io_offset (qo_op q)) (ucast (io_len (qo_op q))))"
  have e: "unat ?e = max ?d ?q" using unat_end [OF assms(1)] unat_end [OF assms(2)] by (simp add: max_def word_le_nat_alt)
  have "unat (saturating_sub ?e (ed_offset d)) = max ?d ?q - ?o"
    by (simp add: unat_saturating_sub e)
  then have m: "unat (min (saturating_sub ?e (ed_offset d)) 0xFFFFFFFF) = min (max ?d ?q - ?o) (2 ^ 32 - 1)"
    by (simp add: min_def word_le_nat_alt)
  moreover have "min (max ?d ?q - ?o) (2 ^ 32 - 1) < 2 ^ 32" by (simp add: min_less_iff_disj)
  ultimately show ?thesis by (simp add: merge_op_def Let_def unsigned_ucast_eq take_bit_nat_eq_self)
qed

text \<open>
  C22. A read that follows a dispatch of the same file and class, when neither end exceeds 64 bits, is merged
  into it exactly when it begins no later than the dispatch ends, so also when it begins before the dispatch;
  otherwise it becomes a dispatch of its own. Its sequence number is reported with the last dispatch either
  way, but this one reads its bytes exactly when it was not merged, or when it does not begin before the
  dispatch and its end is within 32 bits of the dispatch's offset: a read that begins before the dispatch is
  reported with a dispatch that does not read its bytes. What the dispatch read before is still read.
\<close>

theorem elevator_merge_covers:
  assumes "ed_kind d = IoRead" "io_kind_of (qo_op q) = IoRead" "ed_file d = io_file (qo_op q)" "ed_class d = io_class_of (qo_op q)"
    and "end_of (ed_offset d) (ed_len d) < 2 ^ 64" "end_of (io_offset (qo_op q)) (io_len (qo_op q)) < 2 ^ 64"
  shows "coalesce_step (out @ [d]) q =
      (if unat (io_offset (qo_op q)) \<le> end_of (ed_offset d) (ed_len d) then out @ [merge_op d q] else out @ [d, dispatch_of q]) \<and>
    last (op_sequences (last (coalesce_step (out @ [d]) q))) = qo_sequence q \<and>
    (covers (last (coalesce_step (out @ [d]) q)) (qo_op q) \<longleftrightarrow>
       end_of (ed_offset d) (ed_len d) < unat (io_offset (qo_op q)) \<or>
       ed_offset d \<le> io_offset (qo_op q) \<and> end_of (io_offset (qo_op q)) (io_len (qo_op q)) < unat (ed_offset d) + 2 ^ 32) \<and>
    (covers d rq \<longrightarrow> covers (coalesce_step (out @ [d]) q ! length out) rq)"
proof -
  have f: "ed_file (merge_op d q) = ed_file d" "ed_offset (merge_op d q) = ed_offset d"
    "last (op_sequences (merge_op d q)) = qo_sequence q" by (simp_all add: merge_op_def Let_def)
  have step: "coalesce_step (out @ [d]) q =
      (if unat (io_offset (qo_op q)) \<le> end_of (ed_offset d) (ed_len d) then out @ [merge_op d q] else out @ [d, dispatch_of q])"
    using assms(1-4) unat_end [OF assms(5)] by (simp add: coalesce_step_def can_merge_def word_le_nat_alt)
  have old: "covers d rq \<Longrightarrow> covers (merge_op d q) rq"
    using unsigned_less [of "ed_len d", where ?'a = nat]
    unfolding covers_def f merge_len [OF assms(5,6)] by (auto simp: end_of_def min_def)
  have new: "covers (merge_op d q) (qo_op q) \<longleftrightarrow>
      ed_offset d \<le> io_offset (qo_op q) \<and> end_of (io_offset (qo_op q)) (io_len (qo_op q)) < unat (ed_offset d) + 2 ^ 32"
    unfolding covers_def f merge_len [OF assms(5,6)] word_le_nat_alt using assms(3) by (auto simp: end_of_def min_def)
  have own: "covers (dispatch_of q) (qo_op q)" "last (op_sequences (dispatch_of q)) = qo_sequence q"
    by (simp_all add: covers_def dispatch_of_def)
  show ?thesis unfolding step using f(3) old new own by simp
qed

text \<open>
  The elevator does merge such a request: of the two reads above, the overdue one comes first, and the
  dispatch returned for both reads 100 bytes from offset 1000.
\<close>

theorem elevator_merge_covers_witness:
  "fst (drain_ready_limited 5 10 two_reads) = [merge_op (dispatch_of late_op) early_op] \<and>
   op_sequences (merge_op (dispatch_of late_op) early_op) = [1, 2] \<and>
   \<not> covers (merge_op (dispatch_of late_op) early_op) (qo_op early_op)"
proof -
  have m: "can_merge (dispatch_of late_op) (qo_op early_op)"
    by (simp add: can_merge_def dispatch_of_def late_op_def early_op_def read_at_def saturating_add_def)
  have "filter (op_is_ready two_reads 5) (el_pending two_reads) = [late_op, early_op]"
    by (simp add: two_reads_pending op_is_ready_def late_op_def early_op_def)
  moreover have "sort_key (queue_key 5) [late_op, early_op] = [late_op, early_op]"
    by (simp add: queue_key_def late_op_def early_op_def read_at_def promotion_rank_def less_eq_prod_simp)
  moreover have "select_ready_ops 5 10 [late_op, early_op] = ([late_op, early_op], [])"
    by (simp add: select_ready_ops_def promotion_rank_def late_op_def early_op_def read_at_def take_rounds.simps
        ELEVATOR_CLASS_ORDER_def numeral_eq_Suc extract_Nil_code extract_Cons_code)
  ultimately have "fst (drain_ready_limited 5 10 two_reads) = [merge_op (dispatch_of late_op) early_op]"
    using m by (simp add: drain_ready_limited_def coalesce_ready_ops_def coalesce_step_def)
  moreover have "\<not> covers (merge_op (dispatch_of late_op) early_op) (qo_op early_op)"
    using elevator_merge_covers [of "dispatch_of late_op" early_op "[]"] m
    by (simp add: coalesce_step_def end_of_def dispatch_of_def late_op_def early_op_def read_at_def)
  ultimately show ?thesis by (simp add: merge_op_def dispatch_of_def Let_def late_op_def early_op_def)
qed

end
