(* ===== verification/Rate_Limiter.thy ===== *)
theory Rate_Limiter
  imports TNG_Prelude
begin

text \<open>
  The shared token bucket of the engine, \<open>SharedRateLimiter\<close> of \<open>crates/rt-engine/src/network_budget.rs\<close>. The state
  behind the mutex is a record; one poll is the critical section of the loop in \<open>acquire\<close>. What happens
  between polls (sleeping, yielding, being woken by a change of the limit) only decides when a poll
  happens, so a history of the limiter is a sequence of polls by any callers, each at its time. Instants
  and durations count nanoseconds; the \<open>u128\<close> of the source is a natural number with its saturation
  written out.
\<close>

subsection \<open>State and operations\<close>

definition MAX_INITIAL_BURST_BYTES :: u64 where
  "MAX_INITIAL_BURST_BYTES = 64 * 1024"

record rate_state =
  limit_bytes_per_sec :: "u64 option"
  rs_tokens :: u64
  rs_updated_at :: nat

definition positive_limit :: "u64 option \<Rightarrow> u64 option" where
  "positive_limit l = Option.bind l (\<lambda>n. if n > 0 then Some n else None)"

definition limiter_capacity :: "u64 option \<Rightarrow> u64" where
  "limiter_capacity l = (case l of None \<Rightarrow> - 1 | Some n \<Rightarrow> max n MAX_INITIAL_BURST_BYTES)"

definition limiter_new :: "nat \<Rightarrow> u64 option \<Rightarrow> rate_state" where
  "limiter_new now l =
     \<lparr>limit_bytes_per_sec = positive_limit l, rs_tokens = limiter_capacity (positive_limit l), rs_updated_at = now\<rparr>"

text \<open>The flag tells whether the waiters are woken.\<close>

definition limiter_set_limit :: "nat \<Rightarrow> u64 option \<Rightarrow> rate_state \<Rightarrow> bool \<times> rate_state" where
  "limiter_set_limit now l s =
     (let l' = positive_limit l in
      if limit_bytes_per_sec s = l' then (False, s)
      else (True, s\<lparr>limit_bytes_per_sec := l', rs_tokens := limiter_capacity l', rs_updated_at := now\<rparr>))"

definition saturating_mul_u128 :: "nat \<Rightarrow> nat \<Rightarrow> nat" where
  "saturating_mul_u128 a b = min (a * b) (2 ^ 128 - 1)"

definition limiter_refill :: "u64 \<Rightarrow> nat \<Rightarrow> u64" where
  "limiter_refill l elapsed = of_nat (min (saturating_mul_u128 elapsed (unat l) div 1000000000) (2 ^ 64 - 1))"

definition limiter_wait :: "u64 \<Rightarrow> u64 \<Rightarrow> nat" where
  "limiter_wait l missing =
     min (max (min (saturating_mul_u128 (unat missing) 1000000000 + (unat l - 1)) (2 ^ 128 - 1) div unat l) 1) (2 ^ 64 - 1)"

datatype poll_result = Granted | Partly u64 | Wait nat

text \<open>\<open>Partly r\<close>: a chunk was granted and \<open>r\<close> bytes remain, to be asked for after yielding.\<close>

definition limiter_poll :: "nat \<Rightarrow> u64 \<Rightarrow> rate_state \<Rightarrow> poll_result \<times> rate_state" where
  "limiter_poll now remaining s =
     (case limit_bytes_per_sec s of
        None \<Rightarrow> (Granted, s)
      | Some l \<Rightarrow>
          let refill = limiter_refill l (now - rs_updated_at s);
              tokens = min (saturating_add (rs_tokens s) refill) (max l MAX_INITIAL_BURST_BYTES);
              requested = min remaining (max l MAX_INITIAL_BURST_BYTES) in
          if tokens \<ge> requested then
            (if remaining - requested = 0 then Granted else Partly (remaining - requested),
             s\<lparr>rs_tokens := tokens - requested, rs_updated_at := now\<rparr>)
          else (Wait (limiter_wait l (saturating_sub requested tokens)), s\<lparr>rs_tokens := tokens, rs_updated_at := now\<rparr>))"

fun poll_bytes :: "u64 \<Rightarrow> poll_result \<Rightarrow> nat" where
  "poll_bytes remaining Granted = unat remaining"
| "poll_bytes remaining (Partly r) = unat remaining - unat r"
| "poll_bytes remaining (Wait _) = 0"

text \<open>The bytes granted by a sequence of polls, each at a time and for a number of bytes.\<close>

fun granted_bytes :: "(nat \<times> u64) list \<Rightarrow> rate_state \<Rightarrow> nat" where
  "granted_bytes [] s = 0"
| "granted_bytes ((now, remaining) # ps) s =
     (case limiter_poll now remaining s of (r, s') \<Rightarrow> poll_bytes remaining r + granted_bytes ps s')"

subsection \<open>The rate\<close>

definition capacity_of :: "u64 \<Rightarrow> nat" where
  "capacity_of l = max (unat l) 65536"

lemma unat_capacity: "unat (max l MAX_INITIAL_BURST_BYTES) = capacity_of l"
  by (simp add: capacity_of_def MAX_INITIAL_BURST_BYTES_def max_def word_le_nat_alt)

lemma unat_refill: "unat (limiter_refill l elapsed) \<le> elapsed * unat l div 1000000000"
proof -
  have "min (saturating_mul_u128 elapsed (unat l) div 1000000000) (2 ^ 64 - 1) \<le> elapsed * unat l div 1000000000"
    unfolding saturating_mul_u128_def by (intro min.coboundedI1 div_le_mono) simp
  moreover have "unat (limiter_refill l elapsed) = min (saturating_mul_u128 elapsed (unat l) div 1000000000) (2 ^ 64 - 1)"
    by (simp add: limiter_refill_def unat_of_nat)
  ultimately show ?thesis by simp
qed

lemma poll_bounded:
  assumes "limiter_poll now remaining s = (r, s')" "limit_bytes_per_sec s = Some l"
  shows "limit_bytes_per_sec s' = Some l" "rs_updated_at s' = now"
    "poll_bytes remaining r + unat (rs_tokens s') \<le> unat (rs_tokens s) + (now - rs_updated_at s) * unat l div 1000000000"
proof -
  let ?cap = "max l MAX_INITIAL_BURST_BYTES"
  let ?tokens = "min (saturating_add (rs_tokens s) (limiter_refill l (now - rs_updated_at s))) ?cap"
  let ?req = "min remaining ?cap"
  have tokens: "unat ?tokens \<le> unat (rs_tokens s) + (now - rs_updated_at s) * unat l div 1000000000"
    using unat_refill [of l "now - rs_updated_at s"] by (auto simp: min_def word_le_nat_alt unat_saturating_add)
  have req: "?req \<le> remaining" by simp
  consider "?tokens \<ge> ?req" "r = (if remaining - ?req = 0 then Granted else Partly (remaining - ?req))"
      "s' = s\<lparr>rs_tokens := ?tokens - ?req, rs_updated_at := now\<rparr>"
    | "\<not> ?tokens \<ge> ?req" "\<exists>w. r = Wait w" "s' = s\<lparr>rs_tokens := ?tokens, rs_updated_at := now\<rparr>"
    using assms by (auto simp: limiter_poll_def Let_def split: if_splits)
  then have "limit_bytes_per_sec s' = Some l \<and> rs_updated_at s' = now \<and> poll_bytes remaining r + unat (rs_tokens s') \<le> unat ?tokens"
  proof cases
    case 1
    have "poll_bytes remaining r = unat ?req"
    proof (cases "remaining - ?req = 0")
      case True
      then have "?req = remaining" by (metis right_minus_eq)
      then show ?thesis using 1(2) True by simp
    next
      case False
      then have "r = Partly (remaining - ?req)" using 1(2) by (simp only: if_False)
      moreover have "unat (remaining - ?req) = unat remaining - unat ?req" using req by (rule unat_sub)
      moreover have "unat ?req \<le> unat remaining" using req unfolding word_le_nat_alt .
      ultimately show ?thesis by simp
    qed
    moreover have "unat (?tokens - ?req) = unat ?tokens - unat ?req" using 1(1) by (rule unat_sub)
    moreover have "unat ?req \<le> unat ?tokens" using 1(1) unfolding word_le_nat_alt .
    ultimately show ?thesis using 1(3) assms(2) by simp
  next
    case 2
    then show ?thesis using assms(2) by auto
  qed
  then show "limit_bytes_per_sec s' = Some l" "rs_updated_at s' = now"
    "poll_bytes remaining r + unat (rs_tokens s') \<le> unat (rs_tokens s) + (now - rs_updated_at s) * unat l div 1000000000"
    using tokens by auto
qed

lemma div_sum_le: "(a :: nat) div c + b div c \<le> (a + b) div c"
  using div_add1_eq [of a b c] by simp

lemma granted_bounded:
  assumes "sorted (map fst ps)" "\<forall>p \<in> set ps. rs_updated_at s \<le> fst p \<and> fst p \<le> t" "limit_bytes_per_sec s = Some l"
    "rs_updated_at s \<le> t"
  shows "granted_bytes ps s \<le> unat (rs_tokens s) + (t - rs_updated_at s) * unat l div 1000000000"
  using assms
proof (induction ps arbitrary: s)
  case (Cons p ps)
  obtain now remaining where p: "p = (now, remaining)" by (cases p)
  obtain r s' where r: "limiter_poll now remaining s = (r, s')" by (cases "limiter_poll now remaining s")
  note b = poll_bounded [OF r Cons.prems(3)]
  have t: "rs_updated_at s \<le> now" "now \<le> t" using Cons.prems(2) p by auto
  have "granted_bytes ps s' \<le> unat (rs_tokens s') + (t - now) * unat l div 1000000000"
    using Cons.IH [of s'] Cons.prems p b t by auto
  moreover have "(now - rs_updated_at s) * unat l div 1000000000 + (t - now) * unat l div 1000000000 \<le>
      (t - rs_updated_at s) * unat l div 1000000000"
  proof -
    have "(t - rs_updated_at s) * unat l = (now - rs_updated_at s) * unat l + (t - now) * unat l"
      using t by (simp add: add_mult_distrib [symmetric])
    then show ?thesis using div_sum_le by simp
  qed
  ultimately show ?case using b(3) p r by simp
qed simp

text \<open>
  C23. The limiter keeps its rate: whatever callers poll it, for whatever sizes and in whatever order,
  the bytes granted from its creation up to a time are at most one bucket (the limit of a second, or
  64 KiB if that is more) plus the limit times the time that has passed.
\<close>

theorem limiter_rate_bound:
  assumes "0 < l" "sorted (map fst polls)" "\<forall>p \<in> set polls. start \<le> fst p \<and> fst p \<le> t" "start \<le> t"
  shows "granted_bytes polls (limiter_new start (Some l)) \<le> max (unat l) 65536 + (t - start) * unat l div 1000000000"
proof -
  have "limiter_new start (Some l) = \<lparr>limit_bytes_per_sec = Some l, rs_tokens = max l MAX_INITIAL_BURST_BYTES, rs_updated_at = start\<rparr>"
    using assms(1) by (simp add: limiter_new_def positive_limit_def limiter_capacity_def)
  then show ?thesis
    using granted_bounded [of polls "limiter_new start (Some l)" t l] assms(2-4) unat_capacity [of l]
    by (simp add: capacity_of_def)
qed

theorem limiter_rate_bound_witness:
  "granted_bytes [(0, 65536), (100000000, 1)] (limiter_new 0 (Some 10)) \<le> 65537"
  using limiter_rate_bound [of 10 "[(0, 65536), (100000000, 1)]" 0 100000000] by simp

subsection \<open>Waiting\<close>

lemma ceil_mult: "0 < (b :: nat) \<Longrightarrow> a \<le> (a + (b - 1)) div b * b"
proof -
  assume b: "0 < b"
  have "a + (b - 1) = (a + (b - 1)) div b * b + (a + (b - 1)) mod b" by simp
  moreover have "(a + (b - 1)) mod b \<le> b - 1" using mod_less_divisor [OF b, of "a + (b - 1)"] by linarith
  ultimately show ?thesis by linarith
qed

lemma wait_suffices:
  assumes "0 < l" "unat missing \<le> capacity_of l" "limiter_wait l missing \<le> elapsed"
  shows "unat missing \<le> unat (limiter_refill l elapsed)"
proof -
  let ?m = "unat missing" and ?l = "unat l"
  let ?q = "(?m * 1000000000 + (?l - 1)) div ?l"
  have l: "0 < ?l" "?l < 2 ^ 64" using assms(1) unsigned_less [of l, where ?'a = nat] by (simp_all add: unat_gt_0)
  have m: "?m < 2 ^ 64" using unsigned_less [of missing, where ?'a = nat] by simp
  have "?q < 2 ^ 64"
  proof (cases "?m \<le> ?l")
    case True
    then have "?m * 1000000000 + (?l - 1) < 1000000001 * ?l" using l(1) by linarith
    then have "?q < 1000000001" by (simp add: less_mult_imp_div_less)
    then show ?thesis by simp
  next
    case False
    then have "?m \<le> 65536" using assms(2) by (simp add: capacity_of_def max_def split: if_splits)
    then have "?m * 1000000000 + (?l - 1) < 65536000000001 * ?l" using l(1) by (cases ?l) auto
    then have "?q < 65536000000001" by (simp add: less_mult_imp_div_less)
    then show ?thesis by simp
  qed
  moreover have "?m * 1000000000 + (?l - 1) < 2 ^ 128" using m l by simp
  ultimately have "?q \<le> limiter_wait l missing"
    unfolding limiter_wait_def saturating_mul_u128_def by (simp add: min_def)
  then have "?m * 1000000000 \<le> elapsed * ?l"
    using ceil_mult [OF l(1), of "?m * 1000000000"] assms(3) mult_le_mono1 [of ?q elapsed ?l] by linarith
  then have "?m * 1000000000 \<le> saturating_mul_u128 elapsed ?l" using m by (simp add: saturating_mul_u128_def)
  then have "?m \<le> saturating_mul_u128 elapsed ?l div 1000000000" by (simp add: less_eq_div_iff_mult_less_eq)
  then show ?thesis using m by (simp add: limiter_refill_def unat_of_nat)
qed

text \<open>A caller that is told to wait, and whom nobody overtakes, is served when it polls again after that time.\<close>

lemma lone_waiter_served:
  assumes "limit_bytes_per_sec s = Some l" "0 < l" "limiter_poll now remaining s = (Wait w, s')" "now + w \<le> now'"
  shows "\<nexists>w'. fst (limiter_poll now' remaining s') = Wait w'"
proof -
  let ?cap = "max l MAX_INITIAL_BURST_BYTES"
  define T where "T = min (saturating_add (rs_tokens s) (limiter_refill l (now - rs_updated_at s))) ?cap"
  define R where "R = min remaining ?cap"
  have w: "w = limiter_wait l (saturating_sub R T)" "s' = s\<lparr>rs_tokens := T, rs_updated_at := now\<rparr>"
    using assms(1,3) by (auto simp: limiter_poll_def Let_def T_def R_def split: if_splits)
  have "R \<le> ?cap" by (simp add: R_def)
  then have cap: "unat R \<le> capacity_of l" unfolding word_le_nat_alt unat_capacity .
  have "unat (saturating_sub R T) \<le> unat (limiter_refill l (now' - now))"
  proof (rule wait_suffices [OF assms(2)])
    show "unat (saturating_sub R T) \<le> capacity_of l" unfolding unat_saturating_sub using cap by linarith
    show "limiter_wait l (saturating_sub R T) \<le> now' - now" using w(1) assms(4) by linarith
  qed
  moreover have "unat R < 2 ^ 64" using unsigned_less [of R, where ?'a = nat] by simp
  ultimately have "unat R \<le> min (unat T + unat (limiter_refill l (now' - now))) (2 ^ LENGTH(64) - 1)"
    unfolding unat_saturating_sub by simp
  then have "R \<le> saturating_add T (limiter_refill l (now' - now))" unfolding word_le_nat_alt unat_saturating_add .
  then have "R \<le> min (saturating_add T (limiter_refill l (now' - now))) ?cap" using \<open>R \<le> ?cap\<close> by simp
  then show ?thesis using assms(1) by (auto simp: limiter_poll_def Let_def w(2) R_def split: if_splits)
qed

text \<open>
  A poll discards the fraction of a byte that the time since the last poll is worth. When polls by other
  callers come so often that each interval is worth less than one byte, an empty bucket stays empty and
  nobody is served, however much time passes.
\<close>

fun frequent :: "u64 \<Rightarrow> nat \<Rightarrow> (nat \<times> u64) list \<Rightarrow> bool" where
  "frequent l t [] \<longleftrightarrow> True"
| "frequent l t ((now, remaining) # ps) \<longleftrightarrow> (now - t) * unat l < 1000000000 \<and> 0 < remaining \<and> frequent l now ps"

lemma frequent_polls_starve:
  assumes "limit_bytes_per_sec s = Some l" "0 < l" "rs_tokens s = 0" "frequent l (rs_updated_at s) ps"
  shows "granted_bytes ps s = 0"
  using assms
proof (induction ps arbitrary: s)
  case (Cons p ps)
  obtain now remaining where p: "p = (now, remaining)" by (cases p)
  have "limiter_refill l (now - rs_updated_at s) = 0"
    using Cons.prems(4) p by (simp add: limiter_refill_def saturating_mul_u128_def)
  moreover have "\<not> min remaining (max l MAX_INITIAL_BURST_BYTES) \<le> 0"
    using Cons.prems(2,4) p by (auto simp: min_def max_def)
  ultimately have "limiter_poll now remaining s =
      (Wait (limiter_wait l (saturating_sub (min remaining (max l MAX_INITIAL_BURST_BYTES)) 0)), s\<lparr>rs_updated_at := now\<rparr>)"
    using Cons.prems(1,3) by (simp add: limiter_poll_def Let_def saturating_add_def)
  then show ?case using Cons.IH [of "s\<lparr>rs_updated_at := now\<rparr>"] Cons.prems p by simp
qed simp

end
