(* ===== verification/Spec2Isabelle.thy ===== *)
theory Spec2Isabelle
  imports Bencode_Laws Piece_Map_V2 Governor_Cas Peer_Codec Peer_Extension Picker_Laws Utp_Connection Session_Laws
    Tracker_Tiers Dht_Krpc Peer_Choker Jobs Storage_Elevator Rate_Limiter
begin

text \<open>
  A verification library for the protocol core of TorrentNG, a BitTorrent client in Rust.

  \<^bold>\<open>The program.\<close> The leaf crates under \<open>crates/\<close> are codecs, schedulers and state machines without I/O:
  bencode, piece map, piece picker, peer wire, uTP, memory governor, session, tracker, DHT, peer manager,
  jobs. The engine, the storage, the database, the API facades and the sidecar drive them with sockets,
  files, timers and SQL. A torrent file is read by the bencode decoder; its file list gives a piece map; the picker chooses blocks of
  pieces by the availability its peers announce; block requests and data travel as peer wire messages,
  over TCP or over uTP; the buffers they need are charged to the memory governor; the session registry
  holds the torrents and hands out snapshots and changes of them to the APIs.

  \<^bold>\<open>Theories and sources.\<close>
  \<^item> \<open>TNG_Prelude\<close>, \<open>TNG_Text\<close>: what the sources use of the standard library, that is checked, saturating
    and wrapping arithmetic, big-endian bytes, slices, binary search, decimal text and UTF-8 validity.
  \<^item> \<open>Codec_Interface\<close>: the locales \<open>byte_codec\<close>, \<open>canonical_codec\<close> and \<open>framed_codec\<close>, the contracts of the
    wire formats. They are interpreted on the peer messages, the peer frames, the handshake and the uTP
    packets, in the theories of these. A framed reader has a state and may refuse to buffer a frame.
  \<^item> \<open>Bencode\<close>, \<open>Bencode_Laws\<close>: \<open>rt-bencode\<close>. \<open>decode.rs\<close> is the record \<open>decoder\<close> and the mutually recursive
    \<open>decode_value\<close>, \<open>decode_list\<close> and \<open>decode_dict\<close>, with every limit; \<open>encode.rs\<close> is \<open>encode_into\<close>. Decoder and
    encoder are inverse to each other, and the info span of a torrent file is exactly the encoding of the
    value under the key \<open>info\<close>.
  \<^item> \<open>Piece_Map\<close>, \<open>Piece_Map_V2\<close>: \<open>rt-piece-map\<close>. The reference is the concatenation of the files; regions
    of a piece read exactly its bytes, request validation and the piece ranges of files are exact, and the
    constructor accepts exactly the valid layouts.
  \<^item> \<open>Resource_Governor\<close>: \<open>resource.rs\<close> of \<open>rt-metrics\<close>, as one thread runs it and as a step relation that
    interleaves the atomic operations of concurrent callers: caps hold in every reachable state, the
    counters equal the leases when no call is in flight, and an acquisition refines the interleaved steps.
  \<^item> \<open>Governor_Cas\<close>: the compare-and-swap loops of \<open>reserve\<close> taken apart into loads, swaps, retries and weak
    failures. These steps refine those of \<open>Resource_Governor\<close>, and under every schedule the calls in progress
    end within a quadratic number of operations, with the counters equal to the leases.
  \<^item> \<open>Peer_Message\<close>, \<open>Peer_Codec\<close>, \<open>Peer_Extension\<close>: \<open>rt-peer-wire\<close>. The message format is canonical, a stream
    cut anywhere is read back as the messages written unless the governor refuses a buffer, also while
    other users change the governor between the reads, buffers stay within what the governor granted,
    and the extension dictionaries are read back.
  \<^item> \<open>Availability\<close>, \<open>Piece_Picker\<close>, \<open>Picker_Laws\<close>: \<open>rt-piece-picker\<close>. Availability counts are those of the
    announcements, the rarest matching piece is the rarest, and a pick is a block that is wanted, enabled,
    offered by the peer and not requested before, after any sequence of calls.
  \<^item> \<open>Utp_Packet\<close>, \<open>Utp_Congestion\<close>, \<open>Utp_Connection\<close>: \<open>rt-utp\<close>. Packets and selective acknowledgements are
    canonical and exact, the base delay is the minimum over the window whatever the 32-bit clock wraps to,
    a connection stays well-formed, and over a network that loses, repeats and reorders datagrams the
    receiver delivers a prefix of what was sent.
  \<^item> \<open>Session_Torrent\<close>, \<open>Session_Registry\<close>, \<open>Session_Index\<close>, \<open>Session_Counters\<close>, \<open>Session_Laws\<close>: \<open>rt-session\<close>.
    The registry is a record of its indexes, counters, shard caches and change log, each operation a
    function of it, and one call one step. Indexes, counters, snapshots and changes agree with the
    entries in every reachable state; of snapshots and changes one flag is excepted (\<open>te_finalizing\<close>), which a
    demotion clears without recording a change, and they are exact on the histories without such a demotion.
  \<^item> \<open>Tracker_Tiers\<close>: \<open>tier.rs\<close>, \<open>peer.rs\<close> and \<open>policy.rs\<close> of \<open>rt-tracker\<close>, and a tracker's state as \<open>state.rs\<close>
    creates it: which tracker is announced to after any number of failures, and what compact peer lists hold.
  \<^item> \<open>Dht_Routing\<close>: \<open>node_id.rs\<close> and \<open>routing.rs\<close> of \<open>rt-dht\<close>: the routing table refines a bounded map, and the
    closest nodes it returns are the closest.
  \<^item> \<open>Dht_Krpc\<close>: \<open>krpc.rs\<close> of \<open>rt-dht\<close>, over \<open>Bencode\<close> and \<open>Dht_Routing\<close>: the messages are read back.
  \<^item> \<open>Peer_Choker\<close>: \<open>rt-peer-manager\<close>: the connection pool keeps its limits, a choking round fills its slots
    by rank, and the optimistic slot stays with the peer ranked next, over any number of rounds.
  \<^item> \<open>Storage_Elevator\<close>: \<open>elevator.rs\<close> and \<open>io_class.rs\<close> of \<open>rt-storage\<close>: no request is lost or dispatched twice, no
    slot is wasted, which requests are merged, and which of them a dispatch reads.
  \<^item> \<open>Rate_Limiter\<close>: the token bucket of \<open>network_budget.rs\<close> in \<open>rt-engine\<close>: the rate it keeps over any polls, when a
    waiting caller is served, and when polls that come too often starve it.
  \<^item> \<open>Jobs\<close>: \<open>rt-jobs\<close>: job states, progress and cancellation.

  \<^bold>\<open>Representation.\<close> A fixed-width integer is a word and wraps as the release profile does; a \<open>usize\<close>
  that counts memory is a natural number. A \<open>Result\<close> is a sum with the error on the left, a panic is
  \<open>None\<close>. Strings are their UTF-8 bytes. A hash map is a map, or an association list where the code walks
  it; a \<open>BTreeSet\<close> is the increasing list of its elements. Clocks, random numbers and fresh identifiers are
  arguments. The allocator and the admission closure of the decoder and the capacity policy of the
  buffers are parameters, with their documented laws as hypotheses where a property needs them.

  \<^bold>\<open>Bounds and fuel.\<close> Loops are structural recursions or functions with a termination measure, with two
  exceptions that carry fuel. The walk that finds the info span (\<open>skip_value\<close>, \<open>find_info_loop\<close>) has the
  length of the input as fuel, which is shown to be enough on the encoding of a value, and the walk runs
  only on input the decoder has accepted. The length scan of the metadata messages (\<open>scan_value\<close>) has
  \<open>scan_fuel\<close>, twice the length of the input plus one, which is shown to be enough on every payload.

  \<^bold>\<open>Not modelled.\<close> The uTP transport, the engine apart from its rate limiter, the storage backends, the
  database, the API facades, the daemon, the desktop client and the sidecar consist for the most part of
  operating system calls, asynchronous tasks, SQL and third-party services, of which a model would have to
  make up the behaviour. Floating point (transfer ratios, retry delays, rate averages) is left out because
  the rounding of \<open>f64\<close> has no counterpart in the libraries used; the choker only compares rates, which
  are real numbers there. The fields and loops that hang on them (\<open>on_success\<close> and \<open>on_failure\<close> of a tracker,
  \<open>record_upload\<close> of a peer) are left out with them. Pure code that could be modelled in the same style and is
  not: the tracker requests, responses, UDP frames and the redaction of their texts, the metainfo parser with
  the hash functions as parameters, the lexical path checks, fast resume states and the policy modules of
  the engine.
\<close>

end
